(* ===== verification/Prelude.thy ===== *)
theory Prelude
  imports Main "HOL-Library.Word" "HOL-Library.Char_ord" "HOL-Library.List_Lexorder"
    "HOL-Library.Multiset"
begin

text \<open>
  Shared vocabulary of the development: names for the machine types of the program, results of
  fallible code, loops with an early return, and the named collections of rewrite rules the
  component theories fill.

  Conventions.  A Rust \<open>Result<T, E>\<close> is \<open>'e + 'a\<close> with \<open>Inl\<close> for \<open>Err\<close>.  A computation that
  may also panic (or not return) is an \<open>option\<close> around its result, with \<open>None\<close> for the panic.
  A Rust \<open>String\<close> is a list of characters, each a Unicode scalar value in the range
  U+0000 - U+00FF; its length in bytes is \<open>utf8_len\<close> below, which differs from the number of
  characters exactly where UTF-8 needs two bytes.
\<close>

type_synonym byte = "8 word"
type_synonym bytes = "8 word list"
type_synonym u16 = "16 word"
type_synonym u32 = "32 word"
type_synonym u64 = "64 word"

named_theorems store_simps \<open>lookup laws of the ordered collections and of the stores built on them\<close>
named_theorems wf_intros \<open>preservation of well-formedness\<close>
named_theorems outcome_simps \<open>how predicate outcomes combine\<close>

section \<open>Results\<close>

definition bind_res :: "'e + 'a \<Rightarrow> ('a \<Rightarrow> 'e + 'b) \<Rightarrow> 'e + 'b" where
  "bind_res r f = (case r of Inl e \<Rightarrow> Inl e | Inr x \<Rightarrow> f x)"

lemma bind_res_simps [simp]:
  "bind_res (Inl e) f = Inl e"
  "bind_res (Inr x) f = f x"
  by (simp_all add: bind_res_def)

lemma bind_res_eq_Inr [simp]:
  "bind_res r f = Inr y \<longleftrightarrow> (\<exists>x. r = Inr x \<and> f x = Inr y)"
  by (cases r) auto

lemma bind_res_eq_Inl [simp]:
  "bind_res r f = Inl e \<longleftrightarrow> r = Inl e \<or> (\<exists>x. r = Inr x \<and> f x = Inl e)"
  by (cases r) auto

definition is_ok :: "'e + 'a \<Rightarrow> bool" where
  "is_ok r = (case r of Inl _ \<Rightarrow> False | Inr _ \<Rightarrow> True)"

lemma is_ok_simps [simp]: "is_ok (Inr x)" "\<not> is_ok (Inl e)"
  by (simp_all add: is_ok_def)

lemma is_ok_iff: "is_ok r \<longleftrightarrow> (\<exists>x. r = Inr x)"
  by (cases r) auto

text \<open>A \<open>for\<close> loop that pushes one value per element and returns at the first error (\<open>?\<close>).\<close>

fun try_list :: "('a \<Rightarrow> 'e + 'b) \<Rightarrow> 'a list \<Rightarrow> 'e + 'b list" where
  "try_list f [] = Inr []"
| "try_list f (x # xs) = bind_res (f x) (\<lambda>y. bind_res (try_list f xs) (\<lambda>ys. Inr (y # ys)))"

lemma try_list_Inr_iff:
  "try_list f xs = Inr ys \<longleftrightarrow> list_all2 (\<lambda>x y. f x = Inr y) xs ys"
  by (induction xs arbitrary: ys) (auto simp: list_all2_Cons1)

lemma try_list_Inr_set:
  "try_list f xs = Inr ys \<Longrightarrow> set ys = {y. \<exists>x \<in> set xs. f x = Inr y} \<and> (\<forall>x \<in> set xs. is_ok (f x))"
  by (induction xs arbitrary: ys) auto

lemma try_list_Inl_iff:
  "try_list f xs = Inl e \<longleftrightarrow>
     (\<exists>us x vs. xs = us @ x # vs \<and> (\<forall>u \<in> set us. is_ok (f u)) \<and> f x = Inl e)"
proof (induction xs)
  case Nil
  then show ?case by simp
next
  case (Cons a xs)
  show ?case
  proof (cases "f a")
    case (Inl e')
    have "us = []" if "a # xs = us @ x # vs" "\<forall>u \<in> set us. is_ok (f u)" for us x vs
      using that Inl by (cases us) auto
    with Inl show ?thesis by fastforce
  next
    case (Inr b)
    show ?thesis
    proof
      assume "try_list f (a # xs) = Inl e"
      with Inr have "try_list f xs = Inl e" by simp
      then obtain us x vs where "xs = us @ x # vs" "\<forall>u \<in> set us. is_ok (f u)" "f x = Inl e"
        using Cons.IH by blast
      with Inr show "\<exists>us x vs. a # xs = us @ x # vs \<and> (\<forall>u \<in> set us. is_ok (f u)) \<and> f x = Inl e"
        by (intro exI [of _ "a # us"]) auto
    next
      assume "\<exists>us x vs. a # xs = us @ x # vs \<and> (\<forall>u \<in> set us. is_ok (f u)) \<and> f x = Inl e"
      then obtain us x vs where *: "a # xs = us @ x # vs" "\<forall>u \<in> set us. is_ok (f u)" "f x = Inl e"
        by blast
      with Inr obtain us' where "us = a # us'" by (cases us) auto
      with * have "xs = us' @ x # vs \<and> (\<forall>u \<in> set us'. is_ok (f u)) \<and> f x = Inl e" by auto
      then have "try_list f xs = Inl e" using Cons.IH by blast
      with Inr show "try_list f (a # xs) = Inl e" by simp
    qed
  qed
qed

text \<open>A \<open>for\<close> loop over a mutable state that returns at the first error.\<close>

fun fold_res :: "('a \<Rightarrow> 's \<Rightarrow> 'e + 's) \<Rightarrow> 'a list \<Rightarrow> 's \<Rightarrow> 'e + 's" where
  "fold_res f [] s = Inr s"
| "fold_res f (x # xs) s = bind_res (f x s) (fold_res f xs)"

lemma bind_res_assoc: "bind_res (bind_res r f) g = bind_res r (\<lambda>x. bind_res (f x) g)"
  by (cases r) auto

lemma bind_res_Inr_right [simp]: "bind_res r Inr = r"
  by (cases r) auto

lemma fold_res_append: "fold_res f (xs @ ys) s = bind_res (fold_res f xs s) (fold_res f ys)"
  by (induction xs arbitrary: s) (auto simp: bind_res_def split: sum.splits)

text \<open>Invariant rule: what every successful body keeps, a successful loop keeps.\<close>

lemma fold_res_invariant:
  assumes "fold_res f xs s = Inr s'" "P s" "\<And>x s s'. x \<in> set xs \<Longrightarrow> P s \<Longrightarrow> f x s = Inr s' \<Longrightarrow> P s'"
  shows "P s'"
  using assms by (induction xs arbitrary: s) auto

lemma try_list_append:
  "try_list f (xs @ ys) = bind_res (try_list f xs) (\<lambda>us. bind_res (try_list f ys) (\<lambda>vs. Inr (us @ vs)))"
  by (induction xs) (auto simp: bind_res_def split: sum.splits)

text \<open>The same loop over a body that may panic.\<close>

fun opt_list :: "('a \<Rightarrow> 'b option) \<Rightarrow> 'a list \<Rightarrow> 'b list option" where
  "opt_list f [] = Some []"
| "opt_list f (x # xs) = (case f x of None \<Rightarrow> None
     | Some y \<Rightarrow> map_option (\<lambda>ys. y # ys) (opt_list f xs))"

lemma opt_list_Some_iff:
  "opt_list f xs = Some ys \<longleftrightarrow> list_all2 (\<lambda>x y. f x = Some y) xs ys"
  by (induction xs arbitrary: ys) (auto simp: list_all2_Cons1 split: option.splits)

lemma opt_list_None_iff: "opt_list f xs = None \<longleftrightarrow> (\<exists>x \<in> set xs. f x = None)"
  by (induction xs) (auto split: option.splits)

lemma opt_list_length: "opt_list f xs = Some ys \<Longrightarrow> length ys = length xs"
  by (auto simp: opt_list_Some_iff dest: list_all2_lengthD)

text \<open>The element a \<open>find\<close> returns splits the list at the first match.\<close>

lemma find_split:
  "find P xs = Some e \<longleftrightarrow> (\<exists>us vs. xs = us @ e # vs \<and> (\<forall>u \<in> set us. \<not> P u) \<and> P e)"
proof
  assume "find P xs = Some e"
  then obtain i where i: "i < length xs" "P (xs ! i)" "e = xs ! i" "\<forall>j < i. \<not> P (xs ! j)"
    unfolding find_Some_iff by blast
  then have "xs = take i xs @ e # drop (Suc i) xs" by (simp add: id_take_nth_drop)
  moreover have "\<forall>u \<in> set (take i xs). \<not> P u" using i by (auto simp: in_set_conv_nth)
  ultimately show "\<exists>us vs. xs = us @ e # vs \<and> (\<forall>u \<in> set us. \<not> P u) \<and> P e" using i by blast
next
  assume "\<exists>us vs. xs = us @ e # vs \<and> (\<forall>u \<in> set us. \<not> P u) \<and> P e"
  then obtain us vs where xs: "xs = us @ e # vs" and us: "\<forall>u \<in> set us. \<not> P u" and e: "P e" by blast
  from us show "find P xs = Some e" unfolding xs by (induction us) (simp_all add: e)
qed

section \<open>Strings\<close>

definition utf8_width :: "char \<Rightarrow> nat" where
  "utf8_width c = (if of_char c < (128 :: nat) then 1 else 2)"

definition utf8_len :: "string \<Rightarrow> nat" where
  "utf8_len s = sum_list (map utf8_width s)"

lemma utf8_len_ascii: "(\<And>c. c \<in> set s \<Longrightarrow> of_char c < (128 :: nat)) \<Longrightarrow> utf8_len s = length s"
  by (induction s) (auto simp: utf8_len_def utf8_width_def)

text \<open>\<open>Iterator::position\<close> for a single character.\<close>

fun position :: "char \<Rightarrow> string \<Rightarrow> nat option" where
  "position c [] = None"
| "position c (d # ds) = (if c = d then Some 0 else map_option Suc (position c ds))"

lemma position_append_notin: "c \<notin> set xs \<Longrightarrow> position c (xs @ c # ys) = Some (length xs)"
  by (induction xs) auto

lemma position_None_iff: "position c xs = None \<longleftrightarrow> c \<notin> set xs"
  by (induction xs) auto

section \<open>Unsigned arithmetic\<close>

text \<open>\<open>u64::saturating_sub\<close>\<close>

definition saturating_sub :: "'a::len word \<Rightarrow> 'a word \<Rightarrow> 'a word" where
  "saturating_sub a b = (if a < b then 0 else a - b)"

lemma unat_saturating_sub: "unat (saturating_sub a b) = unat a - unat b"
  by (auto simp: saturating_sub_def unat_sub word_less_nat_alt not_less word_le_nat_alt)

end
