(* ===== verification/BTree.thy ===== *)
theory BTree
  imports Prelude
begin

text \<open>
  The ordered collections of the standard library the program stores its data in.  A
  \<open>BTreeMap<K, V>\<close> is an association list kept strictly sorted by key, which is what its iterators
  yield; a \<open>BTreeSet<K>\<close> is a map to the unit value, as in the standard library itself.  The
  operations are those the program calls.  The locale \<open>ordered_map\<close> is the interface the
  component theories rely on; the lists interpret it.
\<close>

type_synonym ('k, 'v) btree_map = "('k \<times> 'v) list"
type_synonym 'k btree_set = "('k \<times> unit) list"

fun bt_insert :: "'k::linorder \<Rightarrow> 'v \<Rightarrow> ('k, 'v) btree_map \<Rightarrow> ('k, 'v) btree_map" where
  "bt_insert k v [] = [(k, v)]"
| "bt_insert k v ((k', v') # m) =
     (if k < k' then (k, v) # (k', v') # m
      else if k = k' then (k, v) # m
      else (k', v') # bt_insert k v m)"

definition bt_remove :: "'k \<Rightarrow> ('k, 'v) btree_map \<Rightarrow> ('k, 'v) btree_map" where
  "bt_remove k m = filter (\<lambda>e. fst e \<noteq> k) m"

definition bt_get :: "('k, 'v) btree_map \<Rightarrow> 'k \<Rightarrow> 'v option" where
  "bt_get m k = map_of m k"

definition bt_keys :: "('k, 'v) btree_map \<Rightarrow> 'k list" where
  "bt_keys m = map fst m"

definition bt_inv :: "('k::linorder, 'v) btree_map \<Rightarrow> bool" where
  "bt_inv m = sorted_wrt (<) (map fst m)"

text \<open>\<open>Extend\<close> and \<open>FromIterator\<close>: insert every pair in order, a later one replacing an earlier.\<close>

definition bt_extend :: "('k::linorder, 'v) btree_map \<Rightarrow> ('k \<times> 'v) list \<Rightarrow> ('k, 'v) btree_map" where
  "bt_extend m kvs = foldl (\<lambda>acc e. bt_insert (fst e) (snd e) acc) m kvs"

definition bt_collect :: "('k::linorder \<times> 'v) list \<Rightarrow> ('k, 'v) btree_map" where
  "bt_collect kvs = bt_extend [] kvs"

section \<open>The interface\<close>

locale ordered_map =
  fixes empty :: "'m"
    and insert :: "'k::linorder \<Rightarrow> 'v \<Rightarrow> 'm \<Rightarrow> 'm"
    and remove :: "'k \<Rightarrow> 'm \<Rightarrow> 'm"
    and get :: "'m \<Rightarrow> 'k \<Rightarrow> 'v option"
    and entries :: "'m \<Rightarrow> ('k \<times> 'v) list"
    and invar :: "'m \<Rightarrow> bool"
  assumes get_empty: "get empty k = None"
    and get_insert: "get (insert k v m) k' = (if k' = k then Some v else get m k')"
    and get_remove: "get (remove k m) k' = (if k' = k then None else get m k')"
    and get_entries: "get m k = map_of (entries m) k"
    and invar_empty: "invar empty"
    and invar_insert: "invar m \<Longrightarrow> invar (insert k v m)"
    and invar_remove: "invar m \<Longrightarrow> invar (remove k m)"
    and entries_sorted: "invar m \<Longrightarrow> sorted_wrt (<) (map fst (entries m))"
begin

lemma entries_distinct: "invar m \<Longrightarrow> distinct (map fst (entries m))"
  using entries_sorted strict_sorted_iff by blast

lemma in_entries_iff: "invar m \<Longrightarrow> (k, v) \<in> set (entries m) \<longleftrightarrow> get m k = Some v"
  using entries_distinct by (simp add: get_entries)

lemma insert_all_get:
  "distinct (map fst es) \<Longrightarrow>
   get (foldl (\<lambda>acc e. insert (fst e) (snd e) acc) m es) k =
     (case map_of es k of Some v \<Rightarrow> Some v | None \<Rightarrow> get m k)"
proof (induction es arbitrary: m)
  case Nil
  then show ?case by simp
next
  case (Cons e es)
  then have "map_of es (fst e) = None" by (simp add: map_of_eq_None_iff)
  with Cons show ?case by (cases e) (auto simp: get_insert split: option.splits)
qed

lemma insert_all_invar:
  "invar m \<Longrightarrow> invar (foldl (\<lambda>acc e. insert (fst e) (snd e) acc) m es)"
  by (induction es arbitrary: m) (auto intro: invar_insert)

lemma remove_all_get:
  "get (foldl (\<lambda>acc e. remove (fst e) acc) m es) k =
     (if k \<in> fst ` set es then None else get m k)"
  by (induction es arbitrary: m) (auto simp: get_remove)

lemma remove_all_invar:
  "invar m \<Longrightarrow> invar (foldl (\<lambda>acc e. remove (fst e) acc) m es)"
  by (induction es arbitrary: m) (auto intro: invar_remove)

end

section \<open>The lists implement it\<close>

lemma map_of_bt_insert: "map_of (bt_insert k v m) k' = (if k' = k then Some v else map_of m k')"
  by (induction m) auto

lemma keys_bt_insert: "set (map fst (bt_insert k v m)) = insert k (set (map fst m))"
proof (induction m)
  case (Cons e m)
  then show ?case by (cases e) (simp add: insert_commute)
qed simp

lemma bt_inv_insert: "bt_inv m \<Longrightarrow> bt_inv (bt_insert k v m)"
proof (induction m)
  case (Cons e m)
  obtain k' v' where e: "e = (k', v')" by (cases e)
  from Cons.prems e have hd: "\<forall>x \<in> set (map fst m). k' < x" and tl: "bt_inv m"
    by (simp_all add: bt_inv_def)
  consider "k < k'" | "k = k'" | "k' < k" by (rule linorder_cases)
  then show ?case
  proof cases
    case 1
    with hd have "\<forall>x \<in> set (map fst m). k < x" by auto
    with 1 hd tl e show ?thesis by (simp add: bt_inv_def)
  next
    case 2
    with hd tl e show ?thesis by (simp add: bt_inv_def)
  next
    case 3
    then have gt: "\<not> k < k'" "k \<noteq> k'" by auto
    have "\<forall>x \<in> set (map fst (bt_insert k v m)). k' < x"
      using 3 hd by (simp add: keys_bt_insert del: set_map)
    with gt e Cons.IH [OF tl] show ?thesis by (simp add: bt_inv_def del: set_map)
  qed
qed (simp add: bt_inv_def)

lemma bt_inv_remove: "bt_inv m \<Longrightarrow> bt_inv (bt_remove k m)"
  by (induction m) (auto simp: bt_inv_def bt_remove_def)

lemma map_of_bt_remove: "map_of (bt_remove k m) k' = (if k' = k then None else map_of m k')"
  by (induction m) (auto simp: bt_remove_def)

interpretation bt: ordered_map "[]" bt_insert bt_remove bt_get "\<lambda>m. m" bt_inv
  by unfold_locales
    (auto simp: bt_get_def map_of_bt_insert map_of_bt_remove intro: bt_inv_insert bt_inv_remove,
     auto simp: bt_inv_def)

lemmas bt_get_simps [simp, store_simps] = bt.get_empty bt.get_insert bt.get_remove
lemmas bt_invs [simp, wf_intros] = bt.invar_empty bt.invar_insert bt.invar_remove

lemma bt_extend_get:
  "distinct (map fst kvs) \<Longrightarrow>
   bt_get (bt_extend m kvs) k = (case map_of kvs k of Some v \<Rightarrow> Some v | None \<Rightarrow> bt_get m k)"
  by (simp add: bt_extend_def bt.insert_all_get)

lemma bt_extend_inv [wf_intros]: "bt_inv m \<Longrightarrow> bt_inv (bt_extend m kvs)"
  by (simp add: bt_extend_def bt.insert_all_invar)

lemma bt_collect_inv [wf_intros]: "bt_inv (bt_collect kvs)"
  by (simp add: bt_collect_def bt_extend_inv)

lemma bt_get_Some_mem: "bt_get m k = Some v \<Longrightarrow> (k, v) \<in> set m"
  by (simp add: bt_get_def map_of_SomeD)

lemma bt_get_None_iff: "bt_get m k = None \<longleftrightarrow> k \<notin> fst ` set m"
  by (simp add: bt_get_def map_of_eq_None_iff)

lemma bt_get_dom: "k \<in> fst ` set m \<longleftrightarrow> bt_get m k \<noteq> None"
  by (simp add: bt_get_None_iff)

lemma bt_get_eq_map_of: "bt_get m = map_of m"
  by (rule ext) (simp add: bt_get_def)

text \<open>A sorted list is determined by its lookups, so equal contents mean equal maps.\<close>

lemma bt_inv_ext:
  assumes "bt_inv m" "bt_inv m'" "\<And>k. bt_get m k = bt_get m' k"
  shows "m = m'"
proof -
  have dist: "distinct (map fst m)" "distinct (map fst m')"
    using assms(1,2) bt.entries_distinct by blast+
  moreover have "map_of m = map_of m'" using assms(3) by (auto simp: bt_get_def)
  ultimately have "set m = set m'" by (simp add: map_of_inject_set)
  moreover have "sorted (map fst m)" "sorted (map fst m')"
    using assms(1,2) strict_sorted_iff by (auto simp: bt_inv_def)
  moreover have "inj_on fst (set m \<union> set m')"
    using dist \<open>set m = set m'\<close> by (simp add: distinct_map)
  ultimately show ?thesis using dist map_sorted_distinct_set_unique by blast
qed

end
