(* ===== verification/Addresses.thy ===== *)
theory Addresses
  imports BTree
begin

text \<open>
  Account addresses, \<open>primitives/src/address.rs\<close>: the validating constructor, the ancestor
  iterator, \<open>combine\<close> and \<open>is_parent_of\<close>.  The abstract view is a non-empty list of path
  segments, printed by \<open>join_path\<close>; the lemmas show that the string operations compute what
  the segment list says.  \<open>Deserialize\<close> is derived for the newtype, so a value of type \<open>address\<close>
  that came from the wire need not have passed the constructor; the iterator is therefore
  modelled on every string, with \<open>None\<close> for its panic and for a run that never ends.
\<close>

datatype address_error =
    EmptyPath
  | EmptyPathSegment
  | MissingStartingSlash
  | InvalidEndingSlash
  | InvalidCharacter char

datatype address = Address (path: string)

instantiation address :: linorder
begin

definition less_eq_address :: "address \<Rightarrow> address \<Rightarrow> bool" where
  "less_eq_address a b = (path a \<le> path b)"

definition less_address :: "address \<Rightarrow> address \<Rightarrow> bool" where
  "less_address a b = (path a < path b)"

instance
  by standard (auto simp: less_eq_address_def less_address_def address.expand)

end

abbreviation slash :: char where
  "slash \<equiv> CHR ''/''"

section \<open>The constructor\<close>

definition is_ascii_alphanumeric :: "char \<Rightarrow> bool" where
  "is_ascii_alphanumeric c =
     (let n = of_char c :: nat in
      48 \<le> n \<and> n \<le> 57 \<or> 65 \<le> n \<and> n \<le> 90 \<or> 97 \<le> n \<and> n \<le> 122)"

definition ALLOWED_SYMBOLS :: "char list" where
  "ALLOWED_SYMBOLS = [CHR ''.'', CHR ''-'', CHR ''_'']"

text \<open>The loop over the characters after the first, with the length of the current segment.\<close>

fun scan_path :: "nat \<Rightarrow> string \<Rightarrow> address_error + nat" where
  "scan_path segment_len [] = Inr segment_len"
| "scan_path segment_len (c # cs) =
     (if c = slash \<and> segment_len = 0 then Inl EmptyPathSegment
      else
        let segment_len = (if c = slash then 0 else Suc segment_len) in
        if \<not> (is_ascii_alphanumeric c \<or> c = slash \<or> c \<in> set ALLOWED_SYMBOLS)
        then Inl (InvalidCharacter c)
        else scan_path segment_len cs)"

definition address_new :: "string \<Rightarrow> address_error + address" where
  "address_new p =
     (case p of
        [] \<Rightarrow> Inl EmptyPath
      | first # chars \<Rightarrow>
          if first \<noteq> slash then Inl MissingStartingSlash
          else bind_res (scan_path 0 chars)
            (\<lambda>segment_len. if segment_len = 0 then Inl InvalidEndingSlash else Inr (Address p)))"

section \<open>Navigation\<close>

text \<open>
  \<open>AncestorIterator::next\<close>: the item and the iterator's new current address; \<open>None\<close> is the
  panic of \<open>expect\<close>.  The slash position is computed from the length in bytes and used to take
  that many characters.
\<close>

definition ancestor_next :: "address \<Rightarrow> (address option \<times> address) option" where
  "ancestor_next cur =
     (case position slash (rev (path cur)) of
        None \<Rightarrow> None
      | Some pos \<Rightarrow>
          let slash_pos = utf8_len (path cur) - 1 - pos in
          if slash_pos = 0 then Some (None, cur)
          else let up = Address (take slash_pos (path cur)) in Some (Some up, up))"

text \<open>What a \<open>for\<close> loop over \<open>addr.ancestors()\<close> sees.\<close>

partial_function (option) ancestors :: "address \<Rightarrow> address list option" where
  "ancestors a =
     (case ancestor_next a of
        None \<Rightarrow> None
      | Some (item, cur) \<Rightarrow>
          (case item of
             None \<Rightarrow> Some []
           | Some up \<Rightarrow> Option.bind (ancestors cur) (\<lambda>ups. Some (up # ups))))"

text \<open>
  The loop \<open>for up in addr.ancestors() { body }\<close> with a body that may return early; the iterator
  is advanced between two runs of the body.
\<close>

partial_function (option) for_ancestors ::
  "(address \<Rightarrow> 's \<Rightarrow> 'e + 's) \<Rightarrow> address \<Rightarrow> 's \<Rightarrow> ('e + 's) option"
where
  "for_ancestors body a s =
     (case ancestor_next a of
        None \<Rightarrow> None
      | Some (item, cur) \<Rightarrow>
          (case item of
             None \<Rightarrow> Some (Inr s)
           | Some up \<Rightarrow>
               (case body up s of
                  Inl e \<Rightarrow> Some (Inl e)
                | Inr s' \<Rightarrow> for_ancestors body cur s')))"

definition combine :: "address \<Rightarrow> string \<Rightarrow> address_error + address" where
  "combine a segment = address_new (path a @ [slash] @ segment)"

definition starts_with :: "'a list \<Rightarrow> 'a list \<Rightarrow> bool" where
  "starts_with xs pre = (take (length pre) xs = pre)"

definition is_parent_of :: "address \<Rightarrow> address \<Rightarrow> bool" where
  "is_parent_of a other = starts_with (path other) (path a @ [slash])"

lemma for_ancestors_fold:
  "ancestors a = Some as \<Longrightarrow> for_ancestors body a s = Some (fold_res body as s)"
proof (induction as arbitrary: a s)
  case Nil
  then show ?case
    by (auto simp: ancestors.simps [of a] for_ancestors.simps [of body a] bind_eq_Some_conv
        split: option.splits prod.splits)
next
  case (Cons up as)
  from Cons.prems obtain cur where *: "ancestor_next a = Some (Some up, cur)" "ancestors cur = Some as"
    by (auto simp: ancestors.simps [of a] bind_eq_Some_conv split: option.splits prod.splits)
  then show ?case
    using Cons.IH [OF *(2)] by (auto simp: for_ancestors.simps [of body a] bind_res_def split: sum.splits)
qed

section \<open>Segments\<close>

definition segment_char :: "char \<Rightarrow> bool" where
  "segment_char c = (is_ascii_alphanumeric c \<or> c \<in> set ALLOWED_SYMBOLS)"

definition segment_ok :: "string \<Rightarrow> bool" where
  "segment_ok s = (s \<noteq> [] \<and> list_all segment_char s)"

definition join_path :: "string list \<Rightarrow> string" where
  "join_path segs = concat (map (\<lambda>s. slash # s) segs)"

definition valid_segments :: "string list \<Rightarrow> bool" where
  "valid_segments segs = (segs \<noteq> [] \<and> list_all segment_ok segs)"

definition valid_address :: "address \<Rightarrow> bool" where
  "valid_address a = is_ok (address_new (path a))"

lemma join_path_simps [simp]:
  "join_path [] = []"
  "join_path (s # segs) = slash # s @ join_path segs"
  "join_path (xs @ ys) = join_path xs @ join_path ys"
  by (simp_all add: join_path_def)

lemma join_path_eq_Nil [simp]: "join_path segs = [] \<longleftrightarrow> segs = []" "[] = join_path segs \<longleftrightarrow> segs = []"
  by (cases segs; simp)+

lemma slash_not_segment_char [simp]: "\<not> segment_char slash"
  by (simp add: segment_char_def is_ascii_alphanumeric_def ALLOWED_SYMBOLS_def)

lemma segment_char_ascii: "segment_char c \<Longrightarrow> of_char c < (128 :: nat)"
  by (auto simp: segment_char_def is_ascii_alphanumeric_def ALLOWED_SYMBOLS_def Let_def)

lemma segment_no_slash: "list_all segment_char s \<Longrightarrow> slash \<notin> set s"
  by (induction s) auto

lemma join_path_ascii:
  "list_all (list_all segment_char) segs \<Longrightarrow> c \<in> set (join_path segs) \<Longrightarrow> of_char c < (128 :: nat)"
  by (induction segs) (auto simp: list_all_iff segment_char_ascii)

lemma segments_chars: "list_all segment_ok segs \<Longrightarrow> list_all (list_all segment_char) segs"
  by (auto simp: list_all_iff segment_ok_def)

lemma utf8_len_join_path:
  "list_all segment_ok segs \<Longrightarrow> utf8_len (join_path segs) = length (join_path segs)"
  by (rule utf8_len_ascii) (metis join_path_ascii segments_chars)

lemma scan_path_Cons_segment [simp]:
  "segment_char c \<Longrightarrow> scan_path n (c # cs) = scan_path (Suc n) cs"
  using slash_not_segment_char by (auto simp: segment_char_def Let_def)

lemma scan_path_Cons_slash [simp]:
  "scan_path n (slash # cs) = (if n = 0 then Inl EmptyPathSegment else scan_path 0 cs)"
  by (simp add: Let_def)

lemma scan_path_Cons_bad:
  "\<not> segment_char c \<Longrightarrow> c \<noteq> slash \<Longrightarrow> scan_path n (c # cs) = Inl (InvalidCharacter c)"
  by (auto simp: segment_char_def Let_def)

declare scan_path.simps(2) [simp del]

lemma scan_path_ok_iff:
  "(\<exists>m > 0. scan_path n cs = Inr m) \<longleftrightarrow>
   (\<exists>s segs. cs = s @ join_path segs \<and> list_all segment_char s \<and> (0 < n \<or> s \<noteq> [])
      \<and> list_all segment_ok segs)"
  (is "?L n cs \<longleftrightarrow> ?R n cs")
proof (induction cs arbitrary: n)
  case Nil
  show ?case by auto
next
  case (Cons c cs)
  consider (seg) "segment_char c" | (sl) "c = slash" | (bad) "\<not> segment_char c" "c \<noteq> slash" by blast
  then show ?case
  proof cases
    case seg
    have "?R n (c # cs) \<longleftrightarrow> ?R (Suc n) cs"
    proof
      assume "?R n (c # cs)"
      then obtain s segs where s: "c # cs = s @ join_path segs" "list_all segment_char s"
        "list_all segment_ok segs" by blast
      with seg obtain s' where "s = c # s'" by (cases s; cases segs) auto
      with s show "?R (Suc n) cs" by auto
    next
      assume "?R (Suc n) cs"
      then obtain s segs where "cs = s @ join_path segs" "list_all segment_char s"
        "list_all segment_ok segs" by blast
      with seg show "?R n (c # cs)" by (intro exI [of _ "c # s"] exI [of _ segs]) auto
    qed
    with seg Cons.IH [of "Suc n"] show ?thesis by simp
  next
    case sl
    have "?R n (c # cs) \<longleftrightarrow> 0 < n \<and> ?R 0 cs"
    proof
      assume "?R n (c # cs)"
      then obtain s segs where s: "c # cs = s @ join_path segs" "list_all segment_char s"
        "0 < n \<or> s \<noteq> []" "list_all segment_ok segs" by blast
      with sl have "s = []" by (cases s) auto
      with s obtain t segs' where "segs = t # segs'" by (cases segs) auto
      with s \<open>s = []\<close> sl have "0 < n" "cs = t @ join_path segs'" "segment_ok t"
        "list_all segment_ok segs'" by simp_all
      then show "0 < n \<and> ?R 0 cs" unfolding segment_ok_def [of t] by blast
    next
      assume "0 < n \<and> ?R 0 cs"
      then obtain s segs where "0 < n" "cs = s @ join_path segs" "list_all segment_char s" "s \<noteq> []"
        "list_all segment_ok segs" by blast
      with sl show "?R n (c # cs)"
        by (intro exI [of _ "[] :: string"] exI [of _ "s # segs"]) (auto simp: segment_ok_def [of s])
    qed
    with sl Cons.IH [of 0] show ?thesis by auto
  next
    case bad
    have False if "c # cs = s @ join_path segs" "list_all segment_char s" for s segs
      using that bad by (cases s; cases segs) auto
    then have "\<not> ?R n (c # cs)" by blast
    with bad show ?thesis by (simp add: scan_path_Cons_bad)
  qed
qed

text \<open>The constructor accepts exactly the joined non-empty lists of non-empty segments.\<close>

lemma address_new_Inr_iff:
  "address_new p = Inr a \<longleftrightarrow> a = Address p \<and> (\<exists>segs. valid_segments segs \<and> p = join_path segs)"
proof (cases p)
  case Nil
  then show ?thesis by (auto simp: address_new_def valid_segments_def)
next
  case (Cons c cs)
  have "address_new p = Inr a \<longleftrightarrow> c = slash \<and> (\<exists>m > 0. scan_path 0 cs = Inr m) \<and> a = Address p"
    using Cons by (auto simp: address_new_def)
  also have "\<dots> \<longleftrightarrow> a = Address p \<and> (\<exists>s segs. p = join_path (s # segs) \<and> valid_segments (s # segs))"
    unfolding scan_path_ok_iff using Cons by (auto simp: valid_segments_def segment_ok_def)
  also have "\<dots> \<longleftrightarrow> a = Address p \<and> (\<exists>segs. valid_segments segs \<and> p = join_path segs)"
    by (metis neq_Nil_conv valid_segments_def)
  finally show ?thesis .
qed

lemma valid_address_iff:
  "valid_address a \<longleftrightarrow> (\<exists>segs. valid_segments segs \<and> a = Address (join_path segs))"
  by (cases a) (auto simp: valid_address_def is_ok_iff address_new_Inr_iff)

lemma valid_segments_append:
  "valid_segments (xs @ ys) \<longleftrightarrow> xs @ ys \<noteq> [] \<and> list_all segment_ok xs \<and> list_all segment_ok ys"
  by (auto simp: valid_segments_def)

section \<open>Ancestors and parents on segments\<close>

lemma ancestor_next_join:
  assumes "list_all segment_ok segs" "segment_ok s"
  shows "ancestor_next (Address (join_path (segs @ [s]))) =
    (if segs = [] then Some (None, Address (join_path [s]))
     else Some (Some (Address (join_path segs)), Address (join_path segs)))"
proof -
  have ns: "slash \<notin> set s" using assms(2) by (auto simp: segment_ok_def dest: segment_no_slash)
  have "position slash (rev (join_path (segs @ [s]))) = Some (length s)"
    using ns by (simp add: position_append_notin [of slash "rev s", simplified])
  moreover have "utf8_len (join_path (segs @ [s])) = length (join_path segs) + Suc (length s)"
    using utf8_len_join_path [of "segs @ [s]"] assms by simp
  ultimately show ?thesis by (auto simp: ancestor_next_def Let_def)
qed

lemma ancestors_join:
  "valid_segments segs \<Longrightarrow>
   ancestors (Address (join_path segs)) =
     Some (map (\<lambda>k. Address (join_path (take k segs))) (rev [1..<length segs]))"
proof (induction segs rule: rev_induct)
  case Nil
  then show ?case by (simp add: valid_segments_def)
next
  case (snoc s segs)
  then have ok: "list_all segment_ok segs" "segment_ok s" by (simp_all add: valid_segments_def)
  show ?case
  proof (cases "segs = []")
    case True
    with ok show ?thesis
      using ancestor_next_join [of "[]" s] by (simp add: ancestors.simps)
  next
    case False
    with ok have "valid_segments segs" by (simp add: valid_segments_def)
    note IH = snoc.IH [OF this]
    have take_eq: "take k (segs @ [s]) = take k segs" if "k \<in> set (rev [1..<length segs])" for k
      using that by simp
    have "rev [1..<length (segs @ [s])] = length segs # rev [1..<length segs]"
      using False by (simp add: Suc_le_eq)
    moreover have "ancestors (Address (join_path (segs @ [s]))) =
      Some (Address (join_path segs) #
        map (\<lambda>k. Address (join_path (take k segs))) (rev [1..<length segs]))"
      using ancestor_next_join [OF ok] False IH by (subst ancestors.simps) simp
    ultimately show ?thesis by simp
  qed
qed

lemma slash_split:
  assumes "slash \<notin> set a" "slash \<notin> set b" "a @ slash # x = b @ y" "y = [] \<or> hd y = slash"
  shows "a = b \<and> y = slash # x"
  using assms
proof (induction a arbitrary: b)
  case Nil
  then show ?case by (cases b) auto
next
  case (Cons c a)
  then show ?case by (cases b) (auto simp: hd_append split: if_splits)
qed

lemma join_path_hd: "join_path segs = [] \<or> hd (join_path segs) = slash"
  by (cases segs) simp_all

lemma join_path_prefix:
  assumes "list_all segment_ok p" "list_all segment_ok q" "join_path p @ slash # x = join_path q"
  shows "\<exists>r. r \<noteq> [] \<and> q = p @ r \<and> join_path r = slash # x"
  using assms
proof (induction p arbitrary: q)
  case Nil
  then show ?case by (intro exI [of _ q]) auto
next
  case (Cons a p)
  then obtain b q' where q: "q = b # q'" by (cases q) auto
  have a: "slash \<notin> set a" and b: "slash \<notin> set b"
    using Cons.prems q by (auto simp: segment_ok_def dest: segment_no_slash)
  obtain z where z: "join_path p @ slash # x = slash # z" by (cases p) auto
  have "a @ slash # z = b @ join_path q'" using Cons.prems(3) q z by simp
  from slash_split [OF a b this join_path_hd] have "a = b" "join_path q' = slash # z" by auto
  with Cons z q show ?case by simp
qed

lemma is_parent_of_join:
  assumes "valid_segments p" "valid_segments q"
  shows "is_parent_of (Address (join_path p)) (Address (join_path q)) \<longleftrightarrow> (\<exists>r. r \<noteq> [] \<and> q = p @ r)"
proof
  assume "is_parent_of (Address (join_path p)) (Address (join_path q))"
  then have "join_path p @ slash # drop (Suc (length (join_path p))) (join_path q) = join_path q"
    by (simp add: is_parent_of_def starts_with_def) (metis append_take_drop_id append.assoc append_Cons append_Nil)
  with join_path_prefix assms show "\<exists>r. r \<noteq> [] \<and> q = p @ r"
    unfolding valid_segments_def by blast
next
  assume "\<exists>r. r \<noteq> [] \<and> q = p @ r"
  then obtain s r where "q = p @ s # r" by (metis neq_Nil_conv)
  then show "is_parent_of (Address (join_path p)) (Address (join_path q))"
    by (simp add: is_parent_of_def starts_with_def)
qed

lemma join_path_inject:
  assumes "list_all segment_ok p" "list_all segment_ok q" "join_path p = join_path q"
  shows "p = q"
proof (cases q rule: rev_cases)
  case Nil
  with assms show ?thesis by simp
next
  case (snoc q' s)
  have "join_path p @ slash # s = join_path (q @ [s])" using assms(3) by simp
  moreover have "list_all segment_ok (q @ [s])" using assms(2) snoc by simp
  ultimately obtain r where r: "r \<noteq> []" "q @ [s] = p @ r" "join_path r = slash # s"
    using join_path_prefix assms(1) by metis
  have "length r = 1"
  proof (rule ccontr)
    assume "length r \<noteq> 1"
    with r(1) obtain t u v where "r = t # u # v" by (cases r; cases "tl r") auto
    with r(3) have "slash \<in> set s" by auto
    moreover have "slash \<notin> set s" using assms(2) snoc by (auto simp: segment_ok_def dest: segment_no_slash)
    ultimately show False by blast
  qed
  with r(2) show ?thesis by (cases r) auto
qed

lemma valid_ancestors:
  assumes "valid_address a"
  obtains as where "ancestors a = Some as" "\<And>b. b \<in> set as \<Longrightarrow> valid_address b"
proof -
  from assms obtain segs where segs: "valid_segments segs" "a = Address (join_path segs)"
    by (auto simp: valid_address_iff)
  have "valid_address (Address (join_path (take k segs)))" if "k \<in> {1..<length segs}" for k
  proof -
    have "valid_segments (take k segs)"
      using segs(1) that by (auto simp: valid_segments_def list_all_iff dest: in_set_takeD)
    then show ?thesis by (auto simp: valid_address_iff)
  qed
  note valid = this
  show thesis
  proof (rule that)
    show "ancestors a = Some (map (\<lambda>k. Address (join_path (take k segs))) (rev [1..<length segs]))"
      using ancestors_join [OF segs(1)] segs(2) by simp
  next
    fix b
    assume "b \<in> set (map (\<lambda>k. Address (join_path (take k segs))) (rev [1..<length segs]))"
    then show "valid_address b" using valid by auto
  qed
qed

section \<open>Properties\<close>

text \<open>\<open>Address::new\<close> accepts a string exactly when it is a non-empty sequence of segments, each
  introduced by a slash and made of one or more allowed characters, and it then keeps the string
  unchanged; so the documented format is enforced in both directions.\<close>

lemma address_new_iff_segments:
  "(\<exists>a. address_new p = Inr a) \<longleftrightarrow> (\<exists>segs. valid_segments segs \<and> p = join_path segs)"
  using address_new_Inr_iff by blast

text \<open>On a constructed address the ancestor iterator terminates without panicking and yields
  exactly the proper prefixes of the segment list, from the nearest parent up to the root.\<close>

lemma ancestors_refines_prefixes:
  assumes "valid_segments segs"
  shows "ancestors (Address (join_path segs)) =
     Some (map (\<lambda>k. Address (join_path (take k segs))) (rev [1..<length segs]))"
  using assms by (rule ancestors_join)

lemma ancestors_refines_prefixes_example:
  "ancestors (Address ''/token/usda/w1'') = Some [Address ''/token/usda'', Address ''/token'']"
proof -
  have "valid_segments [''token'', ''usda'', ''w1'']"
    by (simp add: valid_segments_def segment_ok_def segment_char_def is_ascii_alphanumeric_def)
  from ancestors_refines_prefixes [OF this] show ?thesis by (simp add: upt_rec)
qed

text \<open>The two notions of hierarchy agree: among constructed addresses, \<open>b\<close> is yielded by
  \<open>a.ancestors()\<close> exactly when \<open>b.is_parent_of(a)\<close>.\<close>

lemma ancestors_iff_is_parent_of:
  assumes "valid_address a" "valid_address b" "ancestors a = Some as"
  shows "b \<in> set as \<longleftrightarrow> is_parent_of b a"
proof -
  from assms obtain p q where p: "valid_segments p" "a = Address (join_path p)"
    and q: "valid_segments q" "b = Address (join_path q)" by (auto simp: valid_address_iff)
  have "b \<in> set as \<longleftrightarrow> (\<exists>k \<in> {1..<length p}. join_path q = join_path (take k p))"
    using ancestors_join [OF p(1)] assms(3) p(2) q(2) by auto
  also have "\<dots> \<longleftrightarrow> (\<exists>k \<in> {1..<length p}. q = take k p)"
  proof (rule bex_cong [OF refl])
    fix k
    have "list_all segment_ok (take k p)"
      using p(1) by (auto simp: valid_segments_def list_all_iff dest: in_set_takeD)
    then show "join_path q = join_path (take k p) \<longleftrightarrow> q = take k p"
      using join_path_inject q(1) by (auto simp: valid_segments_def)
  qed
  also have "\<dots> \<longleftrightarrow> (\<exists>r. r \<noteq> [] \<and> p = q @ r)"
  proof
    assume "\<exists>k \<in> {1..<length p}. q = take k p"
    then obtain k where "k < length p" "q = take k p" by auto
    then show "\<exists>r. r \<noteq> [] \<and> p = q @ r" by (intro exI [of _ "drop k p"]) simp
  next
    assume "\<exists>r. r \<noteq> [] \<and> p = q @ r"
    with q(1) show "\<exists>k \<in> {1..<length p}. q = take k p"
      by (auto simp: valid_segments_def Suc_le_eq intro!: bexI [of _ "length q"])
  qed
  also have "\<dots> \<longleftrightarrow> is_parent_of b a" using is_parent_of_join [OF q(1) p(1)] p(2) q(2) by simp
  finally show ?thesis .
qed

lemma ancestors_iff_is_parent_of_example:
  "Address ''/a'' \<in> set [Address ''/a''] \<longleftrightarrow> is_parent_of (Address ''/a'') (Address ''/a/b'')"
proof -
  have a: "valid_address (Address ''/a'')" and b: "valid_address (Address ''/a/b'')" by code_simp+
  have "valid_segments [''a'', ''b'']"
    by (simp add: valid_segments_def segment_ok_def segment_char_def is_ascii_alphanumeric_def)
  from ancestors_join [OF this] have "ancestors (Address ''/a/b'') = Some [Address ''/a'']"
    by (simp add: upt_rec)
  from ancestors_iff_is_parent_of [OF b a this] show ?thesis .
qed

text \<open>\<open>combine\<close> appends one valid segment to a constructed address, and the receiver is then a
  parent of the result.\<close>

lemma combine_segment:
  assumes "valid_segments segs" "segment_ok s"
  shows "combine (Address (join_path segs)) s = Inr (Address (join_path (segs @ [s])))
    \<and> is_parent_of (Address (join_path segs)) (Address (join_path (segs @ [s])))"
proof -
  have v: "valid_segments (segs @ [s])" using assms by (simp add: valid_segments_def)
  then have "combine (Address (join_path segs)) s = Inr (Address (join_path (segs @ [s])))"
    by (auto simp: combine_def address_new_Inr_iff intro!: exI [of _ "segs @ [s]"])
  moreover have "is_parent_of (Address (join_path segs)) (Address (join_path (segs @ [s])))"
    using is_parent_of_join [OF assms(1) v] by blast
  ultimately show ?thesis by simp
qed

lemma combine_segment_example:
  "combine (Address ''/token'') ''usda'' = Inr (Address ''/token/usda'')"
proof -
  have "valid_segments [''token'']" "segment_ok ''usda''"
    by (simp_all add: valid_segments_def segment_ok_def segment_char_def is_ascii_alphanumeric_def)
  from combine_segment [OF this] show ?thesis by simp
qed

text \<open>A value that bypassed the constructor can break the iterator: \<open>Deserialize\<close> is derived for
  the newtype, and on a path without a slash the first call of \<open>next\<close> panics; every other path
  gets an answer from that call.\<close>

lemma ancestor_next_panics_iff: "ancestor_next a = None \<longleftrightarrow> slash \<notin> set (path a)"
  using position_None_iff [of slash "rev (path a)"]
  by (auto simp: ancestor_next_def Let_def split: option.splits)

end
