(* ===== verification/Predicates.thy ===== *)
theory Predicates
  imports Addresses
begin

text \<open>
  Predicates, predicate trees, accounts and account changes: \<open>primitives/src/predicate.rs\<close>,
  \<open>account.rs\<close> and the change types of \<open>transaction.rs\<close>.  The trait parameter \<open>Repr\<close> that selects
  the stored or the expanded form of a predicate is the pair of type variables of the record
  \<open>predicate\<close>.  The four traversals of \<open>ExpressionTree\<close> are translated one by one and related to
  the list of leaves in the order they are visited.
\<close>

section \<open>Data\<close>

type_synonym multihash = bytes
type_synonym calldata = "(string, bytes) btree_map"

datatype param =
    ParamInline bytes
  | ParamAccountRef address
  | ParamProposalRef address
  | ParamCalldataRef string

datatype code =
    CodeInline bytes
  | CodeAccountRef address string

record ('c, 'p) predicate =
  pred_code :: 'c
  pred_params :: "'p list"

datatype 'a expression_tree =
    TId 'a
  | TNot "'a expression_tree"
  | TAnd "'a expression_tree" "'a expression_tree"
  | TOr "'a expression_tree" "'a expression_tree"

type_synonym basic_predicate = "(code, param) predicate"
type_synonym predicate_tree = "basic_predicate expression_tree"

record account =
  acc_state :: bytes
  acc_predicates :: predicate_tree

datatype account_change =
    CreateAccount account
  | ReplaceState bytes
  | ReplacePredicates predicate_tree
  | DeleteAccount

datatype expanded_account_change =
    XCreateAccount account
  | XReplaceState (current_state: bytes) (proposed_state: bytes)
  | XReplacePredicates (current_predicates: predicate_tree) (proposed_predicates: predicate_tree)
  | XDeleteAccount (current_account: account)

datatype expanded_param =
    XInline bytes
  | XAccountRef address bytes
  | XProposalRef address expanded_account_change
  | XCalldataRef string bytes

fun expanded_param_data :: "expanded_param \<Rightarrow> bytes" where
  "expanded_param_data (XInline v) = v"
| "expanded_param_data (XAccountRef _ v) = v"
| "expanded_param_data (XProposalRef _ ac) =
     (case ac of
        XCreateAccount acc \<Rightarrow> acc_state acc
      | XReplaceState _ proposed \<Rightarrow> proposed
      | XReplacePredicates _ _ \<Rightarrow> []
      | XDeleteAccount _ \<Rightarrow> [])"
| "expanded_param_data (XCalldataRef _ v) = v"

record expanded_code =
  xcode :: bytes
  entrypoint :: string

type_synonym expanded_predicate = "(expanded_code, expanded_param) predicate"
type_synonym expanded_tree = "expanded_predicate expression_tree"

record predicate_context =
  ctx_calldata :: "(multihash, calldata) btree_map"
  ctx_proposals :: "(address, expanded_account_change) btree_map"

section \<open>Traversals of the expression tree\<close>

fun tree_map :: "('a \<Rightarrow> 'b) \<Rightarrow> 'a expression_tree \<Rightarrow> 'b expression_tree" where
  "tree_map f (TId p) = TId (f p)"
| "tree_map f (TNot t) = TNot (tree_map f t)"
| "tree_map f (TAnd l r) = TAnd (tree_map f l) (tree_map f r)"
| "tree_map f (TOr l r) = TOr (tree_map f l) (tree_map f r)"

fun tree_try_map :: "('a \<Rightarrow> 'e + 'b) \<Rightarrow> 'a expression_tree \<Rightarrow> 'e + 'b expression_tree" where
  "tree_try_map f (TId p) = bind_res (f p) (\<lambda>q. Inr (TId q))"
| "tree_try_map f (TNot t) = bind_res (tree_try_map f t) (\<lambda>t'. Inr (TNot t'))"
| "tree_try_map f (TAnd l r) =
     bind_res (tree_try_map f l) (\<lambda>l'. bind_res (tree_try_map f r) (\<lambda>r'. Inr (TAnd l' r')))"
| "tree_try_map f (TOr l r) =
     bind_res (tree_try_map f l) (\<lambda>l'. bind_res (tree_try_map f r) (\<lambda>r'. Inr (TOr l' r')))"

text \<open>\<open>for_each\<close> takes a closure that may mutate what it captures: the state is passed along.\<close>

fun tree_for_each :: "('a \<Rightarrow> 's \<Rightarrow> 's) \<Rightarrow> 'a expression_tree \<Rightarrow> 's \<Rightarrow> 's" where
  "tree_for_each f (TId p) s = f p s"
| "tree_for_each f (TNot t) s = tree_for_each f t s"
| "tree_for_each f (TAnd l r) s = tree_for_each f r (tree_for_each f l s)"
| "tree_for_each f (TOr l r) s = tree_for_each f r (tree_for_each f l s)"

fun tree_reduce ::
  "('a \<Rightarrow> 'r) \<Rightarrow> ('r \<Rightarrow> 'r) \<Rightarrow> ('r \<Rightarrow> 'r \<Rightarrow> 'r) \<Rightarrow> ('r \<Rightarrow> 'r \<Rightarrow> 'r) \<Rightarrow> 'a expression_tree \<Rightarrow> 'r"
where
  "tree_reduce id' not' and' or' (TId v) = id' v"
| "tree_reduce id' not' and' or' (TNot t) = not' (tree_reduce id' not' and' or' t)"
| "tree_reduce id' not' and' or' (TAnd t1 t2) =
     and' (tree_reduce id' not' and' or' t1) (tree_reduce id' not' and' or' t2)"
| "tree_reduce id' not' and' or' (TOr t1 t2) =
     or' (tree_reduce id' not' and' or' t1) (tree_reduce id' not' and' or' t2)"

section \<open>Leaves, truth and shape\<close>

fun tree_leaves :: "'a expression_tree \<Rightarrow> 'a list" where
  "tree_leaves (TId p) = [p]"
| "tree_leaves (TNot t) = tree_leaves t"
| "tree_leaves (TAnd l r) = tree_leaves l @ tree_leaves r"
| "tree_leaves (TOr l r) = tree_leaves l @ tree_leaves r"

text \<open>The truth value a tree denotes when every leaf has one.\<close>

definition tree_holds :: "('a \<Rightarrow> bool) \<Rightarrow> 'a expression_tree \<Rightarrow> bool" where
  "tree_holds v t = tree_reduce v Not (\<and>) (\<or>) t"

fun negation_free :: "'a expression_tree \<Rightarrow> bool" where
  "negation_free (TId p) = True"
| "negation_free (TNot t) = False"
| "negation_free (TAnd l r) = (negation_free l \<and> negation_free r)"
| "negation_free (TOr l r) = (negation_free l \<and> negation_free r)"

lemma tree_holds_simps [simp]:
  "tree_holds v (TId p) = v p"
  "tree_holds v (TNot t) = (\<not> tree_holds v t)"
  "tree_holds v (TAnd l r) = (tree_holds v l \<and> tree_holds v r)"
  "tree_holds v (TOr l r) = (tree_holds v l \<or> tree_holds v r)"
  by (simp_all add: tree_holds_def)

lemma tree_leaves_nonempty [simp]: "tree_leaves t \<noteq> []"
  by (induction t) auto

lemma tree_leaves_map [simp]: "tree_leaves (tree_map f t) = map f (tree_leaves t)"
  by (induction t) auto

lemma tree_map_cong: "(\<And>p. p \<in> set (tree_leaves t) \<Longrightarrow> f p = g p) \<Longrightarrow> tree_map f t = tree_map g t"
  by (induction t) auto

lemma tree_map_map [simp]: "tree_map f (tree_map g t) = tree_map (\<lambda>p. f (g p)) t"
  by (induction t) auto

lemma tree_map_ident [simp]: "tree_map (\<lambda>p. p) t = t"
  by (induction t) auto

lemma tree_reduce_map [simp]: "tree_reduce i n a o' (tree_map f t) = tree_reduce (\<lambda>p. i (f p)) n a o' t"
  by (induction t) auto

lemma tree_reduce_cong:
  "(\<And>p. p \<in> set (tree_leaves t) \<Longrightarrow> i p = j p) \<Longrightarrow> tree_reduce i n a o' t = tree_reduce j n a o' t"
  by (induction t) auto

lemma tree_holds_cong:
  "(\<And>p. p \<in> set (tree_leaves t) \<Longrightarrow> v p = w p) \<Longrightarrow> tree_holds v t = tree_holds w t"
  by (simp add: tree_holds_def cong: tree_reduce_cong)

lemma tree_for_each_fold: "tree_for_each f t s = fold f (tree_leaves t) s"
  by (induction t arbitrary: s) auto

text \<open>\<open>try_map\<close> succeeds exactly when the closure succeeds on every leaf, keeping the shape, and
  otherwise reports the first error from left to right.\<close>

lemma tree_try_map_as_list:
  "(case tree_try_map f t of Inl e \<Rightarrow> Inl e | Inr t' \<Rightarrow> Inr (tree_leaves t')) = try_list f (tree_leaves t)"
proof (induction t)
  case (TId p)
  then show ?case by (cases "f p") auto
next
  case (TNot t)
  then show ?case by (cases "tree_try_map f t") auto
next
  case (TAnd l r)
  then show ?case
    by (cases "tree_try_map f l"; cases "tree_try_map f r")
      (auto simp: try_list_append bind_res_def split: sum.splits)
next
  case (TOr l r)
  then show ?case
    by (cases "tree_try_map f l"; cases "tree_try_map f r")
      (auto simp: try_list_append bind_res_def split: sum.splits)
qed

lemma tree_try_map_Inr_iff:
  "tree_try_map f t = Inr t' \<longleftrightarrow>
     (\<forall>p \<in> set (tree_leaves t). is_ok (f p)) \<and> t' = tree_map (\<lambda>p. projr (f p)) t"
proof (induction t arbitrary: t')
  case (TId p)
  then show ?case by (cases "f p") auto
next
  case (TNot t)
  then show ?case by auto
next
  case (TAnd l r)
  then show ?case by auto
next
  case (TOr l r)
  then show ?case by auto
qed

end
