(* ===== verification/Transactions.thy ===== *)
theory Transactions
  imports Predicates
begin

text \<open>
  Intents, transactions and blocks: \<open>primitives/src/intent.rs\<close>, \<open>transaction.rs\<close> and \<open>block.rs\<close>.
  Each carries a \<open>OnceCell\<close> that memoises its hash; \<open>get_or_init\<close> writes it behind a shared
  reference, so every hashing function returns the object with its cache filled.  The cache is
  skipped by serde, so it is absent from the bytes that are hashed or sent and empty in a value
  that was received.  The digest and the MessagePack encoder belong to other crates and are the
  fields of the parameter \<open>hash_env\<close>.
\<close>

record intent =
  recent_blockhash :: multihash
  expectations :: predicate_tree
  intent_calldata :: calldata
  intent_cache :: "multihash option"

record transaction =
  tx_intents :: "intent list"
  tx_proposals :: "(address, account_change) btree_map"
  tx_cache :: "multihash option"

record block =
  height :: u64
  parent :: multihash
  block_transactions :: "transaction list"
  block_cache :: "multihash option"

type_synonym intent_wire = "multihash \<times> predicate_tree \<times> calldata"
type_synonym transaction_wire = "intent_wire list \<times> (address, account_change) btree_map"
type_synonym block_wire = "u64 \<times> multihash \<times> transaction_wire list"

record hash_env =
  sha3_256 :: "bytes \<Rightarrow> multihash"
  to_vec_multihash :: "multihash \<Rightarrow> bytes"
  to_vec_tree :: "predicate_tree \<Rightarrow> bytes"
  to_vec_intent :: "intent_wire \<Rightarrow> bytes"
  to_vec_transaction :: "transaction_wire \<Rightarrow> bytes"
  to_vec_block :: "block_wire \<Rightarrow> bytes"

section \<open>What serde sees\<close>

definition intent_to_wire :: "intent \<Rightarrow> intent_wire" where
  "intent_to_wire i = (recent_blockhash i, expectations i, intent_calldata i)"

definition intent_from_wire :: "intent_wire \<Rightarrow> intent" where
  "intent_from_wire w = (case w of (b, e, c) \<Rightarrow>
     \<lparr>recent_blockhash = b, expectations = e, intent_calldata = c, intent_cache = None\<rparr>)"

definition transaction_to_wire :: "transaction \<Rightarrow> transaction_wire" where
  "transaction_to_wire t = (map intent_to_wire (tx_intents t), tx_proposals t)"

definition transaction_from_wire :: "transaction_wire \<Rightarrow> transaction" where
  "transaction_from_wire w =
     \<lparr>tx_intents = map intent_from_wire (fst w), tx_proposals = snd w, tx_cache = None\<rparr>"

definition block_to_wire :: "block \<Rightarrow> block_wire" where
  "block_to_wire b = (height b, parent b, map transaction_to_wire (block_transactions b))"

definition block_from_wire :: "block_wire \<Rightarrow> block" where
  "block_from_wire w = (case w of (h, p, ts) \<Rightarrow>
     \<lparr>height = h, parent = p, block_transactions = map transaction_from_wire ts, block_cache = None\<rparr>)"

section \<open>Intents\<close>

definition intent_new :: "multihash \<Rightarrow> predicate_tree \<Rightarrow> intent" where
  "intent_new blockhash exps =
     \<lparr>recent_blockhash = blockhash, expectations = exps, intent_calldata = [], intent_cache = None\<rparr>"

definition intent_with_calldata :: "multihash \<Rightarrow> predicate_tree \<Rightarrow> calldata \<Rightarrow> intent" where
  "intent_with_calldata blockhash exps data =
     \<lparr>recent_blockhash = blockhash, expectations = exps, intent_calldata = data, intent_cache = None\<rparr>"

definition get_or_init :: "'h option \<Rightarrow> 'h \<Rightarrow> 'h" where
  "get_or_init cell v = (case cell of None \<Rightarrow> v | Some h \<Rightarrow> h)"

definition intent_hash :: "hash_env \<Rightarrow> intent \<Rightarrow> multihash \<times> intent" where
  "intent_hash env i =
     (let h = get_or_init (intent_cache i) (sha3_256 env (to_vec_intent env (intent_to_wire i)))
      in (h, i\<lparr>intent_cache := Some h\<rparr>))"

definition signing_hash :: "hash_env \<Rightarrow> intent \<Rightarrow> multihash \<times> intent" where
  "signing_hash env i =
     (let h = get_or_init (intent_cache i)
        (sha3_256 env (to_vec_multihash env (recent_blockhash i) @ to_vec_tree env (expectations i)))
      in (h, i\<lparr>intent_cache := Some h\<rparr>))"

section \<open>Transactions and blocks\<close>

definition transaction_new :: "intent list \<Rightarrow> (address, account_change) btree_map \<Rightarrow> transaction" where
  "transaction_new is ps = \<lparr>tx_intents = is, tx_proposals = ps, tx_cache = None\<rparr>"

definition transaction_hash :: "hash_env \<Rightarrow> transaction \<Rightarrow> multihash \<times> transaction" where
  "transaction_hash env t =
     (let h = get_or_init (tx_cache t) (sha3_256 env (to_vec_transaction env (transaction_to_wire t)))
      in (h, t\<lparr>tx_cache := Some h\<rparr>))"

text \<open>\<open>PartialEq\<close> of transactions compares hashes.\<close>

definition transaction_eq :: "hash_env \<Rightarrow> transaction \<Rightarrow> transaction \<Rightarrow> bool" where
  "transaction_eq env t u = (fst (transaction_hash env t) = fst (transaction_hash env u))"

definition block_hash :: "hash_env \<Rightarrow> block \<Rightarrow> multihash \<times> block" where
  "block_hash env b =
     (let h = get_or_init (block_cache b) (sha3_256 env (to_vec_block env (block_to_wire b)))
      in (h, b\<lparr>block_cache := Some h\<rparr>))"

text \<open>\<open>Block::new\<close>; \<open>height\<close> is a \<open>u64\<close>, whose \<open>+ 1\<close> wraps in the release profile.\<close>

definition block_new :: "hash_env \<Rightarrow> block \<Rightarrow> transaction list \<Rightarrow> block" where
  "block_new env par ts =
     \<lparr>height = height par + 1, parent = fst (block_hash env par), block_transactions = ts,
      block_cache = None\<rparr>"

definition block_zero :: "multihash \<Rightarrow> block" where
  "block_zero default_multihash =
     \<lparr>height = 0, parent = default_multihash, block_transactions = [], block_cache = None\<rparr>"

section \<open>Lemmas\<close>

lemma get_or_init_simps [simp]: "get_or_init None v = v" "get_or_init (Some h) v = h"
  by (simp_all add: get_or_init_def)

lemma intent_wire_roundtrip [simp]: "intent_to_wire (intent_from_wire w) = w"
  by (cases w) (simp add: intent_to_wire_def intent_from_wire_def)

lemma intent_to_wire_cache [simp]: "intent_to_wire (i\<lparr>intent_cache := c\<rparr>) = intent_to_wire i"
  by (simp add: intent_to_wire_def)

lemma transaction_wire_roundtrip [simp]: "transaction_to_wire (transaction_from_wire w) = w"
  by (simp add: transaction_to_wire_def transaction_from_wire_def comp_def)

lemma block_wire_roundtrip [simp]: "block_to_wire (block_from_wire w) = w"
  by (cases w) (simp add: block_to_wire_def block_from_wire_def comp_def)

lemma block_to_wire_cache [simp]: "block_to_wire (b\<lparr>block_cache := c\<rparr>) = block_to_wire b"
  by (simp add: block_to_wire_def)

lemma block_hash_stable [simp]:
  "block_hash env (snd (block_hash env b)) = block_hash env b"
  by (simp add: block_hash_def Let_def)

section \<open>Properties\<close>

text \<open>\<open>hash\<close> and \<open>signing_hash\<close> of an intent share one cache, so on a fresh intent the first of
  the two to be called decides what both return from then on: after signing, \<open>hash()\<close> returns the
  signing hash, while a receiver of the same intent (whose cache is empty) computes the digest of
  the whole intent.\<close>

lemma intent_hash_after_signing:
  assumes "intent_cache i = None"
  shows "fst (intent_hash env (snd (signing_hash env i))) = fst (signing_hash env i)
    \<and> fst (intent_hash env (intent_from_wire (intent_to_wire (snd (signing_hash env i)))))
        = sha3_256 env (to_vec_intent env (intent_to_wire i))
    \<and> fst (signing_hash env (snd (intent_hash env i))) = fst (intent_hash env i)"
  using assms
  by (simp add: intent_hash_def signing_hash_def Let_def intent_from_wire_def intent_to_wire_def)

definition sample_env :: hash_env where
  "sample_env = \<lparr>sha3_256 = (\<lambda>b. 22 # 32 # b), to_vec_multihash = (\<lambda>h. h), to_vec_tree = (\<lambda>_. [1]),
     to_vec_intent = (\<lambda>(h, _, c). h @ 1 # concat (map snd c)), to_vec_transaction = (\<lambda>w. [of_nat (length (fst w))]),
     to_vec_block = (\<lambda>w. case w of (h, p, _) \<Rightarrow> ucast h # p)\<rparr>"

definition sample_intent :: intent where
  "sample_intent = intent_with_calldata [7] (TId \<lparr>pred_code = CodeInline [], pred_params = []\<rparr>)
     [(''sig'', [9])]"

lemma intent_hash_after_signing_example:
  "fst (intent_hash sample_env (snd (signing_hash sample_env sample_intent))) = [22, 32, 7, 1]
   \<and> fst (intent_hash sample_env (intent_from_wire (intent_to_wire (snd (signing_hash sample_env sample_intent)))))
       = [22, 32, 7, 1, 9]"
proof -
  have "intent_cache sample_intent = None"
    by (simp add: sample_intent_def intent_with_calldata_def)
  from intent_hash_after_signing [OF this, of sample_env] show ?thesis
    by (simp add: sample_env_def sample_intent_def intent_with_calldata_def signing_hash_def
        intent_to_wire_def Let_def)
qed

text \<open>Hashes survive the wire: for a transaction and a block whose caches are empty or hold their
  own digest, the sender and the receiver of the encoded value compute the same hash, and hashing
  again returns the same value.\<close>

lemma hash_survives_wire:
  assumes "tx_cache t = None \<or> tx_cache t = Some (sha3_256 env (to_vec_transaction env (transaction_to_wire t)))"
    and "block_cache b = None \<or> block_cache b = Some (sha3_256 env (to_vec_block env (block_to_wire b)))"
  shows "fst (transaction_hash env (transaction_from_wire (transaction_to_wire t))) = fst (transaction_hash env t)
    \<and> fst (block_hash env (block_from_wire (block_to_wire b))) = fst (block_hash env b)
    \<and> transaction_eq env t (transaction_from_wire (transaction_to_wire t))"
proof -
  have t: "fst (transaction_hash env t) = sha3_256 env (to_vec_transaction env (transaction_to_wire t))"
    using assms(1) by (auto simp: transaction_hash_def Let_def)
  have b: "fst (block_hash env b) = sha3_256 env (to_vec_block env (block_to_wire b))"
    using assms(2) by (auto simp: block_hash_def Let_def)
  have "tx_cache (transaction_from_wire w) = None" "block_cache (block_from_wire w') = None" for w w'
    by (auto simp: transaction_from_wire_def block_from_wire_def split: prod.splits)
  with t b show ?thesis by (simp add: transaction_eq_def transaction_hash_def block_hash_def Let_def)
qed

lemma hash_survives_wire_example:
  "fst (block_hash sample_env (block_from_wire (block_to_wire (block_zero [0])))) = fst (block_hash sample_env (block_zero [0]))"
proof -
  have "tx_cache (transaction_new [] []) = None" "block_cache (block_zero [0]) = None"
    by (simp_all add: transaction_new_def block_zero_def)
  then show ?thesis
    using hash_survives_wire [of "transaction_new [] []" sample_env "block_zero [0]"] by blast
qed

end
