(* ===== verification/VmState.thy ===== *)
theory VmState
  imports Transactions
begin

text \<open>
  State diffs and state stores: \<open>vm/src/state.rs\<close>.  The trait \<open>State\<close> is the locale
  \<open>state_store\<close>, with the lookup law its documentation implies; \<open>StateDiff\<close> and
  \<open>InMemoryStateStore\<close> are its two implementations that can be written to, and the lemmas that
  follow from the law alone (in particular that a merged diff acts like the diffs applied one
  after the other) are proved once for both.  \<open>Overlayed\<close> is the read-only view the scheduler
  reads through.
\<close>

record state_diff =
  upserts :: "(address, account) btree_map"
  deletes :: "address btree_set"

definition diff_default :: state_diff where
  "diff_default = \<lparr>upserts = [], deletes = []\<rparr>"

definition diff_set :: "state_diff \<Rightarrow> address \<Rightarrow> account \<Rightarrow> account option \<times> state_diff" where
  "diff_set d a acc =
     (bt_get (upserts d) a,
      d\<lparr>deletes := bt_remove a (deletes d), upserts := bt_insert a acc (upserts d)\<rparr>)"

definition diff_remove :: "state_diff \<Rightarrow> address \<Rightarrow> account option \<times> state_diff" where
  "diff_remove d a =
     (bt_get (upserts d) a,
      d\<lparr>deletes := bt_insert a () (deletes d), upserts := bt_remove a (upserts d)\<rparr>)"

text \<open>\<open>merge\<close>: one loop over the newer upserts, then one over the newer deletes.\<close>

definition merge_upsert :: "state_diff \<Rightarrow> address \<times> account \<Rightarrow> state_diff" where
  "merge_upsert d e =
     d\<lparr>deletes := bt_remove (fst e) (deletes d), upserts := bt_insert (fst e) (snd e) (upserts d)\<rparr>"

definition merge_delete :: "state_diff \<Rightarrow> address \<times> unit \<Rightarrow> state_diff" where
  "merge_delete d e =
     d\<lparr>upserts := bt_remove (fst e) (upserts d), deletes := bt_insert (fst e) () (deletes d)\<rparr>"

definition diff_merge :: "state_diff \<Rightarrow> state_diff \<Rightarrow> state_diff" where
  "diff_merge older newer =
     foldl merge_delete (foldl merge_upsert older (upserts newer)) (deletes newer)"

definition diff_iter :: "state_diff \<Rightarrow> (address \<times> account option) list" where
  "diff_iter d = map (\<lambda>(a, acc). (a, Some acc)) (upserts d) @ map (\<lambda>(a, _). (a, None)) (deletes d)"

text \<open>\<open>impl State for StateDiff\<close>\<close>

definition diff_get :: "state_diff \<Rightarrow> address \<Rightarrow> account option" where
  "diff_get d a = bt_get (upserts d) a"

definition diff_apply :: "state_diff \<Rightarrow> state_diff \<Rightarrow> state_diff" where
  "diff_apply self diff = diff_merge self diff"

text \<open>\<open>Overlayed\<close>: only \<open>get\<close> is implemented, \<open>apply\<close> panics.\<close>

type_synonym state_view = "address \<Rightarrow> account option"

definition overlayed_get :: "state_view \<Rightarrow> state_view \<Rightarrow> state_view" where
  "overlayed_get base overlay a =
     (case overlay a of None \<Rightarrow> base a | Some value \<Rightarrow> Some value)"

text \<open>\<open>InMemoryStateStore\<close>: a \<open>HashMap\<close>, of which only lookups are observed.\<close>

record memory_store =
  data :: "address \<rightharpoonup> account"

definition memory_default :: memory_store where
  "memory_default = \<lparr>data = Map.empty\<rparr>"

definition memory_get :: "memory_store \<Rightarrow> address \<Rightarrow> account option" where
  "memory_get s a = data s a"

definition memory_apply :: "memory_store \<Rightarrow> state_diff \<Rightarrow> memory_store" where
  "memory_apply s d =
     s\<lparr>data := foldl (\<lambda>m e. m(fst e := None))
       (foldl (\<lambda>m e. m(fst e \<mapsto> snd e)) (data s) (upserts d)) (deletes d)\<rparr>"

section \<open>Well-formed diffs\<close>

definition diff_wf :: "state_diff \<Rightarrow> bool" where
  "diff_wf d = (bt_inv (upserts d) \<and> bt_inv (deletes d)
     \<and> list_all (\<lambda>a. bt_get (upserts d) a = None) (bt_keys (deletes d)))"

definition is_deleted :: "state_diff \<Rightarrow> address \<Rightarrow> bool" where
  "is_deleted d a = (bt_get (deletes d) a \<noteq> None)"

text \<open>What a diff means: the store after it, as a function of the store before.\<close>

definition diff_effect :: "state_diff \<Rightarrow> state_view \<Rightarrow> state_view" where
  "diff_effect d s a =
     (if is_deleted d a then None
      else case bt_get (upserts d) a of Some acc \<Rightarrow> Some acc | None \<Rightarrow> s a)"

lemma is_deleted_iff: "a \<in> fst ` set (deletes d) \<longleftrightarrow> is_deleted d a"
  by (simp add: is_deleted_def bt_get_dom)

lemma diff_wf_iff:
  "diff_wf d \<longleftrightarrow> bt_inv (upserts d) \<and> bt_inv (deletes d)
     \<and> (\<forall>a. is_deleted d a \<longrightarrow> bt_get (upserts d) a = None)"
proof -
  have "(\<forall>a \<in> set (bt_keys (deletes d)). bt_get (upserts d) a = None) \<longleftrightarrow>
    (\<forall>a. is_deleted d a \<longrightarrow> bt_get (upserts d) a = None)"
    unfolding is_deleted_iff [symmetric] bt_keys_def by auto
  then show ?thesis by (simp add: diff_wf_def list_all_iff)
qed

lemma diff_wf_default [simp, wf_intros]: "diff_wf diff_default"
  by (simp add: diff_wf_iff diff_default_def is_deleted_def)

lemma diff_set_simps [simp, store_simps]:
  "upserts (snd (diff_set d a acc)) = bt_insert a acc (upserts d)"
  "is_deleted (snd (diff_set d a acc)) b \<longleftrightarrow> b \<noteq> a \<and> is_deleted d b"
  by (auto simp: diff_set_def is_deleted_def)

lemma diff_remove_simps [simp, store_simps]:
  "upserts (snd (diff_remove d a)) = bt_remove a (upserts d)"
  "is_deleted (snd (diff_remove d a)) b \<longleftrightarrow> b = a \<or> is_deleted d b"
  by (auto simp: diff_remove_def is_deleted_def)

lemma diff_wf_set [wf_intros]: "diff_wf d \<Longrightarrow> diff_wf (snd (diff_set d a acc))"
  by (auto simp: diff_wf_iff diff_set_def is_deleted_def)

lemma diff_wf_remove [wf_intros]: "diff_wf d \<Longrightarrow> diff_wf (snd (diff_remove d a))"
  by (auto simp: diff_wf_iff diff_remove_def is_deleted_def)

lemma merge_upsert_eq: "merge_upsert d e = snd (diff_set d (fst e) (snd e))"
  by (simp add: merge_upsert_def diff_set_def)

lemma merge_delete_eq: "merge_delete d e = snd (diff_remove d (fst e))"
  by (simp add: merge_delete_def diff_remove_def)

lemma foldl_merge_upsert_upserts:
  "upserts (foldl merge_upsert d es) = bt_extend (upserts d) es"
  by (induction es arbitrary: d) (simp_all add: bt_extend_def merge_upsert_eq)

lemma foldl_merge_upsert_deleted:
  "is_deleted (foldl merge_upsert d es) b \<longleftrightarrow> b \<notin> fst ` set es \<and> is_deleted d b"
  by (induction es arbitrary: d) (auto simp: merge_upsert_eq)

lemma foldl_merge_delete_upserts:
  "bt_get (upserts (foldl merge_delete d es)) b = (if b \<in> fst ` set es then None else bt_get (upserts d) b)"
  by (induction es arbitrary: d) (auto simp: merge_delete_eq)

lemma foldl_merge_delete_deleted:
  "is_deleted (foldl merge_delete d es) b \<longleftrightarrow> b \<in> fst ` set es \<or> is_deleted d b"
  by (induction es arbitrary: d) (auto simp: merge_delete_eq)

lemma foldl_merge_wf:
  "diff_wf d \<Longrightarrow> diff_wf (foldl merge_upsert d es)"
  "diff_wf d \<Longrightarrow> diff_wf (foldl merge_delete d fs)"
  by (induction es arbitrary: d, auto simp: merge_upsert_eq intro: diff_wf_set)
    (induction fs arbitrary: d, auto simp: merge_delete_eq intro: diff_wf_remove)

lemma diff_merge_wf [wf_intros]: "diff_wf d \<Longrightarrow> diff_wf (diff_merge d e)"
  by (simp add: diff_merge_def foldl_merge_wf)

lemma diff_wf_distinct: "diff_wf d \<Longrightarrow> distinct (map fst (upserts d))"
  using bt.entries_distinct by (auto simp: diff_wf_iff)

lemma diff_merge_get [store_simps]:
  assumes "diff_wf e"
  shows "bt_get (upserts (diff_merge d e)) a = diff_effect e (bt_get (upserts d)) a"
proof -
  have "bt_get (upserts (diff_merge d e)) a =
    (if is_deleted e a then None else bt_get (bt_extend (upserts d) (upserts e)) a)"
    by (simp add: diff_merge_def foldl_merge_delete_upserts foldl_merge_upsert_upserts is_deleted_iff)
  then show ?thesis
    using diff_wf_distinct [OF assms] by (simp add: diff_effect_def bt_extend_get bt_get_def [of "upserts e"])
qed

lemma diff_merge_deleted [store_simps]:
  "is_deleted (diff_merge d e) a \<longleftrightarrow>
     is_deleted e a \<or> (is_deleted d a \<and> bt_get (upserts e) a = None)"
  by (simp add: diff_merge_def foldl_merge_delete_deleted foldl_merge_upsert_deleted is_deleted_iff
      bt_get_None_iff conj_commute)

text \<open>The meaning of a merged diff is the composition of the meanings.\<close>

lemma diff_effect_merge:
  assumes "diff_wf d" "diff_wf e"
  shows "diff_effect (diff_merge d e) s = diff_effect e (diff_effect d s)"
proof
  fix a
  have "bt_get (upserts e) a = None" if "is_deleted e a" using assms(2) that by (simp add: diff_wf_iff)
  moreover have "bt_get (upserts d) a = None" if "is_deleted d a" using assms(1) that by (simp add: diff_wf_iff)
  ultimately show "diff_effect (diff_merge d e) s a = diff_effect e (diff_effect d s) a"
    using assms
    by (auto simp: diff_effect_def diff_merge_deleted diff_merge_get split: option.splits)
qed

lemma diff_effect_default [simp]: "diff_effect diff_default s = s"
  by (rule ext) (simp add: diff_effect_def diff_default_def is_deleted_def)

section \<open>The State trait\<close>

locale state_store =
  fixes get :: "'s \<Rightarrow> state_view"
    and apply_diff :: "'s \<Rightarrow> state_diff \<Rightarrow> 's"
  assumes get_apply: "diff_wf d \<Longrightarrow> get (apply_diff s d) = diff_effect d (get s)"
begin

lemma get_apply_all:
  "list_all diff_wf ds \<Longrightarrow> get (foldl apply_diff s ds) = fold diff_effect ds (get s)"
  by (induction ds arbitrary: s) (auto simp: get_apply)

lemma foldl_merge_effect:
  "diff_wf d \<Longrightarrow> list_all diff_wf ds \<Longrightarrow>
   diff_wf (foldl diff_merge d ds) \<and> diff_effect (foldl diff_merge d ds) s = fold diff_effect ds (diff_effect d s)"
  by (induction ds arbitrary: d) (auto simp: diff_effect_merge diff_merge_wf)

lemma apply_merged:
  assumes "diff_wf d" "list_all diff_wf ds"
  shows "get (apply_diff s (foldl diff_merge d ds)) = get (foldl apply_diff s (d # ds))"
  using foldl_merge_effect [OF assms] get_apply_all [of "d # ds" s] assms by (simp add: get_apply)

end

interpretation diff_store: state_store diff_get diff_apply
  by unfold_locales (auto simp: diff_get_def [abs_def] diff_apply_def diff_merge_get)

lemma foldl_updates:
  "distinct (map fst es) \<Longrightarrow>
   foldl (\<lambda>m e. m(fst e \<mapsto> snd e)) m es a = (case map_of es a of Some v \<Rightarrow> Some v | None \<Rightarrow> m a)"
proof (induction es arbitrary: m)
  case (Cons e es)
  then have "map_of es (fst e) = None" by (simp add: map_of_eq_None_iff)
  with Cons show ?case by (cases e) (auto split: option.splits)
qed simp

lemma foldl_removes:
  "foldl (\<lambda>m e. m(fst e := None)) m es a = (if a \<in> fst ` set es then None else m a)"
  by (induction es arbitrary: m) auto

interpretation mem_store: state_store memory_get memory_apply
proof
  fix d s
  assume "diff_wf d"
  then show "memory_get (memory_apply s d) = diff_effect d (memory_get s)"
    by (auto simp: memory_get_def memory_apply_def diff_effect_def foldl_removes foldl_updates
        diff_wf_distinct is_deleted_iff bt_get_def [of "upserts d"] fun_eq_iff split: option.splits)
qed

lemma overlayed_get_diff:
  assumes "diff_wf d"
  shows "overlayed_get base (diff_get d) a =
    (if is_deleted d a then base a else diff_effect d base a)"
  using assms by (auto simp: overlayed_get_def diff_get_def diff_effect_def diff_wf_iff split: option.splits)

lemma diff_wf_ext:
  assumes "diff_wf d" "diff_wf e" "\<And>a. bt_get (upserts d) a = bt_get (upserts e) a"
    "\<And>a. is_deleted d a \<longleftrightarrow> is_deleted e a"
  shows "d = e"
proof -
  have "bt_get (deletes d) a = bt_get (deletes e) a" for a
    using assms(4) [of a] by (cases "bt_get (deletes d) a"; cases "bt_get (deletes e) a") (auto simp: is_deleted_def)
  then have "deletes d = deletes e"
    using assms(1,2) by (intro bt_inv_ext) (simp_all add: diff_wf_iff)
  moreover have "upserts d = upserts e"
    using assms(1-3) by (intro bt_inv_ext) (simp_all add: diff_wf_iff)
  ultimately show ?thesis by simp
qed

lemma diff_iter_keys: "map fst (diff_iter d) = bt_keys (upserts d) @ bt_keys (deletes d)"
  by (auto simp: diff_iter_def bt_keys_def case_prod_beta)

definition sample_account :: "bytes \<Rightarrow> account" where
  "sample_account b = \<lparr>acc_state = b, acc_predicates = TId \<lparr>pred_code = CodeInline [], pred_params = []\<rparr>\<rparr>"

definition sample_diff1 :: state_diff where
  "sample_diff1 = snd (diff_set (snd (diff_set diff_default (Address ''/b'') (sample_account [2])))
     (Address ''/a'') (sample_account [1]))"

definition sample_diff2 :: state_diff where
  "sample_diff2 = snd (diff_set (snd (diff_remove diff_default (Address ''/a''))) (Address ''/c'') (sample_account [3]))"

lemma sample_diffs_wf: "diff_wf sample_diff1" "diff_wf sample_diff2"
  by (simp_all add: sample_diff1_def sample_diff2_def diff_wf_set diff_wf_remove)

section \<open>Properties\<close>

text \<open>C7. Applying a merged diff is equivalent to applying the two diffs one after the other, on
  either kind of store, as the documentation of \<open>merge\<close> promises.\<close>

theorem merge_is_sequential_apply:
  assumes "diff_wf older" "diff_wf newer"
  shows "memory_get (memory_apply s (diff_merge older newer)) = memory_get (memory_apply (memory_apply s older) newer)
    \<and> diff_get (diff_apply d (diff_merge older newer)) = diff_get (diff_apply (diff_apply d older) newer)"
  using mem_store.apply_merged [of older "[newer]" s] diff_store.apply_merged [of older "[newer]" d] assms
  by simp

theorem merge_is_sequential_apply_witness:
  "memory_get (memory_apply memory_default (diff_merge sample_diff1 sample_diff2)) (Address ''/a'') = None
   \<and> memory_get (memory_apply (memory_apply memory_default sample_diff1) sample_diff2) (Address ''/b'') = Some (sample_account [2])"
proof -
  have "memory_get (memory_apply memory_default (diff_merge sample_diff1 sample_diff2)) (Address ''/a'') = None"
    by code_simp
  moreover have "memory_get (memory_apply memory_default (diff_merge sample_diff1 sample_diff2)) (Address ''/b'')
     = Some (sample_account [2])"
    by code_simp
  ultimately show ?thesis
    using merge_is_sequential_apply [OF sample_diffs_wf, of memory_default diff_default] by simp
qed

text \<open>C37. Every operation that writes a diff keeps it well formed (both collections sorted, no address
  both upserted and deleted) and \<open>set\<close> and \<open>remove\<close> return the account the diff held before.\<close>

theorem diff_operations_preserve_wf:
  assumes "diff_wf d"
  shows "diff_wf (snd (diff_set d a acc)) \<and> diff_wf (snd (diff_remove d a)) \<and> diff_wf (diff_merge d e)
    \<and> fst (diff_set d a acc) = diff_get d a \<and> fst (diff_remove d a) = diff_get d a
    \<and> diff_get (snd (diff_set d a acc)) b = (if b = a then Some acc else diff_get d b)
    \<and> diff_get (snd (diff_remove d a)) b = (if b = a then None else diff_get d b)"
  using assms
  by (simp add: diff_wf_set diff_wf_remove diff_merge_wf diff_get_def)
    (simp add: diff_set_def diff_remove_def)

theorem diff_operations_preserve_wf_witness:
  "diff_wf (diff_merge sample_diff1 sample_diff2) \<and> fst (diff_remove sample_diff1 (Address ''/a'')) = Some (sample_account [1])"
  using diff_operations_preserve_wf [OF sample_diffs_wf(1), of "Address ''/a''" "sample_account []" sample_diff2 "Address ''/b''"]
  by (simp add: diff_get_def sample_diff1_def)

text \<open>Merging diffs is associative on well-formed diffs, as values and not only in effect, so the
  order in which blocks of diffs are grouped does not matter.\<close>

lemma diff_merge_assoc:
  assumes "diff_wf a" "diff_wf b" "diff_wf c"
  shows "diff_merge (diff_merge a b) c = diff_merge a (diff_merge b c)"
proof (rule diff_wf_ext)
  show "diff_wf (diff_merge (diff_merge a b) c)" "diff_wf (diff_merge a (diff_merge b c))"
    using assms by (simp_all add: diff_merge_wf)
next
  fix x
  have e: "bt_get (upserts (diff_merge p q)) = diff_effect q (bt_get (upserts p))" if "diff_wf q" for p q
    using that by (intro ext) (rule diff_merge_get)
  show "bt_get (upserts (diff_merge (diff_merge a b) c)) x = bt_get (upserts (diff_merge a (diff_merge b c))) x"
    using assms by (simp add: e diff_merge_wf diff_effect_merge)
next
  fix x
  have "bt_get (upserts b) x = None" if "is_deleted b x" using assms(2) that by (simp add: diff_wf_iff)
  then show "is_deleted (diff_merge (diff_merge a b) c) x \<longleftrightarrow> is_deleted (diff_merge a (diff_merge b c)) x"
    using assms(3)
    by (auto simp: diff_merge_deleted diff_merge_get diff_effect_def diff_wf_iff split: option.splits)
qed

lemma diff_merge_assoc_example:
  "diff_merge (diff_merge sample_diff1 sample_diff2) sample_diff1 = diff_merge sample_diff1 (diff_merge sample_diff2 sample_diff1)"
  using diff_merge_assoc [OF sample_diffs_wf sample_diffs_wf(1)] .

text \<open>The overlay view agrees with the store that results from applying the overlay diff, except
  at the addresses the diff deletes: there it still shows the base account, because \<open>StateDiff::get\<close>
  does not distinguish a deleted account from an untouched one.\<close>

lemma overlay_masks_deletes:
  assumes "diff_wf d"
  shows "overlayed_get (memory_get base) (diff_get d) a =
    (if is_deleted d a then memory_get base a else memory_get (memory_apply base d) a)"
  using overlayed_get_diff [OF assms] mem_store.get_apply [OF assms] by simp

lemma overlay_masks_deletes_example:
  "overlayed_get (memory_get (memory_apply memory_default sample_diff1)) (diff_get sample_diff2) (Address ''/a'')
     = Some (sample_account [1])
   \<and> memory_get (memory_apply (memory_apply memory_default sample_diff1) sample_diff2) (Address ''/a'') = None"
proof -
  have del: "is_deleted sample_diff2 (Address ''/a'')" by (simp add: sample_diff2_def)
  have "memory_get (memory_apply memory_default sample_diff1) (Address ''/a'') = Some (sample_account [1])"
    by code_simp
  moreover have "memory_get (memory_apply (memory_apply memory_default sample_diff1) sample_diff2) (Address ''/a'') = None"
    by code_simp
  ultimately show ?thesis
    using overlay_masks_deletes [OF sample_diffs_wf(2), of "memory_apply memory_default sample_diff1" "Address ''/a''"] del
    by simp
qed

text \<open>\<open>iter\<close> lists every changed address exactly once, upserts first: with its account when the
  diff sets it and without one when the diff deletes it.\<close>

lemma diff_iter_complete:
  assumes "diff_wf d"
  shows "distinct (map fst (diff_iter d))
    \<and> ((a, Some acc) \<in> set (diff_iter d) \<longleftrightarrow> diff_get d a = Some acc)
    \<and> ((a, None) \<in> set (diff_iter d) \<longleftrightarrow> is_deleted d a)"
proof -
  have inv: "bt_inv (upserts d)" "bt_inv (deletes d)" using assms by (simp_all add: diff_wf_iff)
  have "set (bt_keys (upserts d)) \<inter> set (bt_keys (deletes d)) = {}"
    using assms by (fastforce simp: diff_wf_def list_all_iff bt_keys_def bt_get_None_iff image_iff)
  then have "distinct (map fst (diff_iter d))"
    using inv by (simp add: diff_iter_keys bt_keys_def bt.entries_distinct)
  moreover have "(a, Some acc) \<in> set (diff_iter d) \<longleftrightarrow> diff_get d a = Some acc"
    using bt.in_entries_iff [OF inv(1)] by (auto simp: diff_iter_def diff_get_def)
  moreover have "(a, None) \<in> set (diff_iter d) \<longleftrightarrow> is_deleted d a"
    unfolding is_deleted_iff [symmetric] by (force simp: diff_iter_def)
  ultimately show ?thesis by blast
qed

lemma diff_iter_complete_example:
  "(Address ''/a'', None) \<in> set (diff_iter sample_diff2) \<and> distinct (map fst (diff_iter sample_diff2))"
  using diff_iter_complete [OF sample_diffs_wf(2), of "Address ''/a''"] by (simp add: sample_diff2_def)

end
