(* ===== verification/Collect.thy ===== *)
theory Collect
  imports VmState
begin

text \<open>
  Gathering what a transaction needs before its predicates run: \<open>vm/src/collect.rs\<close>.  The state
  is read only through \<open>get\<close>, so it is a \<open>state_view\<close>.  \<open>HashMap::into_values\<close> yields an
  unspecified order: the map is an association list in insertion order and the parameter \<open>order\<close>
  rearranges it.  A panic of the ancestor iterator is \<open>None\<close>.
\<close>

datatype collect_error =
    AccountAlreadyExists address
  | AccountDoesNotExist address
  | CodeDoesNotExist address basic_predicate
  | AccountRefDoesNotExist address basic_predicate
  | ProposalDoesNotExist address basic_predicate
  | CalldataNotFound string basic_predicate

section \<open>The state diff of a transaction\<close>

definition output_change ::
  "state_view \<Rightarrow> address \<times> account_change \<Rightarrow> state_diff \<Rightarrow> collect_error + state_diff"
where
  "output_change state e out =
     (case e of (addr, change) \<Rightarrow>
        case change of
          CreateAccount acc \<Rightarrow>
            if state addr \<noteq> None then Inl (AccountAlreadyExists addr)
            else Inr (snd (diff_set out addr acc))
        | ReplaceState s \<Rightarrow>
            (case state addr of
               Some acc \<Rightarrow>
                 Inr (snd (diff_set out addr \<lparr>acc_state = s, acc_predicates = acc_predicates acc\<rparr>))
             | None \<Rightarrow> Inl (AccountDoesNotExist addr))
        | ReplacePredicates p \<Rightarrow>
            (case state addr of
               Some acc \<Rightarrow>
                 Inr (snd (diff_set out addr \<lparr>acc_state = acc_state acc, acc_predicates = p\<rparr>))
             | None \<Rightarrow> Inl (AccountDoesNotExist addr))
        | DeleteAccount \<Rightarrow>
            if state addr = None then Inl (AccountDoesNotExist addr)
            else Inr (snd (diff_remove out addr)))"

definition outputs :: "state_view \<Rightarrow> transaction \<Rightarrow> collect_error + state_diff" where
  "outputs state tx = fold_res (output_change state) (tx_proposals tx) diff_default"

section \<open>The predicate context\<close>

definition expand_account_change ::
  "address \<Rightarrow> state_view \<Rightarrow> account_change \<Rightarrow> collect_error + expanded_account_change"
where
  "expand_account_change addr state change =
     (case change of
        CreateAccount acc \<Rightarrow> Inr (XCreateAccount acc)
      | ReplaceState s \<Rightarrow>
          (case state addr of
             Some acc \<Rightarrow> Inr (XReplaceState (acc_state acc) s)
           | None \<Rightarrow> Inl (AccountDoesNotExist addr))
      | ReplacePredicates p \<Rightarrow>
          (case state addr of
             Some acc \<Rightarrow> Inr (XReplacePredicates (acc_predicates acc) p)
           | None \<Rightarrow> Inl (AccountDoesNotExist addr))
      | DeleteAccount \<Rightarrow>
          (case state addr of
             Some acc \<Rightarrow> Inr (XDeleteAccount acc)
           | None \<Rightarrow> Inl (AccountDoesNotExist addr)))"

definition expand_proposal ::
  "state_view \<Rightarrow> address \<times> account_change \<Rightarrow> (address, expanded_account_change) btree_map
   \<Rightarrow> collect_error + (address, expanded_account_change) btree_map"
where
  "expand_proposal state e ps =
     bind_res (expand_account_change (fst e) state (snd e)) (\<lambda>x. Inr (bt_insert (fst e) x ps))"

definition predicate_context_of ::
  "hash_env \<Rightarrow> state_view \<Rightarrow> transaction \<Rightarrow> collect_error + predicate_context"
where
  "predicate_context_of env state tx =
     bind_res (fold_res (expand_proposal state) (tx_proposals tx) [])
       (\<lambda>ps. Inr \<lparr>ctx_calldata =
                 bt_collect (map (\<lambda>i. (fst (intent_hash env i), intent_calldata i)) (tx_intents tx)),
               ctx_proposals = ps\<rparr>)"

section \<open>Expanding predicates\<close>

definition expand_code :: "state_view \<Rightarrow> basic_predicate \<Rightarrow> collect_error + expanded_code" where
  "expand_code state pred =
     (case pred_code pred of
        CodeInline wasm \<Rightarrow> Inr \<lparr>xcode = wasm, entrypoint = ''invoke''\<rparr>
      | CodeAccountRef addr ep \<Rightarrow>
          (case state addr of
             Some acc \<Rightarrow> Inr \<lparr>xcode = acc_state acc, entrypoint = ep\<rparr>
           | None \<Rightarrow> Inl (CodeDoesNotExist addr pred)))"

definition expand_param ::
  "state_view \<Rightarrow> predicate_context \<Rightarrow> calldata \<Rightarrow> basic_predicate \<Rightarrow> param \<Rightarrow> collect_error + expanded_param"
where
  "expand_param state ctx cd pred p =
     (case p of
        ParamInline v \<Rightarrow> Inr (XInline v)
      | ParamAccountRef addr \<Rightarrow>
          (case state addr of
             Some acc \<Rightarrow> Inr (XAccountRef addr (acc_state acc))
           | None \<Rightarrow> Inl (AccountRefDoesNotExist addr pred))
      | ParamProposalRef addr \<Rightarrow>
          (case bt_get (ctx_proposals ctx) addr of
             Some change \<Rightarrow> Inr (XProposalRef addr change)
           | None \<Rightarrow> Inl (ProposalDoesNotExist addr pred))
      | ParamCalldataRef key \<Rightarrow>
          (case bt_get cd key of
             Some val \<Rightarrow> Inr (XCalldataRef key val)
           | None \<Rightarrow> Inl (CalldataNotFound key pred)))"

definition expand_predicate ::
  "state_view \<Rightarrow> predicate_context \<Rightarrow> calldata \<Rightarrow> basic_predicate \<Rightarrow> collect_error + expanded_predicate"
where
  "expand_predicate state ctx cd pred =
     bind_res (expand_code state pred) (\<lambda>c.
     bind_res (try_list (expand_param state ctx cd pred) (pred_params pred)) (\<lambda>ps.
     Inr \<lparr>pred_code = c, pred_params = ps\<rparr>))"

definition expand_predicate_tree ::
  "state_view \<Rightarrow> predicate_tree \<Rightarrow> predicate_context \<Rightarrow> calldata \<Rightarrow> collect_error + expanded_tree"
where
  "expand_predicate_tree state tree ctx cd = tree_try_map (expand_predicate state ctx cd) tree"

section \<open>The predicates a transaction triggers\<close>

definition merged_calldata :: "predicate_context \<Rightarrow> calldata" where
  "merged_calldata ctx =
     (case map snd (ctx_calldata ctx) of
        [] \<Rightarrow> []
      | c # cs \<Rightarrow> foldl bt_extend c cs)"

type_synonym collected = "(address \<times> expanded_tree) list"

definition visit_account ::
  "state_view \<Rightarrow> predicate_context \<Rightarrow> calldata \<Rightarrow> address \<Rightarrow> collected \<Rightarrow> collect_error + collected"
where
  "visit_account state ctx cd addr out =
     (if map_of out addr \<noteq> None then Inr out
      else case state addr of
             None \<Rightarrow> Inr out
           | Some acc \<Rightarrow>
               bind_res (expand_predicate_tree state (acc_predicates acc) ctx cd)
                 (\<lambda>t. Inr (out @ [(addr, t)])))"

fun visit_proposals ::
  "state_view \<Rightarrow> predicate_context \<Rightarrow> calldata \<Rightarrow> address list \<Rightarrow> collected \<Rightarrow> (collect_error + collected) option"
where
  "visit_proposals state ctx cd [] out = Some (Inr out)"
| "visit_proposals state ctx cd (addr # addrs) out =
     (case visit_account state ctx cd addr out of
        Inl e \<Rightarrow> Some (Inl e)
      | Inr out1 \<Rightarrow>
          (case for_ancestors (visit_account state ctx cd) addr out1 of
             None \<Rightarrow> None
           | Some (Inl e) \<Rightarrow> Some (Inl e)
           | Some (Inr out2) \<Rightarrow> visit_proposals state ctx cd addrs out2))"

definition accounts_predicates ::
  "(collected \<Rightarrow> collected) \<Rightarrow> state_view \<Rightarrow> predicate_context \<Rightarrow> transaction
   \<Rightarrow> (collect_error + expanded_tree list) option"
where
  "accounts_predicates order state ctx tx =
     map_option (\<lambda>r. bind_res r (\<lambda>out. Inr (map snd (order out))))
       (visit_proposals state ctx (merged_calldata ctx) (bt_keys (tx_proposals tx)) [])"

definition intents_predicates ::
  "state_view \<Rightarrow> predicate_context \<Rightarrow> transaction \<Rightarrow> collect_error + expanded_tree list"
where
  "intents_predicates state ctx tx =
     try_list (\<lambda>i. expand_predicate_tree state (expectations i) ctx (intent_calldata i)) (tx_intents tx)"

section \<open>Specifications\<close>

text \<open>Which changes an account admits, and the account afterwards.\<close>

fun change_applicable :: "account_change \<Rightarrow> account option \<Rightarrow> bool" where
  "change_applicable (CreateAccount _) cur = (cur = None)"
| "change_applicable (ReplaceState _) cur = (cur \<noteq> None)"
| "change_applicable (ReplacePredicates _) cur = (cur \<noteq> None)"
| "change_applicable DeleteAccount cur = (cur \<noteq> None)"

fun account_after :: "account_change \<Rightarrow> account option \<Rightarrow> account option" where
  "account_after (CreateAccount acc) cur = Some acc"
| "account_after (ReplaceState s) cur = map_option (\<lambda>acc. \<lparr>acc_state = s, acc_predicates = acc_predicates acc\<rparr>) cur"
| "account_after (ReplacePredicates p) cur = map_option (\<lambda>acc. \<lparr>acc_state = acc_state acc, acc_predicates = p\<rparr>) cur"
| "account_after DeleteAccount cur = None"

text \<open>The addresses whose predicates guard a set of proposals: the proposed ones and their ancestors.\<close>

fun guard_addresses :: "address list \<Rightarrow> address list" where
  "guard_addresses [] = []"
| "guard_addresses (a # as) = a # (case ancestors a of Some ups \<Rightarrow> ups | None \<Rightarrow> []) @ guard_addresses as"

definition valid_proposals :: "transaction \<Rightarrow> bool" where
  "valid_proposals tx = (bt_inv (tx_proposals tx) \<and> list_all valid_address (bt_keys (tx_proposals tx)))"

section \<open>Lemmas on outputs\<close>

lemma output_change_cases:
  "output_change state (a, ch) d =
     (if change_applicable ch (state a)
      then Inr (case account_after ch (state a) of
                  Some acc \<Rightarrow> snd (diff_set d a acc) | None \<Rightarrow> snd (diff_remove d a))
      else Inl (case ch of CreateAccount _ \<Rightarrow> AccountAlreadyExists a | _ \<Rightarrow> AccountDoesNotExist a))"
  by (auto simp: output_change_def split: account_change.splits option.splits)

text \<open>The diff the loop builds over a list of changes with distinct addresses.\<close>

lemma fold_output_change_ok:
  assumes "fold_res (output_change state) es d = Inr d'" "distinct (map fst es)" "diff_wf d"
  shows "diff_wf d' \<and> (\<forall>(a, ch) \<in> set es. change_applicable ch (state a))
    \<and> (\<forall>b. bt_get (upserts d') b = (case map_of es b of Some ch \<Rightarrow> account_after ch (state b) | None \<Rightarrow> bt_get (upserts d) b))
    \<and> (\<forall>b. is_deleted d' b \<longleftrightarrow> (case map_of es b of Some ch \<Rightarrow> account_after ch (state b) = None | None \<Rightarrow> is_deleted d b))"
  using assms
proof (induction es arbitrary: d)
  case Nil
  then show ?case by simp
next
  case (Cons e es)
  obtain a ch where e: "e = (a, ch)" by (cases e)
  let ?d = "case account_after ch (state a) of Some acc \<Rightarrow> snd (diff_set d a acc) | None \<Rightarrow> snd (diff_remove d a)"
  from Cons.prems e have app: "change_applicable ch (state a)" and rest: "fold_res (output_change state) es ?d = Inr d'"
    by (auto simp: output_change_cases split: if_splits)
  have wf: "diff_wf ?d" using Cons.prems(3) by (auto simp: diff_wf_set diff_wf_remove split: option.splits)
  have a: "map_of es a = None" using Cons.prems(2) e by (simp add: map_of_eq_None_iff)
  have get: "bt_get (upserts ?d) b = (if b = a then account_after ch (state a) else bt_get (upserts d) b)"
    and del: "is_deleted ?d b \<longleftrightarrow> (if b = a then account_after ch (state a) = None else is_deleted d b)" for b
    by (auto split: option.splits)
  show ?case
    using Cons.IH [OF rest _ wf] Cons.prems(2) e app a by (auto simp: get del split: option.splits)
qed

lemma fold_output_change_total:
  "(\<And>a ch. (a, ch) \<in> set es \<Longrightarrow> change_applicable ch (state a)) \<Longrightarrow>
   \<exists>d'. fold_res (output_change state) es d = Inr d'"
proof (induction es arbitrary: d)
  case (Cons e es)
  then show ?case by (cases e) (auto simp: output_change_cases)
qed simp

section \<open>Lemmas on collected predicates\<close>

lemma visit_proposals_fold:
  "list_all valid_address addrs \<Longrightarrow>
   visit_proposals state ctx cd addrs out =
     Some (fold_res (visit_account state ctx cd) (guard_addresses addrs) out)"
proof (induction addrs arbitrary: out)
  case (Cons a addrs)
  then have "valid_address a" by simp
  then obtain ups where "ancestors a = Some ups" by (rule valid_ancestors)
  with Cons show ?case
    by (auto simp: for_ancestors_fold fold_res_append bind_res_def split: sum.splits)
qed simp

definition collected_ok :: "state_view \<Rightarrow> predicate_context \<Rightarrow> calldata \<Rightarrow> collected \<Rightarrow> bool" where
  "collected_ok state ctx cd out =
     (distinct (map fst out) \<and> list_all (\<lambda>(a, t). \<exists>acc. state a = Some acc
        \<and> expand_predicate_tree state (acc_predicates acc) ctx cd = Inr t) out)"

lemma visit_account_ok:
  assumes "visit_account state ctx cd a out = Inr out'" "collected_ok state ctx cd out"
  shows "collected_ok state ctx cd out' \<and> set out \<subseteq> set out'
    \<and> fst ` set out' = fst ` set out \<union> (if state a = None then {} else {a})"
  using assms
  by (auto simp: visit_account_def collected_ok_def map_of_eq_None_iff split: if_splits option.splits)

lemma visit_accounts_ok:
  assumes "fold_res (visit_account state ctx cd) addrs out = Inr out'"
    "collected_ok state ctx cd out"
  shows "collected_ok state ctx cd out' \<and> set out \<subseteq> set out'
    \<and> fst ` set out' = fst ` set out \<union> {a \<in> set addrs. state a \<noteq> None}"
  using assms
proof (induction addrs arbitrary: out)
  case (Cons a addrs)
  then obtain out1 where out1: "visit_account state ctx cd a out = Inr out1"
    "fold_res (visit_account state ctx cd) addrs out1 = Inr out'" by auto
  note one = visit_account_ok [OF out1(1) Cons.prems(2)]
  with Cons.IH [OF out1(2)] show ?case by auto
qed simp

lemma visit_accounts_fail:
  assumes "fold_res (visit_account state ctx cd) addrs out = Inl e"
  shows "\<exists>a \<in> set addrs. \<exists>acc. state a = Some acc
    \<and> expand_predicate_tree state (acc_predicates acc) ctx cd = Inl e"
  using assms
  by (induction addrs arbitrary: out)
    (fastforce simp: visit_account_def split: if_splits option.splits)+

lemma visit_accounts_total:
  assumes "\<And>a acc. a \<in> set addrs \<Longrightarrow> state a = Some acc \<Longrightarrow>
      is_ok (expand_predicate_tree state (acc_predicates acc) ctx cd)"
  shows "is_ok (fold_res (visit_account state ctx cd) addrs out)"
  using visit_accounts_fail [of state ctx cd addrs out] assms
  by (cases "fold_res (visit_account state ctx cd) addrs out") fastforce+

lemma outputs_Inr:
  assumes "outputs state tx = Inr d" "bt_inv (tx_proposals tx)"
  shows "diff_wf d"
    and "\<And>a ch. (a, ch) \<in> set (tx_proposals tx) \<Longrightarrow> change_applicable ch (state a)"
    and "\<And>b. bt_get (upserts d) b = (case bt_get (tx_proposals tx) b of Some ch \<Rightarrow> account_after ch (state b) | None \<Rightarrow> None)"
    and "\<And>b. is_deleted d b \<longleftrightarrow> (case bt_get (tx_proposals tx) b of Some ch \<Rightarrow> account_after ch (state b) = None | None \<Rightarrow> False)"
proof -
  have dist: "distinct (map fst (tx_proposals tx))" using assms(2) by (rule bt.entries_distinct)
  from fold_output_change_ok [OF assms(1) [unfolded outputs_def] dist diff_wf_default]
  show "diff_wf d"
    and "\<And>a ch. (a, ch) \<in> set (tx_proposals tx) \<Longrightarrow> change_applicable ch (state a)"
    and "\<And>b. bt_get (upserts d) b = (case bt_get (tx_proposals tx) b of Some ch \<Rightarrow> account_after ch (state b) | None \<Rightarrow> None)"
    and "\<And>b. is_deleted d b \<longleftrightarrow> (case bt_get (tx_proposals tx) b of Some ch \<Rightarrow> account_after ch (state b) = None | None \<Rightarrow> False)"
    by (auto simp: bt_get_eq_map_of diff_default_def is_deleted_def split: option.splits)
qed

lemma outputs_effect:
  assumes "outputs state tx = Inr d" "bt_inv (tx_proposals tx)"
  shows "diff_effect d state b =
    (case bt_get (tx_proposals tx) b of Some ch \<Rightarrow> account_after ch (state b) | None \<Rightarrow> state b)"
  using outputs_Inr [OF assms] by (auto simp: diff_effect_def split: option.splits)

lemma expand_account_change_data:
  assumes "expand_account_change a state ch = Inr x" "change_applicable ch (state a)"
    "account_after ch (state a) = Some acc" "\<nexists>p. ch = ReplacePredicates p"
  shows "expanded_param_data (XProposalRef a x) = acc_state acc"
  using assms by (cases ch) (auto simp: expand_account_change_def split: option.splits)

lemma fold_expand_proposal:
  assumes "fold_res (expand_proposal state) es ps = Inr ps'" "distinct (map fst es)"
  shows "bt_get ps' b = (case map_of es b of
      Some ch \<Rightarrow> Some (projr (expand_account_change b state ch)) | None \<Rightarrow> bt_get ps b)
    \<and> (\<forall>(a, ch) \<in> set es. is_ok (expand_account_change a state ch))"
  using assms
proof (induction es arbitrary: ps)
  case (Cons e es)
  obtain a ch where e: "e = (a, ch)" by (cases e)
  from Cons.prems e obtain x where x: "expand_account_change a state ch = Inr x"
    and rest: "fold_res (expand_proposal state) es (bt_insert a x ps) = Inr ps'"
    by (auto simp: expand_proposal_def [of state "(a, ch)"])
  have "map_of es a = None" using Cons.prems(2) e by (simp add: map_of_eq_None_iff)
  with Cons.IH [OF rest] Cons.prems(2) e x show ?case by (auto split: option.splits)
qed simp

lemma context_proposals:
  assumes "predicate_context_of env state tx = Inr ctx" "bt_inv (tx_proposals tx)"
    "bt_get (tx_proposals tx) a = Some ch"
  shows "\<exists>x. expand_account_change a state ch = Inr x \<and> bt_get (ctx_proposals ctx) a = Some x"
proof -
  have dist: "distinct (map fst (tx_proposals tx))" using assms(2) by (rule bt.entries_distinct)
  obtain ps where ps: "fold_res (expand_proposal state) (tx_proposals tx) [] = Inr ps" "ctx_proposals ctx = ps"
    using assms(1) by (auto simp: predicate_context_of_def)
  note * = fold_expand_proposal [OF ps(1) dist, of a]
  have "map_of (tx_proposals tx) a = Some ch" using assms(3) by (simp add: bt_get_def)
  moreover from this have "is_ok (expand_account_change a state ch)" using * by (auto dest: map_of_SomeD)
  ultimately show ?thesis using * ps(2) by (auto simp: is_ok_iff)
qed

lemma accounts_predicates_valid:
  assumes "valid_proposals tx"
  shows "accounts_predicates order state ctx tx =
    Some (bind_res (fold_res (visit_account state ctx (merged_calldata ctx))
            (guard_addresses (bt_keys (tx_proposals tx))) [])
          (\<lambda>out. Inr (map snd (order out))))"
  using assms by (simp add: accounts_predicates_def valid_proposals_def visit_proposals_fold)

lemma accounts_predicates_trees:
  assumes "valid_proposals tx" "\<And>out. mset (order out) = mset out"
    "accounts_predicates order state ctx tx = Some (Inr trees)"
  shows "set trees = {t. \<exists>a acc. a \<in> set (guard_addresses (bt_keys (tx_proposals tx))) \<and> state a = Some acc
      \<and> expand_predicate_tree state (acc_predicates acc) ctx (merged_calldata ctx) = Inr t}"
proof -
  let ?cd = "merged_calldata ctx" and ?as = "guard_addresses (bt_keys (tx_proposals tx))"
  from assms(3) accounts_predicates_valid [OF assms(1)] obtain out where
    out: "fold_res (visit_account state ctx ?cd) ?as [] = Inr out" "trees = map snd (order out)" by auto
  have "collected_ok state ctx ?cd []" by (simp add: collected_ok_def)
  from visit_accounts_ok [OF out(1) this] have ok: "collected_ok state ctx ?cd out"
    and keys: "fst ` set out = {a \<in> set ?as. state a \<noteq> None}" by auto
  have "set (order out) = set out" using assms(2) by (metis set_mset_mset)
  with out(2) have trees: "set trees = snd ` set out" by simp
  show ?thesis
  proof (intro set_eqI iffI)
    fix t
    assume "t \<in> set trees"
    then obtain a where at: "(a, t) \<in> set out" using trees by auto
    then have "a \<in> set ?as" using keys by force
    moreover have "\<exists>acc. state a = Some acc \<and> expand_predicate_tree state (acc_predicates acc) ctx ?cd = Inr t"
      using ok at by (auto simp: collected_ok_def list_all_iff)
    ultimately show "t \<in> {t. \<exists>a acc. a \<in> set ?as \<and> state a = Some acc
      \<and> expand_predicate_tree state (acc_predicates acc) ctx ?cd = Inr t}" by blast
  next
    fix t
    assume "t \<in> {t. \<exists>a acc. a \<in> set ?as \<and> state a = Some acc
      \<and> expand_predicate_tree state (acc_predicates acc) ctx ?cd = Inr t}"
    then obtain a acc where a: "a \<in> set ?as" "state a = Some acc"
      "expand_predicate_tree state (acc_predicates acc) ctx ?cd = Inr t" by blast
    then have "a \<in> fst ` set out" using keys by auto
    then obtain t' where t': "(a, t') \<in> set out" by auto
    then have "expand_predicate_tree state (acc_predicates acc) ctx ?cd = Inr t'"
      using ok a(2) by (auto simp: collected_ok_def list_all_iff)
    with a(3) t' trees show "t \<in> set trees" by force
  qed
qed

lemma accounts_predicates_ok_iff:
  assumes "valid_proposals tx"
  shows "\<exists>r. accounts_predicates order state ctx tx = Some r
    \<and> (is_ok r \<longleftrightarrow> (\<forall>a acc. a \<in> set (guard_addresses (bt_keys (tx_proposals tx))) \<longrightarrow> state a = Some acc
          \<longrightarrow> is_ok (expand_predicate_tree state (acc_predicates acc) ctx (merged_calldata ctx))))"
proof -
  let ?cd = "merged_calldata ctx" and ?as = "guard_addresses (bt_keys (tx_proposals tx))"
  let ?r = "fold_res (visit_account state ctx ?cd) ?as []"
  have "is_ok (expand_predicate_tree state (acc_predicates acc) ctx ?cd)"
    if out: "?r = Inr out" and a: "a \<in> set ?as" "state a = Some acc" for out a acc
  proof -
    have "collected_ok state ctx ?cd []" by (simp add: collected_ok_def)
    from visit_accounts_ok [OF out this] have ok: "collected_ok state ctx ?cd out"
      and keys: "fst ` set out = {a \<in> set ?as. state a \<noteq> None}" by auto
    then have "a \<in> fst ` set out" using a by auto
    then show ?thesis using ok a(2) by (auto simp: collected_ok_def list_all_iff is_ok_iff)
  qed
  then have "is_ok ?r \<longleftrightarrow> (\<forall>a acc. a \<in> set ?as \<longrightarrow> state a = Some acc
      \<longrightarrow> is_ok (expand_predicate_tree state (acc_predicates acc) ctx ?cd))"
    using visit_accounts_total [of ?as state ctx ?cd "[]"] by (auto simp: is_ok_iff [of ?r])
  then show ?thesis unfolding accounts_predicates_valid [OF assms] by (cases ?r) auto
qed

definition sample_tx :: transaction where
  "sample_tx = transaction_new [] [(Address ''/a/b'', CreateAccount (sample_account [5])), (Address ''/b'', ReplaceState [6])]"

definition sample_state :: state_view where
  "sample_state = bt_get [(Address ''/a'', sample_account [1]), (Address ''/b'', sample_account [2])]"

definition sample_context :: predicate_context where
  "sample_context = \<lparr>ctx_calldata = [], ctx_proposals =
     [(Address ''/a/b'', XCreateAccount (sample_account [5])), (Address ''/b'', XReplaceState [2] [6])]\<rparr>"

definition sample_outputs :: state_diff where
  "sample_outputs = \<lparr>upserts = [(Address ''/a/b'', sample_account [5]), (Address ''/b'', sample_account [6])], deletes = []\<rparr>"

definition sample_tree :: expanded_tree where
  "sample_tree = TId \<lparr>pred_code = \<lparr>xcode = [], entrypoint = ''invoke''\<rparr>, pred_params = []\<rparr>"

lemma sample_tx_facts:
  "bt_inv (tx_proposals sample_tx)" "valid_proposals sample_tx"
  "outputs sample_state sample_tx = Inr sample_outputs"
  "predicate_context_of sample_env sample_state sample_tx = Inr sample_context"
  by code_simp+

lemma sample_guards:
  "guard_addresses (bt_keys (tx_proposals sample_tx)) = [Address ''/a/b'', Address ''/a'', Address ''/b'']"
proof -
  have keys: "bt_keys (tx_proposals sample_tx) = [Address (join_path [''a'', ''b'']), Address (join_path [''b''])]"
    and ok: "valid_segments [''a'', ''b'']" "valid_segments [''b'']" by code_simp+
  from ok [THEN ancestors_join] show ?thesis unfolding keys by (simp add: join_path_def)
qed

lemma sample_expansions:
  "sample_state (Address ''/a/b'') = None"
  "sample_state (Address ''/a'') = Some (sample_account [1])"
  "sample_state (Address ''/b'') = Some (sample_account [2])"
  "expand_predicate_tree sample_state (acc_predicates (sample_account s)) sample_context (merged_calldata sample_context)
     = Inr sample_tree"
  by (code_simp, code_simp, code_simp) (simp add: sample_account_def expand_predicate_tree_def
      expand_predicate_def expand_code_def sample_tree_def)

section \<open>Properties\<close>

text \<open>C8. \<open>outputs\<close> succeeds exactly when every proposed change is applicable to the current state (a
  create needs an absent account, the others a present one); it then produces a well-formed diff
  that changes exactly the proposed addresses, each to the account the change describes.\<close>

theorem outputs_correct:
  assumes "bt_inv (tx_proposals tx)"
  shows "(\<exists>d. outputs state tx = Inr d) = (\<forall>(a, ch) \<in> set (tx_proposals tx). change_applicable ch (state a))
    \<and> (outputs state tx = Inr d \<longrightarrow> diff_wf d \<and>
        diff_effect d state b =
          (case bt_get (tx_proposals tx) b of Some ch \<Rightarrow> account_after ch (state b) | None \<Rightarrow> state b))"
proof -
  have "\<exists>d. outputs state tx = Inr d" if "\<forall>(a, ch) \<in> set (tx_proposals tx). change_applicable ch (state a)"
    unfolding outputs_def by (rule fold_output_change_total) (use that in blast)
  then have "(\<exists>d. outputs state tx = Inr d) = (\<forall>(a, ch) \<in> set (tx_proposals tx). change_applicable ch (state a))"
    using outputs_Inr(2) [OF _ assms] by blast
  then show ?thesis using outputs_Inr(1) [OF _ assms] outputs_effect [OF _ assms] by blast
qed

theorem outputs_correct_witness:
  "outputs sample_state sample_tx = Inr sample_outputs \<and> diff_wf sample_outputs
   \<and> diff_effect sample_outputs sample_state (Address ''/b'') = Some (sample_account [6])"
proof -
  have b: "bt_get (tx_proposals sample_tx) (Address ''/b'') = Some (ReplaceState [6])"
    and s: "sample_state (Address ''/b'') = Some (sample_account [2])" by code_simp+
  show ?thesis
    using outputs_correct [OF sample_tx_facts(1), where state = sample_state and d = sample_outputs and b = "Address ''/b''"]
      sample_tx_facts(3) b s by (simp add: sample_account_def)
qed

text \<open>When \<open>outputs\<close> fails, the error is that of the first inapplicable change in address order:
  \<open>AccountAlreadyExists\<close> for a create, \<open>AccountDoesNotExist\<close> for the others.\<close>

lemma outputs_first_error:
  "outputs state tx = Inl e \<longleftrightarrow>
   (\<exists>us a ch vs. tx_proposals tx = us @ (a, ch) # vs \<and> list_all (\<lambda>(b, c). change_applicable c (state b)) us
      \<and> \<not> change_applicable ch (state a)
      \<and> e = (case ch of CreateAccount _ \<Rightarrow> AccountAlreadyExists a | _ \<Rightarrow> AccountDoesNotExist a))"
proof -
  have "fold_res (output_change state) es d = Inl e \<longleftrightarrow>
    (\<exists>us a ch vs. es = us @ (a, ch) # vs \<and> list_all (\<lambda>(b, c). change_applicable c (state b)) us
      \<and> \<not> change_applicable ch (state a)
      \<and> e = (case ch of CreateAccount _ \<Rightarrow> AccountAlreadyExists a | _ \<Rightarrow> AccountDoesNotExist a))"
    (is "_ \<longleftrightarrow> ?P es") for es d
  proof (induction es arbitrary: d)
    case (Cons x es)
    obtain a ch where x: "x = (a, ch)" by (cases x)
    show ?case
    proof (cases "change_applicable ch (state a)")
      case True
      have "?P (x # es)" if "?P es"
      proof -
        from that obtain us b c vs where "es = us @ (b, c) # vs" "list_all (\<lambda>(b, c). change_applicable c (state b)) us"
          "\<not> change_applicable c (state b)"
          "e = (case c of CreateAccount _ \<Rightarrow> AccountAlreadyExists b | _ \<Rightarrow> AccountDoesNotExist b)" by blast
        with True show ?thesis unfolding x
          by (intro exI [of _ "(a, ch) # us"] exI [of _ b] exI [of _ c] exI [of _ vs]) simp
      qed
      moreover have "?P es" if "?P (x # es)"
      proof -
        from that obtain us b c vs where *: "x # es = us @ (b, c) # vs" "list_all (\<lambda>(b, c). change_applicable c (state b)) us"
          "\<not> change_applicable c (state b)"
          "e = (case c of CreateAccount _ \<Rightarrow> AccountAlreadyExists b | _ \<Rightarrow> AccountDoesNotExist b)" by blast
        with True x obtain us' where "us = x # us'" by (cases us) auto
        with * have "es = us' @ (b, c) # vs" "list_all (\<lambda>(b, c). change_applicable c (state b)) us'" by simp_all
        with *(3,4) show ?thesis by blast
      qed
      ultimately have "?P (x # es) \<longleftrightarrow> ?P es" by blast
      with Cons True x show ?thesis by (simp add: output_change_cases)
    next
      case False
      have "us = [] \<and> b = a \<and> c = ch" if "x # es = us @ (b, c) # vs"
        "list_all (\<lambda>(b, c). change_applicable c (state b)) us" for us b c vs
        using that False x by (cases us) auto
      moreover have "x # es = [] @ (a, ch) # es" by (simp add: x)
      ultimately have "?P (x # es) \<longleftrightarrow> e = (case ch of CreateAccount _ \<Rightarrow> AccountAlreadyExists a | _ \<Rightarrow> AccountDoesNotExist a)"
        using False by (metis list.pred_inject(1))
      with False x show ?thesis by (auto simp: output_change_cases)
    qed
  qed simp
  then show ?thesis by (simp add: outputs_def)
qed

text \<open>What the predicates are shown is what is written: if both the diff and the context of a
  transaction are built, the data a proposal reference exposes for an address that is created or
  gets a new state is the state that the diff stores there.\<close>

lemma context_matches_outputs:
  assumes "bt_inv (tx_proposals tx)" "outputs state tx = Inr d" "predicate_context_of env state tx = Inr ctx"
    "bt_get (tx_proposals tx) a = Some ch" "\<nexists>p. ch = ReplacePredicates p" "diff_get d a = Some acc"
  shows "\<exists>x. bt_get (ctx_proposals ctx) a = Some x \<and> expanded_param_data (XProposalRef a x) = acc_state acc"
proof -
  obtain x where x: "expand_account_change a state ch = Inr x" "bt_get (ctx_proposals ctx) a = Some x"
    using context_proposals [OF assms(3,1,4)] by blast
  have "change_applicable ch (state a)"
    using outputs_Inr(2) [OF assms(2,1)] assms(4) by (auto dest: bt_get_Some_mem)
  moreover have "account_after ch (state a) = Some acc"
    using outputs_Inr(3) [OF assms(2,1), of a] assms(4,6) by (simp add: diff_get_def)
  ultimately show ?thesis using expand_account_change_data [OF x(1)] assms(5) x(2) by blast
qed

lemma context_matches_outputs_example:
  "\<exists>x. bt_get (ctx_proposals sample_context) (Address ''/b'') = Some x
      \<and> expanded_param_data (XProposalRef (Address ''/b'') x) = [6]"
proof -
  have b: "bt_get (tx_proposals sample_tx) (Address ''/b'') = Some (ReplaceState [6])"
    and d: "diff_get sample_outputs (Address ''/b'') = Some (sample_account [6])" by code_simp+
  have "\<nexists>p. ReplaceState [6] = ReplacePredicates p" by simp
  from context_matches_outputs [OF sample_tx_facts(1,3,4) b this d] show ?thesis by (simp add: sample_account_def)
qed

text \<open>C13. For proposals at constructed addresses, \<open>accounts_predicates\<close> never panics and returns, in
  some order, exactly the expanded predicate trees of the existing accounts among the proposed
  addresses and all their ancestors; it fails only when expanding one of them fails.\<close>

theorem accounts_predicates_complete:
  assumes "valid_proposals tx" "\<And>out. mset (order out) = mset out"
  shows "(\<exists>trees. accounts_predicates order state ctx tx = Some (Inr trees)
      \<and> set trees = {t. \<exists>a acc. a \<in> set (guard_addresses (bt_keys (tx_proposals tx))) \<and> state a = Some acc
            \<and> expand_predicate_tree state (acc_predicates acc) ctx (merged_calldata ctx) = Inr t})
    \<or> (\<exists>e a acc. accounts_predicates order state ctx tx = Some (Inl e)
        \<and> a \<in> set (guard_addresses (bt_keys (tx_proposals tx))) \<and> state a = Some acc
        \<and> expand_predicate_tree state (acc_predicates acc) ctx (merged_calldata ctx) = Inl e)"
proof (cases "fold_res (visit_account state ctx (merged_calldata ctx)) (guard_addresses (bt_keys (tx_proposals tx))) []")
  case (Inl e)
  with visit_accounts_fail [OF Inl] accounts_predicates_valid [OF assms(1)] show ?thesis by fastforce
next
  case (Inr out)
  with accounts_predicates_valid [OF assms(1), of order state ctx]
  have "accounts_predicates order state ctx tx = Some (Inr (map snd (order out)))" by simp
  with accounts_predicates_trees [OF assms this] show ?thesis by blast
qed

theorem accounts_predicates_complete_witness:
  "\<exists>trees. accounts_predicates (\<lambda>out. out) sample_state sample_context sample_tx = Some (Inr trees)
     \<and> set trees = {sample_tree}"
proof -
  have run: "accounts_predicates (\<lambda>out. out) sample_state sample_context sample_tx = Some (Inr [sample_tree, sample_tree])"
    unfolding accounts_predicates_valid [OF sample_tx_facts(2)] sample_guards by code_simp
  have "\<And>out :: collected. mset out = mset out" by simp
  from accounts_predicates_complete [OF sample_tx_facts(2) this, of sample_state sample_context]
  obtain trees where t: "accounts_predicates (\<lambda>out. out) sample_state sample_context sample_tx = Some (Inr trees)"
    and set: "set trees = {t. \<exists>a acc. a \<in> set (guard_addresses (bt_keys (tx_proposals sample_tx))) \<and> sample_state a = Some acc
      \<and> expand_predicate_tree sample_state (acc_predicates acc) sample_context (merged_calldata sample_context) = Inr t}"
    unfolding run by blast
  from set have "set trees = {sample_tree}" unfolding sample_guards using sample_expansions by auto
  with t show ?thesis by blast
qed

end
