(* ===== verification/Execution.thy ===== *)
theory Execution
  imports Collect
begin

text \<open>
  Executing one transaction: \<open>vm/src/execution.rs\<close>.  The WebAssembly runtime, the digest, the
  base58 encoder and the MessagePack encoder are other crates: they are the fields of the parameter
  \<open>wasm_env\<close>.  The parallel iterator of rayon is a machine whose tasks (one per predicate tree) share
  the \<open>cancelled\<close> flag; a run is a list of task numbers, one per atomic step, so every interleaving
  is a list.  \<open>reduce_with\<close> may bracket its items in any way, which is the parameter \<open>split\<close>.
\<close>

datatype exec_error =
    ErrState collect_error
  | Rejected expanded_predicate
  | Cancelled
  | ErrMemory string
  | ErrCompile string
  | ErrInstantiation string
  | ErrExport string
  | ErrEncoding string
  | ErrExecution string
  | ErrMemoryAccess string
  | InvalidReturnValue u32

section \<open>Combining outcomes\<close>

definition negate_entrypoint :: "expanded_predicate \<Rightarrow> expanded_predicate" where
  "negate_entrypoint p =
     p\<lparr>pred_code := (pred_code p)\<lparr>entrypoint := ''not('' @ entrypoint (pred_code p) @ '')''\<rparr>\<rparr>"

definition not_outcome :: "exec_error + expanded_predicate \<Rightarrow> exec_error + expanded_predicate" where
  "not_outcome r =
     (case r of
        Inr p \<Rightarrow> Inl (Rejected (negate_entrypoint p))
      | Inl e \<Rightarrow> (case e of Rejected p \<Rightarrow> Inr (negate_entrypoint p) | _ \<Rightarrow> Inl e))"

definition is_rejected :: "exec_error \<Rightarrow> bool" where
  "is_rejected e = (case e of Rejected _ \<Rightarrow> True | _ \<Rightarrow> False)"

text \<open>The match of \<open>and\<close>: arms 1 and 2 and 7 for an accepting left side, arms 4 to 6 (first match wins)
  for two errors, arms 3 and 6 for an error on the left only.\<close>

definition and_outcome :: "exec_error + 'a \<Rightarrow> exec_error + 'a \<Rightarrow> exec_error + 'a" where
  "and_outcome a b =
     (case a of
        Inr p \<Rightarrow> (case b of Inr _ \<Rightarrow> Inr p | Inl e \<Rightarrow> Inl e)
      | Inl e \<Rightarrow> (case b of Inr _ \<Rightarrow> Inl e | Inl e' \<Rightarrow> if e = Cancelled then Inl e' else Inl e))"

definition or_outcome :: "exec_error + 'a \<Rightarrow> exec_error + 'a \<Rightarrow> exec_error + 'a" where
  "or_outcome a b =
     (case a of
        Inr p \<Rightarrow> (case b of Inr _ \<Rightarrow> Inr p | Inl e \<Rightarrow> if is_rejected e then Inr p else Inl e)
      | Inl e \<Rightarrow> (case b of
            Inr p \<Rightarrow> if is_rejected e then Inr p else Inl e
          | Inl e' \<Rightarrow> if e = Cancelled then Inl e' else Inl e))"

section \<open>Invoking one predicate\<close>

text \<open>The state of a \<open>Store\<close> with its linear memory is a value of type \<open>'s\<close> that every call threads.\<close>

record ('m, 'i, 'f, 's) wasm_env =
  code_digest :: "bytes \<Rightarrow> bytes"
  bs58_encode :: "bytes \<Rightarrow> string"
  params_to_vec :: "expanded_param list \<Rightarrow> string + bytes"
  context_to_vec :: "predicate_context \<Rightarrow> string + bytes"
  module_deserialize :: "bytes \<Rightarrow> 'm option"
  module_from_binary :: "bytes \<Rightarrow> string + 'm"
  memory_new :: "nat \<Rightarrow> string + 's"
  instance_new :: "'m \<Rightarrow> 's \<Rightarrow> string + 'i \<times> 's"
  typed_function :: "'i \<Rightarrow> string \<Rightarrow> string + 'f"
  call_allocate :: "'f \<Rightarrow> u32 \<Rightarrow> 's \<Rightarrow> string + u32 \<times> 's"
  memory_write :: "u64 \<Rightarrow> bytes \<Rightarrow> 's \<Rightarrow> string + 's"
  call_ingest :: "'f \<Rightarrow> u32 \<Rightarrow> u32 \<Rightarrow> 's \<Rightarrow> string + u32 \<times> 's"
  call_entrypoint :: "'f \<Rightarrow> u32 \<Rightarrow> u32 \<Rightarrow> 's \<Rightarrow> string + u32 \<times> 's"

definition map_err :: "('e \<Rightarrow> 'f) \<Rightarrow> 'e + 'a \<Rightarrow> 'f + 'a" where
  "map_err f r = (case r of Inl e \<Rightarrow> Inl (f e) | Inr x \<Rightarrow> Inr x)"

definition predcache_path :: "('m, 'i, 'f, 's) wasm_env \<Rightarrow> bytes \<Rightarrow> string" where
  "predcache_path w code = ''/predcache/'' @ bs58_encode w (code_digest w code)"

definition load_module ::
  "('m, 'i, 'f, 's) wasm_env \<Rightarrow> expanded_predicate \<Rightarrow> state_view \<Rightarrow> address \<Rightarrow> exec_error + 'm"
where
  "load_module w pred cache cachekey =
     (case cache cachekey of
        Some val \<Rightarrow>
          (case module_deserialize w (acc_state val) of
             Some m \<Rightarrow> Inr m
           | None \<Rightarrow> map_err ErrCompile (module_from_binary w (xcode (pred_code pred))))
      | None \<Rightarrow> map_err ErrCompile (module_from_binary w (xcode (pred_code pred))))"

definition deliver_data ::
  "('m, 'i, 'f, 's) wasm_env \<Rightarrow> 'f \<Rightarrow> bytes \<Rightarrow> 'f \<Rightarrow> 's \<Rightarrow> string + u32 \<times> 's"
where
  "deliver_data w allocate_fn dat ingest_fn store =
     (let data_len = of_nat (length dat) :: u32 in
      bind_res (call_allocate w allocate_fn data_len store) (\<lambda>(raw_ptr, store).
      bind_res (memory_write w (ucast raw_ptr) dat store) (\<lambda>store.
      call_ingest w ingest_fn raw_ptr data_len store)))"

definition run_module ::
  "('m, 'i, 'f, 's) wasm_env \<Rightarrow> bytes \<Rightarrow> expanded_predicate \<Rightarrow> 'm \<Rightarrow> exec_error + bool"
where
  "run_module w ctx pred m =
     bind_res (map_err ErrMemory (memory_new w 32)) (\<lambda>store.
     bind_res (map_err ErrInstantiation (instance_new w m store)) (\<lambda>(inst, store).
     bind_res (map_err ErrExport (typed_function w inst ''__allocate'')) (\<lambda>allocate_fn.
     bind_res (map_err ErrExport (typed_function w inst ''__ingest_context'')) (\<lambda>context_fn.
     bind_res (map_err ErrExport (typed_function w inst ''__ingest_params'')) (\<lambda>params_fn.
     bind_res (map_err ErrExport (typed_function w inst (entrypoint (pred_code pred)))) (\<lambda>entrypoint_fn.
     bind_res (map_err ErrExecution (deliver_data w allocate_fn ctx context_fn store)) (\<lambda>(context_ptr, store).
     bind_res (map_err ErrEncoding (params_to_vec w (pred_params pred))) (\<lambda>params.
     bind_res (map_err ErrExecution (deliver_data w allocate_fn params params_fn store)) (\<lambda>(params_ptr, store).
     bind_res (map_err ErrExecution (call_entrypoint w entrypoint_fn params_ptr context_ptr store)) (\<lambda>(r, store).
       if r = 0 then Inr False else if r = 1 then Inr True else Inl (InvalidReturnValue r)))))))))))"

text \<open>\<open>None\<close> is the panic of \<open>expect("format validated at compile time")\<close>.\<close>

definition invoke ::
  "('m, 'i, 'f, 's) wasm_env \<Rightarrow> bytes \<Rightarrow> expanded_predicate \<Rightarrow> state_view \<Rightarrow> (exec_error + bool) option"
where
  "invoke w ctx pred cache =
     (case address_new (predcache_path w (xcode (pred_code pred))) of
        Inl _ \<Rightarrow> None
      | Inr cachekey \<Rightarrow>
          Some (bind_res (load_module w pred cache cachekey) (run_module w ctx pred)))"

section \<open>The parallel machine\<close>

text \<open>
  A task is \<open>Pending\<close> until a worker loads the flag at the top of the closure; then it walks the
  leaves of its tree in order, holding the outcomes so far and whether the current leaf has passed
  its own load of the flag and is being invoked.
\<close>

type_synonym leaf_outcome = "exec_error + expanded_predicate"

datatype task =
    Pending expanded_tree
  | Running expanded_tree "leaf_outcome list" bool
  | Finished "exec_error + unit"
  | Panicked

text \<open>Put the outcomes of the leaves, in visiting order, back into the shape of the tree.\<close>

fun tree_fill :: "'a expression_tree \<Rightarrow> 'b list \<Rightarrow> 'b expression_tree" where
  "tree_fill (TId p) os = TId (hd os)"
| "tree_fill (TNot t) os = TNot (tree_fill t os)"
| "tree_fill (TAnd l r) os =
     (let n = length (tree_leaves l) in TAnd (tree_fill l (take n os)) (tree_fill r (drop n os)))"
| "tree_fill (TOr l r) os =
     (let n = length (tree_leaves l) in TOr (tree_fill l (take n os)) (tree_fill r (drop n os)))"

definition reduce_outcomes :: "leaf_outcome expression_tree \<Rightarrow> exec_error + expanded_predicate" where
  "reduce_outcomes t = tree_reduce (\<lambda>p. p) not_outcome and_outcome or_outcome t"

definition discard :: "exec_error + 'a \<Rightarrow> exec_error + unit" where
  "discard r = bind_res r (\<lambda>_. Inr ())"

type_synonym invoker = "expanded_predicate \<Rightarrow> (exec_error + bool) option"

fun task_step :: "invoker \<Rightarrow> bool \<Rightarrow> task \<Rightarrow> bool \<times> task" where
  "task_step ivk cancelled (Pending t) =
     (cancelled, if cancelled then Finished (Inl Cancelled) else Running t [] False)"
| "task_step ivk cancelled (Running t outc False) =
     (cancelled,
      if length outc = length (tree_leaves t) then Finished (discard (reduce_outcomes (tree_fill t outc)))
      else if cancelled then Running t (outc @ [Inl Cancelled]) False
      else Running t outc True)"
| "task_step ivk cancelled (Running t outc True) =
     (let p = tree_leaves t ! length outc in
      case ivk p of
        None \<Rightarrow> (cancelled, Panicked)
      | Some (Inr True) \<Rightarrow> (cancelled, Running t (outc @ [Inr p]) False)
      | Some (Inr False) \<Rightarrow> (cancelled, Running t (outc @ [Inl (Rejected p)]) False)
      | Some (Inl e) \<Rightarrow> (True, Running t (outc @ [Inl e]) False))"
| "task_step ivk cancelled (Finished r) = (cancelled, Finished r)"
| "task_step ivk cancelled Panicked = (cancelled, Panicked)"

type_synonym machine = "bool \<times> task list"

definition machine_step :: "invoker \<Rightarrow> nat \<Rightarrow> machine \<Rightarrow> machine" where
  "machine_step ivk i m =
     (if i < length (snd m)
      then let (c, t) = task_step ivk (fst m) (snd m ! i) in (c, (snd m)[i := t])
      else m)"

definition machine_run :: "invoker \<Rightarrow> nat list \<Rightarrow> machine \<Rightarrow> machine" where
  "machine_run ivk sched m = fold (machine_step ivk) sched m"

text \<open>Enough further steps for every task: two per leaf, one to start and one to reduce.\<close>

definition drain :: "expanded_tree list \<Rightarrow> nat list" where
  "drain trees =
     concat (map (\<lambda>i. replicate (2 * length (tree_leaves (trees ! i)) + 2) i) [0..<length trees])"

fun task_result :: "task \<Rightarrow> (exec_error + unit) option" where
  "task_result (Finished r) = Some r"
| "task_result _ = None"

function reduce_with :: "(nat \<Rightarrow> nat \<Rightarrow> nat) \<Rightarrow> ('a \<Rightarrow> 'a \<Rightarrow> 'a) \<Rightarrow> nat \<Rightarrow> 'a list \<Rightarrow> 'a option" where
  "reduce_with split op off [] = None"
| "reduce_with split op off [x] = Some x"
| "reduce_with split op off (x # y # zs) =
     (let xs = x # y # zs; k = max 1 (min (split off (length xs)) (length xs - 1)) in
      case (reduce_with split op off (take k xs), reduce_with split op (off + k) (drop k xs)) of
        (Some a, Some b) \<Rightarrow> Some (op a b)
      | (Some a, None) \<Rightarrow> Some a
      | (None, b) \<Rightarrow> b)"
  by pat_completeness auto
termination by (relation "measure (\<lambda>(_, _, _, xs). length xs)") auto

definition parallel_invoke_predicates ::
  "('m, 'i, 'f, 's) wasm_env \<Rightarrow> nat list \<Rightarrow> (nat \<Rightarrow> nat \<Rightarrow> nat) \<Rightarrow> predicate_context
   \<Rightarrow> expanded_tree list \<Rightarrow> state_view \<Rightarrow> (exec_error + unit) option"
where
  "parallel_invoke_predicates w sched split ctx trees cache =
     (case context_to_vec w ctx of
        Inl e \<Rightarrow> Some (Inl (ErrEncoding e))
      | Inr c \<Rightarrow>
          (let m = machine_run (\<lambda>p. invoke w c p cache) (sched @ drain trees) (False, map Pending trees) in
           map_option (\<lambda>rs. case reduce_with split and_outcome 0 rs of Some r \<Rightarrow> r | None \<Rightarrow> Inr ())
             (opt_list task_result (snd m))))"

section \<open>Executing a transaction\<close>

definition execute ::
  "('m, 'i, 'f, 's) wasm_env \<Rightarrow> hash_env \<Rightarrow> (collected \<Rightarrow> collected) \<Rightarrow> nat list \<Rightarrow> (nat \<Rightarrow> nat \<Rightarrow> nat)
   \<Rightarrow> transaction \<Rightarrow> state_view \<Rightarrow> state_view \<Rightarrow> (exec_error + state_diff) option"
where
  "execute w env order sched split tx state cache =
     (case outputs state tx of
        Inl e \<Rightarrow> Some (Inl (ErrState e))
      | Inr diff \<Rightarrow>
     (case predicate_context_of env state tx of
        Inl e \<Rightarrow> Some (Inl (ErrState e))
      | Inr ctx \<Rightarrow>
     (case accounts_predicates order state ctx tx of
        None \<Rightarrow> None
      | Some (Inl e) \<Rightarrow> Some (Inl (ErrState e))
      | Some (Inr account_preds) \<Rightarrow>
     (case intents_predicates state ctx tx of
        Inl e \<Rightarrow> Some (Inl (ErrState e))
      | Inr intent_preds \<Rightarrow>
          map_option (\<lambda>r. bind_res r (\<lambda>_. Inr diff))
            (parallel_invoke_predicates w sched split ctx (account_preds @ intent_preds) cache)))))"

section \<open>Reachable machine states\<close>

text \<open>The same machine as a step relation, for reasoning about what any interleaving can reach.\<close>

inductive reachable :: "invoker \<Rightarrow> expanded_tree list \<Rightarrow> machine \<Rightarrow> bool" for ivk trees where
  start: "reachable ivk trees (False, map Pending trees)"
| step: "reachable ivk trees m \<Longrightarrow> reachable ivk trees (machine_step ivk i m)"

lemma machine_run_reachable: "reachable ivk trees m \<Longrightarrow> reachable ivk trees (machine_run ivk sched m)"
proof (induction sched arbitrary: m)
  case (Cons i sched)
  then show ?case using reachable.step [OF Cons.prems, of i] by (simp add: machine_run_def)
qed (simp add: machine_run_def)

section \<open>Algebra of outcomes\<close>

locale reducer =
  fixes op :: "'a \<Rightarrow> 'a \<Rightarrow> 'a"
  assumes op_assoc: "op (op a b) c = op a (op b c)"
begin

lemma foldl_op: "foldl op (op a b) xs = op a (foldl op b xs)"
  by (induction xs arbitrary: b) (simp_all add: op_assoc)

text \<open>Any bracketing gives the left-to-right result.\<close>

lemma reduce_any_bracketing: "reduce_with split op off (x # xs) = Some (foldl op x xs)"
proof (induction "length xs" arbitrary: off x xs rule: less_induct)
  case less
  show ?case
  proof (cases xs)
    case (Cons y zs)
    let ?l = "x # y # zs"
    let ?k = "max 1 (min (split off (length ?l)) (length ?l - 1))"
    obtain us where us: "take ?k ?l = x # us" by (cases "?k") auto
    have k: "?k < length ?l" "1 \<le> ?k" by auto
    obtain v vs where v: "drop ?k ?l = v # vs" using k(1) by (metis Cons_nth_drop_Suc)
    have len: "length us < length xs" "length vs < length xs"
      using arg_cong [OF us, of length] arg_cong [OF v, of length] k Cons by auto
    have "x # xs = (x # us) @ (v # vs)" using us v Cons by (metis append_take_drop_id)
    then have xs: "xs = us @ v # vs" by simp
    show ?thesis
      using less [OF len(1), of off x] less [OF len(2), of "off + ?k" v] us v
      unfolding Cons reduce_with.simps Let_def
      by (simp add: foldl_op xs [unfolded Cons])
  qed simp
qed

end

lemma and_outcome_simps [simp, outcome_simps]:
  "and_outcome (Inr p) (Inr q) = Inr p"
  "and_outcome (Inr p) (Inl e) = Inl e"
  "and_outcome (Inl e) (Inr q) = Inl e"
  "and_outcome (Inl e) (Inl e') = (if e = Cancelled then Inl e' else Inl e)"
  by (simp_all add: and_outcome_def)

lemma or_outcome_simps [simp, outcome_simps]:
  "or_outcome (Inr p) (Inr q) = Inr p"
  "or_outcome (Inr p) (Inl e) = (if is_rejected e then Inr p else Inl e)"
  "or_outcome (Inl e) (Inr q) = (if is_rejected e then Inr q else Inl e)"
  "or_outcome (Inl e) (Inl e') = (if e = Cancelled then Inl e' else Inl e)"
  by (simp_all add: or_outcome_def)

lemma not_outcome_simps [simp, outcome_simps]:
  "not_outcome (Inr p) = Inl (Rejected (negate_entrypoint p))"
  "not_outcome (Inl e) = (if is_rejected e then Inr (negate_entrypoint (case e of Rejected p \<Rightarrow> p)) else Inl e)"
  by (auto simp: not_outcome_def is_rejected_def split: exec_error.splits)

lemma is_rejected_simps [simp]: "is_rejected (Rejected p)" "\<not> is_rejected Cancelled"
  by (simp_all add: is_rejected_def)

lemma is_rejected_iff: "is_rejected e \<longleftrightarrow> (\<exists>p. e = Rejected p)"
  by (auto simp: is_rejected_def split: exec_error.splits)

lemma and_outcome_assoc: "and_outcome (and_outcome a b) c = and_outcome a (and_outcome b c)"
  by (cases a; cases b; cases c) auto

interpretation and_red: reducer and_outcome
  by unfold_locales (rule and_outcome_assoc)

lemma and_outcome_ok: "is_ok (and_outcome a b) \<longleftrightarrow> is_ok a \<and> is_ok b"
  by (cases a; cases b) auto

lemma foldl_and_ok: "is_ok (foldl and_outcome a rs) \<longleftrightarrow> is_ok a \<and> (\<forall>r \<in> set rs. is_ok r)"
  by (induction rs arbitrary: a) (auto simp: and_outcome_ok)

definition combined :: "(exec_error + unit) list \<Rightarrow> exec_error + unit" where
  "combined rs = (case rs of [] \<Rightarrow> Inr () | r # rs' \<Rightarrow> foldl and_outcome r rs')"

lemma reduce_with_combined:
  "(case reduce_with split and_outcome off rs of Some r \<Rightarrow> r | None \<Rightarrow> Inr ()) = combined rs"
  by (cases rs) (simp_all add: combined_def and_red.reduce_any_bracketing)

lemma combined_ok: "is_ok (combined rs) \<longleftrightarrow> (\<forall>r \<in> set rs. is_ok r)"
  by (cases rs) (auto simp: combined_def foldl_and_ok)

text \<open>An outcome is decided when it is an acceptance or a rejection.\<close>

definition decided :: "exec_error + 'a \<Rightarrow> bool" where
  "decided r = (case r of Inr _ \<Rightarrow> True | Inl e \<Rightarrow> is_rejected e)"

lemma decided_simps [simp]: "decided (Inr p)" "decided (Inl e) = is_rejected e"
  by (simp_all add: decided_def)

lemma decided_ops:
  "decided r \<Longrightarrow> decided (not_outcome r) \<and> (is_ok (not_outcome r) \<longleftrightarrow> \<not> is_ok r)"
  "decided a \<Longrightarrow> decided b \<Longrightarrow> decided (and_outcome a b) \<and> (is_ok (and_outcome a b) \<longleftrightarrow> is_ok a \<and> is_ok b)"
  "decided a \<Longrightarrow> decided b \<Longrightarrow> decided (or_outcome a b) \<and> (is_ok (or_outcome a b) \<longleftrightarrow> is_ok a \<or> is_ok b)"
  by (cases r; simp) (cases a; cases b; simp)+

lemma reduce_outcomes_simps [simp]:
  "reduce_outcomes (TId r) = r"
  "reduce_outcomes (TNot t) = not_outcome (reduce_outcomes t)"
  "reduce_outcomes (TAnd l t) = and_outcome (reduce_outcomes l) (reduce_outcomes t)"
  "reduce_outcomes (TOr l t) = or_outcome (reduce_outcomes l) (reduce_outcomes t)"
  by (simp_all add: reduce_outcomes_def)

lemma reduce_decided:
  "(\<And>r. r \<in> set (tree_leaves t) \<Longrightarrow> decided r) \<Longrightarrow>
   decided (reduce_outcomes t) \<and> (is_ok (reduce_outcomes t) \<longleftrightarrow> tree_holds is_ok t)"
  by (induction t) (auto simp: decided_ops)

lemma discard_ok [simp]: "is_ok (discard r) \<longleftrightarrow> is_ok r"
  by (cases r) (auto simp: discard_def)

lemma discard_Inl [simp]: "discard r = Inl e \<longleftrightarrow> r = Inl e"
  by (cases r) (auto simp: discard_def)

lemma tree_leaves_fill [simp]: "length os = length (tree_leaves t) \<Longrightarrow> tree_leaves (tree_fill t os) = os"
proof (induction t arbitrary: os)
  case (TId p)
  then show ?case by (cases os) auto
qed (auto simp: Let_def)

lemma tree_fill_map: "tree_fill t (map f (tree_leaves t)) = tree_map f t"
  by (induction t) (auto simp: Let_def)

section \<open>Invariants of the machine\<close>

text \<open>Which outcome a leaf may have been given, and what a task may look like, under a flag.\<close>

definition leaf_allowed :: "invoker \<Rightarrow> bool \<Rightarrow> expanded_predicate \<Rightarrow> leaf_outcome \<Rightarrow> bool" where
  "leaf_allowed ivk c p r =
     ((ivk p = Some (Inr True) \<and> r = Inr p) \<or> (ivk p = Some (Inr False) \<and> r = Inl (Rejected p))
      \<or> (c \<and> (r = Inl Cancelled \<or> (\<exists>e. ivk p = Some (Inl e) \<and> r = Inl e))))"

fun task_inv :: "invoker \<Rightarrow> bool \<Rightarrow> expanded_tree \<Rightarrow> task \<Rightarrow> bool" where
  "task_inv ivk c t (Pending t') = (t' = t)"
| "task_inv ivk c t (Running t' outc b) =
     (t' = t \<and> list_all2 (leaf_allowed ivk c) (take (length outc) (tree_leaves t)) outc
      \<and> length outc \<le> length (tree_leaves t) \<and> (b \<longrightarrow> length outc < length (tree_leaves t)))"
| "task_inv ivk c t (Finished r) =
     ((c \<and> r = Inl Cancelled) \<or> (\<exists>outc. list_all2 (leaf_allowed ivk c) (tree_leaves t) outc
        \<and> r = discard (reduce_outcomes (tree_fill t outc))))"
| "task_inv ivk c t Panicked = (\<exists>p \<in> set (tree_leaves t). ivk p = None)"

definition crashes :: "invoker \<Rightarrow> expanded_predicate \<Rightarrow> bool" where
  "crashes ivk p = (\<exists>e. ivk p = Some (Inl e))"

definition machine_inv :: "invoker \<Rightarrow> expanded_tree list \<Rightarrow> machine \<Rightarrow> bool" where
  "machine_inv ivk trees m =
     (list_all2 (task_inv ivk (fst m)) trees (snd m)
      \<and> (fst m \<longrightarrow> (\<exists>t \<in> set trees. \<exists>p \<in> set (tree_leaves t). crashes ivk p)))"

lemma leaf_allowed_mono: "leaf_allowed ivk c p r \<Longrightarrow> leaf_allowed ivk (c \<or> c') p r"
  by (auto simp: leaf_allowed_def)

lemma task_inv_mono: "task_inv ivk c t k \<Longrightarrow> task_inv ivk (c \<or> c') t k"
proof (cases k)
  case (Finished r)
  moreover assume "task_inv ivk c t k"
  ultimately show ?thesis
    by (auto intro: list_all2_mono leaf_allowed_mono)
qed (auto elim!: list_all2_mono intro: leaf_allowed_mono)

lemma list_all2_snoc_take:
  assumes "list_all2 P (take (length ys) xs) ys" "length ys < length xs" "P (xs ! length ys) y"
  shows "list_all2 P (take (length (ys @ [y])) xs) (ys @ [y])"
  using assms by (simp add: take_Suc_conv_app_nth list_all2_appendI)

lemma invocation_cases:
  fixes r :: "('e + bool) option"
  obtains "r = None" | "r = Some (Inr True)" | "r = Some (Inr False)" | e where "r = Some (Inl e)"
proof (cases r)
  case (Some x)
  show ?thesis
  proof (cases x)
    case (Inr b)
    with Some show ?thesis using that(2,3) by (cases b) auto
  qed (use Some that(4) in auto)
qed (use that(1) in auto)

lemma task_step_inv:
  assumes "task_inv ivk c t k" "task_step ivk c k = (c', k')"
  shows "task_inv ivk c' t k' \<and> (c \<longrightarrow> c') \<and> (c' \<and> \<not> c \<longrightarrow> (\<exists>p \<in> set (tree_leaves t). crashes ivk p))"
proof (cases k)
  case (Running t' outc b)
  note inv = assms(1) [unfolded Running, simplified]
  show ?thesis
  proof (cases b)
    case False
    consider "length outc = length (tree_leaves t)" | "length outc < length (tree_leaves t)" "c"
      | "length outc < length (tree_leaves t)" "\<not> c" using inv by force
    then show ?thesis
    proof cases
      case 1
      with assms(2) Running False inv show ?thesis by auto
    next
      case 2
      have "leaf_allowed ivk c (tree_leaves t ! length outc) (Inl Cancelled)" using 2 by (simp add: leaf_allowed_def)
      with 2 assms(2) Running False inv show ?thesis by (auto dest: list_all2_snoc_take)
    next
      case 3
      with assms(2) Running False inv show ?thesis by auto
    qed
  next
    case True
    let ?p = "tree_leaves t ! length outc"
    have lt: "length outc < length (tree_leaves t)" and t: "t' = t"
      and all: "list_all2 (leaf_allowed ivk c) (take (length outc) (tree_leaves t)) outc" using inv True by auto
    have p: "?p \<in> set (tree_leaves t)" using lt by simp
    have grow: "task_inv ivk c' t (Running t (outc @ [r]) False)" if "leaf_allowed ivk c' ?p r" "c \<longrightarrow> c'" for r
    proof -
      have "list_all2 (leaf_allowed ivk c') (take (length outc) (tree_leaves t)) outc"
        using all leaf_allowed_mono [of ivk c _ _ c'] that(2) by (auto elim!: list_all2_mono)
      from list_all2_snoc_take [OF this lt that(1)] lt show ?thesis by simp
    qed
    show ?thesis
    proof (cases rule: invocation_cases [of "ivk ?p"])
      case 1
      with assms(2) Running True t p show ?thesis by auto
    next
      case 2
      with assms(2) Running True t have "c' = c" "k' = Running t (outc @ [Inr ?p]) False" by auto
      with grow [of "Inr ?p"] 2 show ?thesis by (simp add: leaf_allowed_def)
    next
      case 3
      with assms(2) Running True t have "c' = c" "k' = Running t (outc @ [Inl (Rejected ?p)]) False" by auto
      with grow [of "Inl (Rejected ?p)"] 3 show ?thesis by (simp add: leaf_allowed_def)
    next
      case (4 e)
      with assms(2) Running True t have "c'" "k' = Running t (outc @ [Inl e]) False" by auto
      with grow [of "Inl e"] 4 p show ?thesis by (auto simp: leaf_allowed_def crashes_def)
    qed
  qed
qed (use assms in \<open>auto split: if_splits\<close>)

lemma machine_step_inv: "machine_inv ivk trees m \<Longrightarrow> machine_inv ivk trees (machine_step ivk i m)"
proof (cases "i < length (snd m)")
  case True
  assume inv: "machine_inv ivk trees m"
  obtain c' k where s: "task_step ivk (fst m) (snd m ! i) = (c', k)" by (cases "task_step ivk (fst m) (snd m ! i)")
  have len: "length trees = length (snd m)" using inv by (auto simp: machine_inv_def dest: list_all2_lengthD)
  have all: "task_inv ivk (fst m) (trees ! j) (snd m ! j)" if "j < length trees" for j
    using inv that by (simp add: machine_inv_def list_all2_conv_all_nth)
  from task_step_inv [OF all s] True len have k: "task_inv ivk c' (trees ! i) k" "fst m \<longrightarrow> c'"
    "c' \<and> \<not> fst m \<longrightarrow> (\<exists>p \<in> set (tree_leaves (trees ! i)). crashes ivk p)" by auto
  have "task_inv ivk c' (trees ! j) ((snd m)[i := k] ! j)" if "j < length trees" for j
    using k(1,2) task_inv_mono [OF all [OF that], of c'] that len by (cases "j = i"; cases "fst m") auto
  moreover have "\<exists>t \<in> set trees. \<exists>p \<in> set (tree_leaves t). crashes ivk p" if c'
    using that k(3) inv True len by (cases "fst m") (auto simp: machine_inv_def)
  ultimately show ?thesis using True s len by (simp add: machine_step_def machine_inv_def list_all2_conv_all_nth)
qed (simp add: machine_step_def)

lemma reachable_inv: "reachable ivk trees m \<Longrightarrow> machine_inv ivk trees m"
proof (induction rule: reachable.induct)
  case start
  then show ?case by (simp add: machine_inv_def list_all2_conv_all_nth)
next
  case (step m i)
  then show ?case by (simp add: machine_step_inv)
qed

section \<open>Progress\<close>

fun work :: "task \<Rightarrow> nat" where
  "work (Pending t) = 2 * length (tree_leaves t) + 2"
| "work (Running t outc b) = 2 * (length (tree_leaves t) - length outc) + (if b then 0 else 1)"
| "work (Finished r) = 0"
| "work Panicked = 0"

lemma task_step_work: "task_inv ivk c t k \<Longrightarrow> work (snd (task_step ivk c k)) \<le> work k - 1"
  by (induction ivk c k rule: task_step.induct)
    (auto simp: Let_def split: option.splits sum.splits bool.splits)

lemma machine_step_length [simp]: "length (snd (machine_step ivk i m)) = length (snd m)"
  by (simp add: machine_step_def Let_def split: prod.splits)

lemma machine_run_length [simp]: "length (snd (machine_run ivk sched m)) = length (snd m)"
  by (induction sched arbitrary: m) (simp_all add: machine_run_def)

lemma machine_step_work:
  assumes "machine_inv ivk trees m" "j < length (snd m)"
  shows "work (snd (machine_step ivk i m) ! j) \<le> work (snd m ! j) - (if i = j then 1 else 0)"
proof -
  have "task_inv ivk (fst m) (trees ! j) (snd m ! j)"
    using assms by (auto simp: machine_inv_def list_all2_conv_all_nth)
  from task_step_work [OF this] assms(2) show ?thesis
    by (auto simp: machine_step_def Let_def split: prod.splits)
qed

lemma machine_run_work:
  assumes "machine_inv ivk trees m" "j < length (snd m)"
  shows "work (snd (machine_run ivk sched m) ! j) \<le> work (snd m ! j) - count_list sched j"
  using assms
proof (induction sched arbitrary: m)
  case (Cons i sched)
  from Cons.IH [OF machine_step_inv [OF Cons.prems(1)], of i] machine_step_work [OF Cons.prems, of i] Cons.prems(2)
  show ?case by (auto simp: machine_run_def split: if_splits)
qed (simp add: machine_run_def)

lemma count_list_concat: "count_list (concat xss) x = sum_list (map (\<lambda>xs. count_list xs x) xss)"
  by (induction xss) auto

lemma count_list_replicate: "count_list (replicate n y) x = (if x = y then n else 0)"
  by (induction n) auto

lemma count_drain:
  assumes "j < length trees"
  shows "2 * length (tree_leaves (trees ! j)) + 2 \<le> count_list (drain trees) j"
proof -
  let ?f = "\<lambda>i. count_list (replicate (2 * length (tree_leaves (trees ! i)) + 2) i) j"
  have "?f j \<le> sum_list (map ?f [0..<length trees])" using assms by (intro member_le_sum_list) auto
  then show ?thesis by (simp add: drain_def count_list_concat count_list_replicate comp_def)
qed

lemma work_zero: "work k = 0 \<Longrightarrow> task_inv ivk c t k \<Longrightarrow> k = Panicked \<or> (\<exists>r. k = Finished r)"
  by (cases k) (auto split: if_splits)

lemma drained:
  assumes "m = machine_run ivk (sched @ drain trees) (False, map Pending trees)" "j < length trees"
  shows "snd m ! j = Panicked \<or> (\<exists>r. snd m ! j = Finished r)"
proof -
  let ?m0 = "(False, map Pending trees)"
  have inv: "machine_inv ivk trees ?m0" "machine_inv ivk trees m"
    using reachable_inv [OF reachable.start] reachable_inv [OF machine_run_reachable [OF reachable.start]] assms(1) by auto
  have "work (snd m ! j) \<le> work (Pending (trees ! j)) - count_list (sched @ drain trees) j"
    using machine_run_work [OF inv(1), of j "sched @ drain trees"] assms by simp
  with count_drain [OF assms(2)] have "work (snd m ! j) = 0" by simp
  moreover have "task_inv ivk (fst m) (trees ! j) (snd m ! j)"
    using inv(2) assms(2) by (auto simp: machine_inv_def list_all2_conv_all_nth)
  ultimately show ?thesis by (rule work_zero)
qed

section \<open>The result of a run\<close>

definition final_machine :: "invoker \<Rightarrow> nat list \<Rightarrow> expanded_tree list \<Rightarrow> machine" where
  "final_machine ivk sched trees = machine_run ivk (sched @ drain trees) (False, map Pending trees)"

lemma final_machine_inv: "machine_inv ivk trees (final_machine ivk sched trees)"
  using reachable_inv [OF machine_run_reachable [OF reachable.start]] by (simp add: final_machine_def)

lemma final_machine_length [simp]: "length (snd (final_machine ivk sched trees)) = length trees"
  by (simp add: final_machine_def)

text \<open>Without a panicking predicate every task has a result, one per tree.\<close>

lemma final_results:
  assumes "\<And>t p. t \<in> set trees \<Longrightarrow> p \<in> set (tree_leaves t) \<Longrightarrow> ivk p \<noteq> None"
  obtains rs where "opt_list task_result (snd (final_machine ivk sched trees)) = Some rs"
    "list_all2 (\<lambda>t r. task_inv ivk (fst (final_machine ivk sched trees)) t (Finished r)) trees rs"
proof -
  let ?m = "final_machine ivk sched trees"
  have inv: "task_inv ivk (fst ?m) (trees ! j) (snd ?m ! j)" if "j < length trees" for j
    using final_machine_inv [of ivk trees sched] that by (auto simp: machine_inv_def list_all2_conv_all_nth)
  have fin: "\<exists>r. snd ?m ! j = Finished r" if "j < length trees" for j
  proof -
    have "\<not> task_inv ivk (fst ?m) (trees ! j) Panicked" using assms [OF nth_mem [OF that]] by force
    then show ?thesis using drained [OF final_machine_def that, of ivk sched] inv [OF that] by metis
  qed
  have "task_result k \<noteq> None" if "k \<in> set (snd ?m)" for k
  proof -
    from that obtain j where j: "j < length trees" "k = snd ?m ! j" by (auto simp: in_set_conv_nth)
    with fin [OF j(1)] show ?thesis by auto
  qed
  then have "opt_list task_result (snd ?m) \<noteq> None" unfolding opt_list_None_iff by blast
  then obtain rs where rs: "opt_list task_result (snd ?m) = Some rs" by auto
  then have nth: "length rs = length trees" "\<And>j. j < length trees \<Longrightarrow> task_result (snd ?m ! j) = Some (rs ! j)"
    by (auto simp: opt_list_Some_iff list_all2_conv_all_nth)
  have "task_inv ivk (fst ?m) (trees ! j) (Finished (rs ! j))" if j: "j < length trees" for j
  proof -
    obtain r where r: "snd ?m ! j = Finished r" using fin [OF j] by blast
    with nth(2) [OF j] have "r = rs ! j" by simp
    with inv [OF j] r show ?thesis by simp
  qed
  with rs nth(1) show ?thesis using that by (auto simp: list_all2_conv_all_nth)
qed

lemma parallel_invoke_eq:
  "context_to_vec w ctx = Inr c \<Longrightarrow>
   parallel_invoke_predicates w sched split ctx trees cache =
     map_option combined (opt_list task_result (snd (final_machine (\<lambda>p. invoke w c p cache) sched trees)))"
  by (simp add: parallel_invoke_predicates_def final_machine_def Let_def reduce_with_combined)

text \<open>Predicates that always answer: the flag stays down and every tree gets its truth value.\<close>

definition answered :: "(exec_error + bool) option \<Rightarrow> bool" where
  "answered r = (case r of Some (Inr _) \<Rightarrow> True | _ \<Rightarrow> False)"

lemma answered_iff: "answered r \<longleftrightarrow> (\<exists>b. r = Some (Inr b))"
  by (auto simp: answered_def split: option.splits sum.splits)

definition answers :: "invoker \<Rightarrow> expanded_tree list \<Rightarrow> bool" where
  "answers ivk trees = list_all (\<lambda>t. list_all (\<lambda>p. answered (ivk p)) (tree_leaves t)) trees"

definition accepts :: "invoker \<Rightarrow> expanded_predicate \<Rightarrow> bool" where
  "accepts ivk p = (ivk p = Some (Inr True))"

lemma answersD: "answers ivk trees \<Longrightarrow> t \<in> set trees \<Longrightarrow> p \<in> set (tree_leaves t) \<Longrightarrow> \<exists>b. ivk p = Some (Inr b)"
  unfolding answers_def list_all_iff answered_iff by blast

lemma finished_answers:
  assumes "task_inv ivk False t (Finished r)" "\<And>p. p \<in> set (tree_leaves t) \<Longrightarrow> \<exists>b. ivk p = Some (Inr b)"
  shows "is_ok r \<longleftrightarrow> tree_holds (accepts ivk) t"
proof -
  from assms(1) obtain os where os: "list_all2 (leaf_allowed ivk False) (tree_leaves t) os"
    and r: "r = discard (reduce_outcomes (tree_fill t os))" by auto
  let ?o = "\<lambda>p. if ivk p = Some (Inr True) then Inr p else Inl (Rejected p)"
  have "os = map ?o (tree_leaves t)"
    using os assms(2) by (intro nth_equalityI)
      (force simp: list_all2_conv_all_nth leaf_allowed_def)+
  then have fill: "tree_fill t os = tree_map ?o t" by (simp add: tree_fill_map)
  have "decided r'" if "r' \<in> set (tree_leaves (tree_map ?o t))" for r' using that by auto
  with reduce_decided [of "tree_map ?o t"] have "is_ok r \<longleftrightarrow> tree_holds is_ok (tree_map ?o t)" by (simp add: r fill)
  also have "\<dots> \<longleftrightarrow> tree_holds (accepts ivk) t"
    by (simp add: tree_holds_def) (rule tree_reduce_cong, simp add: accepts_def)
  finally show ?thesis .
qed

lemma parallel_answers:
  assumes "context_to_vec w ctx = Inr c" "answers (\<lambda>p. invoke w c p cache) trees"
  shows "\<exists>r. parallel_invoke_predicates w sched split ctx trees cache = Some r
    \<and> (is_ok r \<longleftrightarrow> list_all (tree_holds (accepts (\<lambda>p. invoke w c p cache))) trees)"
proof -
  let ?ivk = "\<lambda>p. invoke w c p cache"
  let ?m = "final_machine ?ivk sched trees"
  note ans = answersD [OF assms(2)]
  have "\<And>t p. t \<in> set trees \<Longrightarrow> p \<in> set (tree_leaves t) \<Longrightarrow> ?ivk p \<noteq> None" using ans by force
  then obtain rs where rs: "opt_list task_result (snd ?m) = Some rs"
    and inv: "list_all2 (\<lambda>t r. task_inv ?ivk (fst ?m) t (Finished r)) trees rs" by (rule final_results)
  have c: "\<not> fst ?m" using final_machine_inv [of ?ivk trees sched] ans
    by (auto simp: machine_inv_def crashes_def) fastforce
  have "is_ok (rs ! j) \<longleftrightarrow> tree_holds (accepts ?ivk) (trees ! j)" if "j < length trees" for j
  proof (rule finished_answers)
    show "task_inv ?ivk False (trees ! j) (Finished (rs ! j))" using list_all2_nthD [OF inv that] c by simp
  qed (use ans [OF nth_mem [OF that]] in blast)
  moreover have "length rs = length trees" using inv by (simp add: list_all2_lengthD)
  ultimately have "is_ok (combined rs) \<longleftrightarrow> list_all (tree_holds (accepts ?ivk)) trees"
    by (simp add: combined_ok list_all_length all_set_conv_all_nth)
  with rs show ?thesis by (simp add: parallel_invoke_eq [OF assms(1)])
qed

section \<open>Conjunctive trees\<close>

text \<open>In a tree without negation and disjunction no outcome can hide a crash.\<close>

fun conjunctive :: "'a expression_tree \<Rightarrow> bool" where
  "conjunctive (TId p) = True"
| "conjunctive (TNot t) = False"
| "conjunctive (TAnd l r) = (conjunctive l \<and> conjunctive r)"
| "conjunctive (TOr l r) = False"

definition proper :: "exec_error + 'a \<Rightarrow> bool" where
  "proper r = (\<exists>e. r = Inl e \<and> e \<noteq> Cancelled)"

lemma proper_simps [simp]: "\<not> proper (Inr x)" "proper (Inl e) \<longleftrightarrow> e \<noteq> Cancelled"
  by (simp_all add: proper_def)

lemma proper_and: "proper (and_outcome a b) \<longleftrightarrow> proper a \<or> proper b"
  by (cases a; cases b) auto

lemma proper_foldl: "proper (foldl and_outcome r rs) \<longleftrightarrow> (\<exists>x \<in> set (r # rs). proper x)"
  by (induction rs arbitrary: r) (auto simp: proper_and)

lemma and_outcome_mem: "and_outcome a b = Inl e \<Longrightarrow> a = Inl e \<or> b = Inl e"
  by (cases a; cases b) (auto split: if_splits)

lemma foldl_and_mem: "foldl and_outcome r rs = Inl e \<Longrightarrow> Inl e \<in> set (r # rs)"
proof (induction rs arbitrary: r)
  case (Cons a rs)
  then show ?case using and_outcome_mem [of r a e] by fastforce
qed simp

lemma combined_proper: "proper (combined rs) \<longleftrightarrow> (\<exists>x \<in> set rs. proper x)"
  unfolding combined_def by (cases rs) (simp_all add: proper_foldl del: set_simps, simp)

lemma combined_mem: "combined rs = Inl e \<Longrightarrow> Inl e \<in> set rs"
  by (cases rs) (auto simp: combined_def dest: foldl_and_mem)

lemma conjunctive_fill: "conjunctive t \<Longrightarrow> conjunctive (tree_fill t os)"
  by (induction t arbitrary: os) (auto simp: Let_def)

lemma reduce_conjunctive:
  "conjunctive t \<Longrightarrow> reduce_outcomes t = foldl and_outcome (hd (tree_leaves t)) (tl (tree_leaves t))"
proof (induction t)
  case (TAnd l r)
  obtain a as b bs where "tree_leaves l = a # as" "tree_leaves r = b # bs"
    by (metis list.exhaust tree_leaves_nonempty)
  with TAnd show ?case by (simp add: and_red.foldl_op)
qed auto

lemma conjunctive_result:
  assumes "conjunctive t" "length os = length (tree_leaves t)"
  defines "r \<equiv> discard (reduce_outcomes (tree_fill t os))"
  shows "(proper r \<longleftrightarrow> (\<exists>x \<in> set os. proper x)) \<and> (r = Inl e \<longrightarrow> Inl e \<in> set os)
    \<and> (is_ok r \<longleftrightarrow> (\<forall>x \<in> set os. is_ok x))"
proof -
  have "os \<noteq> []" using assms(2) by auto
  then obtain x xs where os: "os = x # xs" by (cases os) auto
  have red: "reduce_outcomes (tree_fill t os) = foldl and_outcome x xs"
    using reduce_conjunctive [OF conjunctive_fill [OF assms(1)]] assms(2) os by simp
  have "proper r \<longleftrightarrow> proper (foldl and_outcome x xs)" by (auto simp: r_def red proper_def)
  moreover have "r = Inl e \<Longrightarrow> Inl e \<in> set os" using foldl_and_mem [of x xs e] by (simp add: r_def red flip: os)
  moreover have "is_ok r \<longleftrightarrow> (\<forall>x \<in> set os. is_ok x)" by (simp add: r_def red foldl_and_ok) (simp add: os)
  ultimately show ?thesis by (simp add: proper_foldl os)
qed

text \<open>A raised flag is backed by a task that has recorded a real failure.\<close>

fun recorded :: "task \<Rightarrow> bool" where
  "recorded (Running t outc b) = (\<exists>r \<in> set outc. proper r)"
| "recorded (Finished r) = proper r"
| "recorded _ = False"

definition no_panic :: "invoker \<Rightarrow> expanded_tree list \<Rightarrow> bool" where
  "no_panic ivk trees = list_all (\<lambda>t. list_all (\<lambda>p. ivk p \<noteq> None \<and> ivk p \<noteq> Some (Inl Cancelled)) (tree_leaves t)) trees"

lemma no_panicD:
  "no_panic ivk trees \<Longrightarrow> t \<in> set trees \<Longrightarrow> p \<in> set (tree_leaves t) \<Longrightarrow> ivk p \<noteq> None \<and> ivk p \<noteq> Some (Inl Cancelled)"
  by (auto simp: no_panic_def list_all_iff)

lemma recorded_step:
  assumes "task_inv ivk c t k" "conjunctive t" "\<And>p. p \<in> set (tree_leaves t) \<Longrightarrow> ivk p \<noteq> None \<and> ivk p \<noteq> Some (Inl Cancelled)"
  shows "recorded k \<or> (fst (task_step ivk c k) \<and> \<not> c) \<Longrightarrow> recorded (snd (task_step ivk c k))"
proof (cases k)
  case (Running t' outc b)
  assume *: "recorded k \<or> (fst (task_step ivk c k) \<and> \<not> c)"
  have t: "t' = t" and len: "length outc \<le> length (tree_leaves t)" using assms(1) Running by auto
  show ?thesis
  proof (cases b)
    case True
    let ?p = "tree_leaves t ! length outc"
    have "?p \<in> set (tree_leaves t)" using assms(1) Running True by auto
    note p = assms(3) [OF this]
    show ?thesis using * p by (cases rule: invocation_cases [of "ivk ?p"]) (auto simp: Running True t)
  next
    case False
    then show ?thesis using * len conjunctive_result [OF assms(2), of outc] by (auto simp: Running t)
  qed
qed (use assms in \<open>auto split: if_splits\<close>)

lemma reachable_recorded:
  assumes "reachable ivk trees m" "list_all conjunctive trees" "no_panic ivk trees"
  shows "fst m \<longrightarrow> (\<exists>k \<in> set (snd m). recorded k)"
  using assms(1)
proof (induction rule: reachable.induct)
  case (step m i)
  show ?case
  proof (cases "i < length (snd m)")
    case True
    obtain c k where s: "task_step ivk (fst m) (snd m ! i) = (c, k)" by (cases "task_step ivk (fst m) (snd m ! i)")
    have inv: "task_inv ivk (fst m) (trees ! i) (snd m ! i)" and i: "i < length trees"
      using reachable_inv [OF step.hyps] True by (auto simp: machine_inv_def list_all2_conv_all_nth)
    have rec: "recorded (snd m ! i) \<or> (c \<and> \<not> fst m) \<Longrightarrow> recorded k"
      using recorded_step [OF inv] s no_panicD [OF assms(3) nth_mem [OF i]] assms(2) i by (auto simp: list_all_length)
    have out: "snd (machine_step ivk i m) = (snd m)[i := k]" "fst (machine_step ivk i m) = c"
      using True s by (simp_all add: machine_step_def)
    have "\<exists>x \<in> set ((snd m)[i := k]). recorded x" if c
    proof (cases "fst m")
      case False
      then show ?thesis using rec that True by (auto intro: bexI [OF _ set_update_memI])
    next
      case m: True
      then obtain j where j: "j < length (snd m)" "recorded (snd m ! j)" using step.IH by (auto simp: in_set_conv_nth)
      show ?thesis
      proof (cases "j = i")
        case True
        then show ?thesis using rec j by (auto intro: bexI [OF _ set_update_memI])
      next
        case False
        then have "(snd m)[i := k] ! j = snd m ! j" by simp
        then show ?thesis using j by (metis length_list_update nth_mem)
      qed
    qed
    then show ?thesis by (simp add: out)
  qed (use step.IH in \<open>simp add: machine_step_def\<close>)
qed simp

lemma parallel_conjunctive:
  assumes enc: "context_to_vec w ctx = Inr c" and conj: "list_all conjunctive trees"
    and np: "no_panic (\<lambda>p. invoke w c p cache) trees"
  shows "\<exists>r. parallel_invoke_predicates w sched split ctx trees cache = Some r
    \<and> (is_ok r \<longleftrightarrow> (\<forall>t \<in> set trees. \<forall>p \<in> set (tree_leaves t). invoke w c p cache = Some (Inr True)))
    \<and> (\<forall>e. r = Inl e \<longrightarrow> (\<exists>t \<in> set trees. \<exists>p \<in> set (tree_leaves t).
          (invoke w c p cache = Some (Inr False) \<and> e = Rejected p) \<or> invoke w c p cache = Some (Inl e)))"
proof -
  let ?ivk = "\<lambda>p. invoke w c p cache"
  let ?m = "final_machine ?ivk sched trees"
  have "\<And>t p. t \<in> set trees \<Longrightarrow> p \<in> set (tree_leaves t) \<Longrightarrow> ?ivk p \<noteq> None" using no_panicD [OF np] by blast
  then obtain rs where rs: "opt_list task_result (snd ?m) = Some rs"
    and inv: "list_all2 (\<lambda>t r. task_inv ?ivk (fst ?m) t (Finished r)) trees rs" by (rule final_results)
  have reach: "reachable ?ivk trees ?m"
    by (simp add: final_machine_def machine_run_reachable [OF reachable.start])
  have flag: "\<exists>x \<in> set rs. proper x" if "fst ?m"
  proof -
    from reachable_recorded [OF reach conj np] that obtain j where j: "j < length trees" "recorded (snd ?m ! j)"
      by (auto simp: in_set_conv_nth)
    have nth: "j < length rs" "task_result (snd ?m ! j) = Some (rs ! j)"
      using rs j(1) by (auto simp: opt_list_Some_iff list_all2_conv_all_nth)
    then have "snd ?m ! j = Finished (rs ! j)" by (cases "snd ?m ! j") auto
    with j(2) nth(1) show ?thesis by auto
  qed
  have task: "(x \<noteq> Inl Cancelled \<or> \<not> fst ?m) \<Longrightarrow> \<exists>os. list_all2 (leaf_allowed ?ivk (fst ?m)) (tree_leaves t) os
      \<and> x = discard (reduce_outcomes (tree_fill t os)) \<and> conjunctive t" if "(t, x) \<in> set (zip trees rs)" for t x
    using inv conj that by (fastforce simp: list_all2_iff list_all_iff dest: set_zip_leftD)
  have len: "length trees = length rs" using inv by (rule list_all2_lengthD)
  have "\<exists>t \<in> set trees. \<exists>p \<in> set (tree_leaves t). (?ivk p = Some (Inr False) \<and> e = Rejected p) \<or> ?ivk p = Some (Inl e)"
    if e: "combined rs = Inl e" for e
  proof -
    have ne: "Inl e \<noteq> (Inl Cancelled :: exec_error + unit) \<or> \<not> fst ?m"
      using flag combined_proper [of rs] e by (cases "e = Cancelled") auto
    obtain j where j: "j < length rs" "rs ! j = Inl e" using combined_mem [OF e] by (auto simp: in_set_conv_nth)
    then have zip: "(trees ! j, Inl e) \<in> set (zip trees rs)" using len by (auto simp: in_set_zip)
    from task [OF zip ne] obtain os where os: "list_all2 (leaf_allowed ?ivk (fst ?m)) (tree_leaves (trees ! j)) os"
      "Inl e = discard (reduce_outcomes (tree_fill (trees ! j) os))" "conjunctive (trees ! j)" by blast
    from conjunctive_result [OF os(3) list_all2_lengthD [OF os(1), symmetric], of e] os(2)
    obtain i where i: "i < length os" "os ! i = Inl e" by (metis in_set_conv_nth)
    then have p: "tree_leaves (trees ! j) ! i \<in> set (tree_leaves (trees ! j))" "trees ! j \<in> set trees"
      and "leaf_allowed ?ivk (fst ?m) (tree_leaves (trees ! j) ! i) (Inl e)"
      using os(1) j(1) len by (auto simp: list_all2_conv_all_nth)
    with ne show ?thesis by (fastforce simp: leaf_allowed_def)
  qed
  moreover have "?ivk p = Some (Inr True)" if ok: "is_ok (combined rs)" and t: "t \<in> set trees" and p: "p \<in> set (tree_leaves t)" for t p
  proof -
    obtain j where j: "j < length trees" "trees ! j = t" using t by (auto simp: in_set_conv_nth)
    then have "is_ok (rs ! j)" "(t, rs ! j) \<in> set (zip trees rs)" using ok len by (auto simp: combined_ok in_set_zip)
    moreover from this(1) have "rs ! j \<noteq> Inl Cancelled" by auto
    ultimately obtain os where os: "list_all2 (leaf_allowed ?ivk (fst ?m)) (tree_leaves t) os"
      "rs ! j = discard (reduce_outcomes (tree_fill t os))" "conjunctive t" using task by blast
    with \<open>is_ok (rs ! j)\<close> conjunctive_result [OF os(3) list_all2_lengthD [OF os(1), symmetric]]
    have ok': "\<forall>x \<in> set os. is_ok x" by simp
    obtain i where i: "i < length os" "tree_leaves t ! i = p" using p os(1) by (auto simp: in_set_conv_nth list_all2_conv_all_nth)
    then have "leaf_allowed ?ivk (fst ?m) p (os ! i)" "is_ok (os ! i)" using os(1) ok' by (auto simp: list_all2_conv_all_nth)
    then show ?thesis by (auto simp: leaf_allowed_def)
  qed
  moreover have "is_ok (combined rs)" if all: "\<forall>t \<in> set trees. \<forall>p \<in> set (tree_leaves t). ?ivk p = Some (Inr True)"
  proof (rule ccontr)
    assume "\<not> is_ok (combined rs)"
    then obtain e where "combined rs = Inl e" by (cases "combined rs") auto
    from calculation(1) [OF this] all show False by fastforce
  qed
  ultimately show ?thesis using rs by (auto simp: parallel_invoke_eq [OF enc])
qed

section \<open>Invocation\<close>

text \<open>What the cache key relies on: base58 of a digest is a non-empty alphanumeric string.\<close>

definition bs58_alphanumeric :: "('m, 'i, 'f, 's) wasm_env \<Rightarrow> bool" where
  "bs58_alphanumeric w = (\<forall>b. bs58_encode w (code_digest w b) \<noteq> []
     \<and> list_all is_ascii_alphanumeric (bs58_encode w (code_digest w b)))"

lemma predcache_path_valid:
  assumes "bs58_alphanumeric w"
  shows "address_new (predcache_path w code) = Inr (Address (predcache_path w code))"
proof -
  let ?k = "bs58_encode w (code_digest w code)"
  have "list_all segment_char ?k" using assms
    by (auto simp: bs58_alphanumeric_def segment_char_def list_all_iff)
  moreover have "segment_ok ''predcache''" by code_simp
  ultimately have "valid_segments [''predcache'', ?k]" using assms
    by (simp add: bs58_alphanumeric_def valid_segments_def segment_ok_def)
  moreover have "predcache_path w code = join_path [''predcache'', ?k]"
    by (simp add: predcache_path_def join_path_def)
  ultimately have "\<exists>segs. valid_segments segs \<and> predcache_path w code = join_path segs" by blast
  then show ?thesis unfolding address_new_Inr_iff by (intro conjI refl)
qed

lemma invoke_total: "bs58_alphanumeric w \<Longrightarrow> invoke w ctx p cache \<noteq> None"
  by (simp add: invoke_def predcache_path_valid)

lemma map_err_Inl [simp]: "map_err f r = Inl x \<longleftrightarrow> (\<exists>e. r = Inl e \<and> x = f e)"
  by (cases r) (auto simp: map_err_def)

lemma invoke_not_cancelled: "invoke w ctx p cache \<noteq> Some (Inl Cancelled)"
  by (auto simp: invoke_def load_module_def run_module_def split: sum.splits option.splits if_splits)

lemma invoke_no_panic: "bs58_alphanumeric w \<Longrightarrow> no_panic (\<lambda>p. invoke w c p cache) trees"
  by (simp add: no_panic_def list_all_iff invoke_total invoke_not_cancelled)

section \<open>What a transaction has to satisfy\<close>

definition guard_trees :: "state_view \<Rightarrow> predicate_context \<Rightarrow> transaction \<Rightarrow> (collect_error + expanded_tree) list" where
  "guard_trees state ctx tx =
     concat (map (\<lambda>a. case state a of None \<Rightarrow> []
               | Some acc \<Rightarrow> [expand_predicate_tree state (acc_predicates acc) ctx (merged_calldata ctx)])
       (guard_addresses (bt_keys (tx_proposals tx))))
     @ map (\<lambda>i. expand_predicate_tree state (expectations i) ctx (intent_calldata i)) (tx_intents tx)"

definition required_trees :: "state_view \<Rightarrow> predicate_context \<Rightarrow> transaction \<Rightarrow> expanded_tree list" where
  "required_trees state ctx tx = map projr (filter is_ok (guard_trees state ctx tx))"

lemma required_trees_set: "set (required_trees state ctx tx) = {t. Inr t \<in> set (guard_trees state ctx tx)}"
  unfolding required_trees_def by (force simp: is_ok_iff)

lemma guard_trees_Inr:
  "r \<in> set (guard_trees state ctx tx) \<longleftrightarrow>
     (\<exists>a acc. a \<in> set (guard_addresses (bt_keys (tx_proposals tx))) \<and> state a = Some acc
        \<and> expand_predicate_tree state (acc_predicates acc) ctx (merged_calldata ctx) = r)
     \<or> (\<exists>i \<in> set (tx_intents tx). expand_predicate_tree state (expectations i) ctx (intent_calldata i) = r)"
  unfolding guard_trees_def by (force split: option.splits)

lemma collected_trees:
  assumes "valid_proposals tx" "\<And>out. mset (order out) = mset out"
  shows "if list_all is_ok (guard_trees state ctx tx)
    then \<exists>ats its. accounts_predicates order state ctx tx = Some (Inr ats) \<and> intents_predicates state ctx tx = Inr its
           \<and> set (ats @ its) = set (required_trees state ctx tx)
    else (\<exists>e. accounts_predicates order state ctx tx = Some (Inl e))
       \<or> (\<exists>ats e. accounts_predicates order state ctx tx = Some (Inr ats) \<and> intents_predicates state ctx tx = Inl e)"
proof -
  let ?e = "\<lambda>i. expand_predicate_tree state (expectations i) ctx (intent_calldata i)"
  let ?G = "\<forall>a acc. a \<in> set (guard_addresses (bt_keys (tx_proposals tx))) \<longrightarrow> state a = Some acc
      \<longrightarrow> is_ok (expand_predicate_tree state (acc_predicates acc) ctx (merged_calldata ctx))"
  from accounts_predicates_ok_iff [OF assms(1), of order state ctx] obtain r where
    r: "accounts_predicates order state ctx tx = Some r" "is_ok r \<longleftrightarrow> ?G" by blast
  have all: "list_all is_ok (guard_trees state ctx tx) \<longleftrightarrow> ?G \<and> (\<forall>i \<in> set (tx_intents tx). is_ok (?e i))"
    unfolding list_all_iff Ball_def guard_trees_Inr by blast
  have its: "set its = {t. \<exists>i \<in> set (tx_intents tx). ?e i = Inr t}" "\<forall>i \<in> set (tx_intents tx). is_ok (?e i)"
    if "intents_predicates state ctx tx = Inr its" for its
    using try_list_Inr_set [OF that [unfolded intents_predicates_def]] by simp_all
  have itx: "\<exists>i \<in> set (tx_intents tx). \<not> is_ok (?e i)" if "intents_predicates state ctx tx = Inl e" for e
    using that unfolding intents_predicates_def try_list_Inl_iff by force
  show ?thesis
  proof (cases r)
    case (Inl e)
    then show ?thesis using r all by auto
  next
    case (Inr ats)
    note ats = accounts_predicates_trees [OF assms r(1) [unfolded Inr]]
    show ?thesis
    proof (cases "intents_predicates state ctx tx")
      case (Inl e)
      then show ?thesis using itx [OF Inl] r Inr all by auto
    next
      case I: (Inr intent_trees)
      have "set (ats @ intent_trees) = set (required_trees state ctx tx)"
        unfolding set_append ats its(1) [OF I] required_trees_set guard_trees_Inr by blast
      moreover have "list_all is_ok (guard_trees state ctx tx)" using its(2) [OF I] r(2) Inr all by simp
      ultimately show ?thesis using r(1) Inr I by auto
    qed
  qed
qed

lemma execute_total:
  assumes "bs58_alphanumeric w" "valid_proposals tx"
  shows "\<exists>r. execute w env order sched split tx state cache = Some r"
proof -
  have "\<exists>r. parallel_invoke_predicates w sched split ctx trees cache = Some r" for ctx trees
  proof (cases "context_to_vec w ctx")
    case (Inr c)
    obtain rs where "opt_list task_result (snd (final_machine (\<lambda>p. invoke w c p cache) sched trees)) = Some rs"
      using final_results [of trees "\<lambda>p. invoke w c p cache" sched] invoke_total [OF assms(1)] by metis
    then show ?thesis by (simp add: parallel_invoke_eq [OF Inr])
  qed (simp add: parallel_invoke_predicates_def)
  moreover obtain r where "\<And>ctx. accounts_predicates order state ctx tx = Some (r ctx)"
    using accounts_predicates_ok_iff [OF assms(2), of order state] by metis
  ultimately show ?thesis by (auto simp: execute_def split: sum.splits)
qed

text \<open>When the predicates answer, acceptance is truth of the triggered trees.\<close>

lemma execute_answered_iff:
  assumes "valid_proposals tx" "\<And>out. mset (order out) = mset out"
    "predicate_context_of env state tx = Inr ctx" "context_to_vec w ctx = Inr c"
    "answers (\<lambda>p. invoke w c p cache) (required_trees state ctx tx)"
  shows "execute w env order sched split tx state cache = Some (Inr d) \<longleftrightarrow>
    outputs state tx = Inr d \<and> list_all is_ok (guard_trees state ctx tx)
    \<and> list_all (tree_holds (accepts (\<lambda>p. invoke w c p cache))) (required_trees state ctx tx)"
proof (cases "list_all is_ok (guard_trees state ctx tx)")
  case True
  with collected_trees [OF assms(1,2), of state ctx] obtain ats its where
    a: "accounts_predicates order state ctx tx = Some (Inr ats)" and i: "intents_predicates state ctx tx = Inr its"
    and set: "set (ats @ its) = set (required_trees state ctx tx)" by auto
  have "answers (\<lambda>p. invoke w c p cache) (ats @ its)" using assms(5) unfolding answers_def list_all_iff set .
  from parallel_answers [OF assms(4) this, of sched split] obtain r where
    r: "parallel_invoke_predicates w sched split ctx (ats @ its) cache = Some r"
    "is_ok r \<longleftrightarrow> list_all (tree_holds (accepts (\<lambda>p. invoke w c p cache))) (required_trees state ctx tx)"
    unfolding list_all_iff set by blast
  show ?thesis using True r(2) by (cases r; cases "outputs state tx") (auto simp: execute_def assms(3) a i r(1))
next
  case False
  with collected_trees [OF assms(1,2), of state ctx] show ?thesis
    by (auto simp: execute_def assms(3) split: sum.splits)
qed

definition sample_wasm :: "(bytes, bytes, bytes, unit) wasm_env" where
  "sample_wasm = \<lparr>code_digest = (\<lambda>b. b), bs58_encode = (\<lambda>_. ''x''), params_to_vec = (\<lambda>_. Inr []),
     context_to_vec = (\<lambda>_. Inr []), module_deserialize = (\<lambda>_. None), module_from_binary = (\<lambda>b. Inr b),
     memory_new = (\<lambda>_. Inr ()), instance_new = (\<lambda>m s. Inr (m, s)), typed_function = (\<lambda>i _. Inr i),
     call_allocate = (\<lambda>_ _ s. Inr (0, s)), memory_write = (\<lambda>_ _ s. Inr s),
     call_ingest = (\<lambda>_ _ _ s. Inr (0, s)),
     call_entrypoint = (\<lambda>f _ _ s. Inr (case f of [] \<Rightarrow> 1 | b # _ \<Rightarrow> ucast b, s))\<rparr>"

definition sample_pred :: "bytes \<Rightarrow> expanded_predicate" where
  "sample_pred b = \<lparr>pred_code = \<lparr>xcode = b, entrypoint = ''invoke''\<rparr>, pred_params = []\<rparr>"

lemma sample_wasm_ok: "bs58_alphanumeric sample_wasm"
proof -
  have "list_all is_ascii_alphanumeric ''x''" by code_simp
  then show ?thesis by (simp add: bs58_alphanumeric_def sample_wasm_def)
qed

lemma sample_run:
  "invoke sample_wasm c (sample_pred b) cache = Some (run_module sample_wasm c (sample_pred b) b)"
proof -
  have "load_module sample_wasm (sample_pred b) cache k = Inr b" for k
    by (auto simp: load_module_def sample_wasm_def sample_pred_def map_err_def split: option.splits)
  then show ?thesis by (simp add: invoke_def predcache_path_valid [OF sample_wasm_ok])
qed

lemma sample_invoke:
  "invoke sample_wasm c (sample_pred []) cache = Some (Inr True)"
  "invoke sample_wasm c (sample_pred [0]) cache = Some (Inr False)"
  "invoke sample_wasm c (sample_pred [2]) cache = Some (Inl (InvalidReturnValue 2))"
  unfolding sample_run
  by (simp_all add: run_module_def deliver_data_def sample_pred_def sample_wasm_def map_err_def Let_def)

lemma sample_required:
  "required_trees sample_state sample_context sample_tx = [TId (sample_pred []), TId (sample_pred [])]"
  "list_all is_ok (guard_trees sample_state sample_context sample_tx)"
  unfolding required_trees_def guard_trees_def sample_guards by code_simp+

lemma sample_answers:
  "answers (\<lambda>p. invoke sample_wasm c p cache) (required_trees sample_state sample_context sample_tx)"
  by (simp add: sample_required answers_def sample_invoke answered_def)

section \<open>Properties\<close>



text \<open>C15. When every triggered tree is a conjunction, a run returns \<open>Ok\<close> exactly when every predicate
  returned true; otherwise the reported error is a genuine one, the rejection or the crash of one of
  the predicates, and never the \<open>Cancelled\<close> placeholder, whatever the interleaving.\<close>

theorem conjunctive_failure_reason:
  assumes "bs58_alphanumeric w" "context_to_vec w ctx = Inr c" "list_all conjunctive trees"
  shows "\<exists>r. parallel_invoke_predicates w sched split ctx trees cache = Some r
    \<and> (is_ok r \<longleftrightarrow> (\<forall>t \<in> set trees. \<forall>p \<in> set (tree_leaves t). invoke w c p cache = Some (Inr True)))
    \<and> (\<forall>e. r = Inl e \<longrightarrow> (\<exists>t \<in> set trees. \<exists>p \<in> set (tree_leaves t).
          (invoke w c p cache = Some (Inr False) \<and> e = Rejected p) \<or> invoke w c p cache = Some (Inl e)))"
  using parallel_conjunctive [OF assms(2,3) invoke_no_panic [OF assms(1)]] .

theorem conjunctive_failure_reason_witness:
  "\<exists>e. parallel_invoke_predicates sample_wasm [1, 1, 1, 0] (\<lambda>_ _. 1) sample_context
      [TAnd (TId (sample_pred [])) (TId (sample_pred [])), TId (sample_pred [2])] (\<lambda>_. None) = Some (Inl e)
     \<and> e = InvalidReturnValue 2"
proof -
  let ?trees = "[TAnd (TId (sample_pred [])) (TId (sample_pred [])), TId (sample_pred [2])]"
  have enc: "context_to_vec sample_wasm sample_context = Inr []" by (simp add: sample_wasm_def)
  have "list_all conjunctive ?trees" by simp
  from conjunctive_failure_reason [OF sample_wasm_ok enc this, of "[1, 1, 1, 0]" "\<lambda>_ _. 1" "\<lambda>_. None"]
  obtain r where "parallel_invoke_predicates sample_wasm [1, 1, 1, 0] (\<lambda>_ _. 1) sample_context ?trees (\<lambda>_. None) = Some r"
    "\<not> is_ok r" "\<forall>e. r = Inl e \<longrightarrow> e = InvalidReturnValue 2" by (auto simp: sample_invoke)
  then show ?thesis by (cases r) auto
qed



text \<open>A crash can be hidden: a tree \<open>Or(accept, And(reject, crash))\<close> is accepted, and so is
  \<open>Not(And(reject, crash))\<close>, although the documentation of \<open>parallel_invoke_predicates\<close> promises that
  the run fails when a predicate crashes.\<close>

lemma crash_masked:
  assumes "context_to_vec w ctx = Inr c" "invoke w c a cache = Some (Inr True)"
    "invoke w c r cache = Some (Inr False)" "invoke w c k cache = Some (Inl e)"
  shows "parallel_invoke_predicates w [] split ctx [TOr (TId a) (TAnd (TId r) (TId k))] cache = Some (Inr ())
    \<and> parallel_invoke_predicates w [] split ctx [TNot (TAnd (TId r) (TId k))] cache = Some (Inr ())"
  by (simp add: parallel_invoke_predicates_def assms drain_def machine_run_def machine_step_def
      numeral_nat discard_def)

lemma crash_masked_example:
  "parallel_invoke_predicates sample_wasm [] (\<lambda>_ _. 0) sample_context
     [TOr (TId (sample_pred [])) (TAnd (TId (sample_pred [0])) (TId (sample_pred [2])))] (\<lambda>_. None) = Some (Inr ())"
proof -
  have enc: "context_to_vec sample_wasm sample_context = Inr []" by (simp add: sample_wasm_def)
  from crash_masked [OF enc sample_invoke(1,2,3)] show ?thesis by blast
qed

end
