(* ===== verification/Verdict.thy ===== *)
theory Verdict
  imports Execution
begin

text \<open>
  What the verdict of \<open>vm/src/execution.rs\<close> is worth when predicates crash.  A crash raises the shared
  flag, and leaves that have not been reached yet get the outcome \<open>Cancelled\<close> instead of being
  evaluated.  For trees without negation an acceptance still means that every tree holds, whatever
  crashed and however the tasks were interleaved; with negation it does not.
\<close>

section \<open>Soundness without negation\<close>

lemma or_outcome_ok: "is_ok (or_outcome a b) \<Longrightarrow> is_ok a \<or> is_ok b"
  by (cases a; cases b) (auto simp: or_outcome_def split: if_splits)

lemma reduce_negation_free:
  assumes "negation_free t" "list_all2 (leaf_allowed ivk c) (tree_leaves t) outc"
    "is_ok (reduce_outcomes (tree_fill t outc))"
  shows "tree_holds (accepts ivk) t"
  using assms
proof (induction t arbitrary: outc)
  case (TId p)
  then show ?case by (auto simp: list_all2_Cons1 leaf_allowed_def accepts_def)
next
  case (TAnd l r)
  let ?n = "length (tree_leaves l)"
  from TAnd.prems(2) have "list_all2 (leaf_allowed ivk c) (tree_leaves l) (take ?n outc)"
    "list_all2 (leaf_allowed ivk c) (tree_leaves r) (drop ?n outc)"
    by (auto simp: list_all2_append1)
  with TAnd show ?case by (auto simp: Let_def and_outcome_ok)
next
  case (TOr l r)
  let ?n = "length (tree_leaves l)"
  from TOr.prems(2) have "list_all2 (leaf_allowed ivk c) (tree_leaves l) (take ?n outc)"
    "list_all2 (leaf_allowed ivk c) (tree_leaves r) (drop ?n outc)"
    by (auto simp: list_all2_append1)
  with TOr show ?case by (auto simp: Let_def dest!: or_outcome_ok)
qed simp

lemma parallel_sound:
  assumes "context_to_vec w ctx = Inr c"
    "parallel_invoke_predicates w sched split ctx trees cache = Some (Inr u)"
    "t \<in> set trees" "negation_free t"
  shows "tree_holds (accepts (\<lambda>p. invoke w c p cache)) t"
proof -
  let ?ivk = "\<lambda>p. invoke w c p cache"
  let ?m = "final_machine ?ivk sched trees"
  from assms(2) obtain rs where rs: "opt_list task_result (snd ?m) = Some rs" and ok: "combined rs = Inr u"
    by (auto simp: parallel_invoke_eq [OF assms(1)])
  from assms(3) obtain j where j: "j < length trees" "t = trees ! j" by (auto simp: in_set_conv_nth)
  from rs have len: "length rs = length trees" and res: "task_result (snd ?m ! j) = Some (rs ! j)"
    using j(1) by (auto simp: opt_list_Some_iff list_all2_conv_all_nth)
  have "is_ok (combined rs)" using ok by simp
  then have okj: "is_ok (rs ! j)" using len j(1) by (auto simp: combined_ok)
  from res have "snd ?m ! j = Finished (rs ! j)" by (cases "snd ?m ! j") auto
  moreover have "task_inv ?ivk (fst ?m) t (snd ?m ! j)"
    using final_machine_inv [of ?ivk trees sched] j by (auto simp: machine_inv_def list_all2_conv_all_nth)
  ultimately obtain outc where "list_all2 (leaf_allowed ?ivk (fst ?m)) (tree_leaves t) outc"
    "is_ok (reduce_outcomes (tree_fill t outc))" using okj by auto
  then show ?thesis by (rule reduce_negation_free [OF assms(4)])
qed

text \<open>What an accepted transaction has passed: the elimination rule of \<open>execute\<close>.\<close>

lemma execute_acceptedE:
  assumes "execute w env order sched split tx state cache = Some (Inr d)" "valid_proposals tx"
    "\<And>out. mset (order out) = mset out"
  obtains ctx c where "predicate_context_of env state tx = Inr ctx" "context_to_vec w ctx = Inr c"
    "outputs state tx = Inr d" "list_all is_ok (guard_trees state ctx tx)"
    "\<And>t. t \<in> set (required_trees state ctx tx) \<Longrightarrow> negation_free t
       \<Longrightarrow> tree_holds (accepts (\<lambda>p. invoke w c p cache)) t"
proof -
  from assms(1) obtain ctx ats its where o: "outputs state tx = Inr d" "predicate_context_of env state tx = Inr ctx"
    and ai: "accounts_predicates order state ctx tx = Some (Inr ats)" "intents_predicates state ctx tx = Inr its"
    and p: "parallel_invoke_predicates w sched split ctx (ats @ its) cache = Some (Inr ())"
    by (auto simp: execute_def split: sum.splits option.splits)
  from p obtain c where c: "context_to_vec w ctx = Inr c"
    by (auto simp: parallel_invoke_predicates_def split: sum.splits)
  have g: "list_all is_ok (guard_trees state ctx tx)"
    using collected_trees [OF assms(2,3), of state ctx] ai by (auto split: if_splits)
  have "set (ats @ its) = set (required_trees state ctx tx)"
    using collected_trees [OF assms(2,3), of state ctx] ai g by auto
  then have "tree_holds (accepts (\<lambda>p. invoke w c p cache)) t"
    if "t \<in> set (required_trees state ctx tx)" "negation_free t" for t
    using parallel_sound [OF c p _ that(2)] that(1) by blast
  with o c g show ?thesis using that by blast
qed

lemma tree_try_map_negation_free: "tree_try_map f t = Inr t' \<Longrightarrow> negation_free t' \<longleftrightarrow> negation_free t"
  by (induction t arbitrary: t') auto

text \<open>The tree of an account a transaction touches, at the address or below it, has been evaluated.\<close>

lemma account_tree_required:
  assumes "list_all is_ok (guard_trees state ctx tx)"
    "a \<in> set (guard_addresses (bt_keys (tx_proposals tx)))" "state a = Some acc"
  obtains t where "expand_predicate_tree state (acc_predicates acc) ctx (merged_calldata ctx) = Inr t"
    "t \<in> set (required_trees state ctx tx)"
proof -
  let ?r = "expand_predicate_tree state (acc_predicates acc) ctx (merged_calldata ctx)"
  have r: "?r \<in> set (guard_trees state ctx tx)" unfolding guard_trees_Inr using assms(2,3) by blast
  with assms(1) obtain t where "?r = Inr t" by (auto simp: list_all_iff is_ok_iff)
  with r show ?thesis using that [of t] by (simp add: required_trees_set)
qed

lemma intent_tree_required:
  assumes "list_all is_ok (guard_trees state ctx tx)" "i \<in> set (tx_intents tx)"
  obtains t where "expand_predicate_tree state (expectations i) ctx (intent_calldata i) = Inr t"
    "t \<in> set (required_trees state ctx tx)"
proof -
  let ?r = "expand_predicate_tree state (expectations i) ctx (intent_calldata i)"
  have r: "?r \<in> set (guard_trees state ctx tx)" unfolding guard_trees_Inr using assms(2) by blast
  with assms(1) obtain t where "?r = Inr t" by (auto simp: list_all_iff is_ok_iff)
  with r show ?thesis using that [of t] by (simp add: required_trees_set)
qed

section \<open>Properties\<close>

text \<open>C2. Soundness of acceptance, crashes included: whatever predicates crash, whichever tasks they
  cancel and however the tasks are interleaved, an accepted transaction yields the diff \<open>outputs\<close>
  describes, all its guards could be expanded, and every guard without negation evaluates to true.\<close>

theorem execute_accepted_sound:
  assumes "execute w env order sched split tx state cache = Some (Inr d)" "valid_proposals tx"
    "\<And>out. mset (order out) = mset out"
  shows "\<exists>ctx c. predicate_context_of env state tx = Inr ctx \<and> context_to_vec w ctx = Inr c
    \<and> outputs state tx = Inr d \<and> list_all is_ok (guard_trees state ctx tx)
    \<and> (\<forall>t \<in> set (required_trees state ctx tx). negation_free t
          \<longrightarrow> tree_holds (accepts (\<lambda>p. invoke w c p cache)) t)"
  by (rule execute_acceptedE [OF assms]) blast

theorem execute_accepted_sound_witness:
  "\<exists>ctx c. predicate_context_of sample_env sample_state sample_tx = Inr ctx \<and> context_to_vec sample_wasm ctx = Inr c
    \<and> (\<forall>t \<in> set (required_trees sample_state ctx sample_tx). negation_free t
          \<longrightarrow> tree_holds (accepts (\<lambda>p. invoke sample_wasm c p (\<lambda>_. None))) t)"
proof -
  have enc: "context_to_vec sample_wasm sample_context = Inr []" by (simp add: sample_wasm_def)
  have guards: "accounts_predicates (\<lambda>out. out) sample_state sample_context sample_tx = Some (Inr [sample_tree, sample_tree])"
    unfolding accounts_predicates_valid [OF sample_tx_facts(2)] sample_guards by code_simp
  have intents: "intents_predicates sample_state sample_context sample_tx = Inr []"
    by (simp add: intents_predicates_def sample_tx_def transaction_new_def)
  have tree: "sample_tree = TId (sample_pred [])" by (simp add: sample_tree_def sample_pred_def)
  have "answers (\<lambda>p. invoke sample_wasm [] p (\<lambda>_. None)) [sample_tree, sample_tree]"
    by (simp add: tree answers_def sample_invoke answered_def)
  from parallel_answers [OF enc this, of "[]" "\<lambda>_ _. 1"] obtain r where
    "parallel_invoke_predicates sample_wasm [] (\<lambda>_ _. 1) sample_context [sample_tree, sample_tree] (\<lambda>_. None) = Some r"
    "is_ok r" by (auto simp: tree accepts_def sample_invoke)
  then have "execute sample_wasm sample_env (\<lambda>out. out) [] (\<lambda>_ _. 1) sample_tx sample_state (\<lambda>_. None) = Some (Inr sample_outputs)"
    by (cases r) (simp_all add: execute_def sample_tx_facts guards intents)
  from execute_accepted_sound [OF this sample_tx_facts(2)] show ?thesis by blast
qed

text \<open>C32. With negation the verdict depends on the schedule.  Take a predicate that rejects, one that
  crashes and one that accepts, and the trees \<open>Not(And(reject, crash))\<close> and \<open>Not(Or(reject, accept))\<close>.
  The second tree is false, so the transaction is invalid.  If its first leaf is evaluated before the
  crash and its second leaf after it, the run returns \<open>Ok\<close>: the cancelled leaf counts as a rejection.
  If the second task starts later, the same run returns \<open>Err(Cancelled)\<close>.\<close>

theorem verdict_depends_on_schedule:
  assumes "context_to_vec w ctx = Inr c" "invoke w c r cache = Some (Inr False)"
    "invoke w c k cache = Some (Inl e)" "invoke w c x cache = Some (Inr True)"
  shows "parallel_invoke_predicates w [1, 1, 1] split ctx
      [TNot (TAnd (TId r) (TId k)), TNot (TOr (TId r) (TId x))] cache = Some (Inr ())
    \<and> parallel_invoke_predicates w [] split ctx
      [TNot (TAnd (TId r) (TId k)), TNot (TOr (TId r) (TId x))] cache = Some (Inl Cancelled)
    \<and> \<not> tree_holds (accepts (\<lambda>p. invoke w c p cache)) (TNot (TOr (TId r) (TId x)))"
  using assms(4)
  by (simp add: parallel_invoke_predicates_def assms(1,2,3) drain_def machine_run_def machine_step_def
      numeral_nat discard_def accepts_def reduce_with_combined combined_def not_outcome_def and_outcome_def
      or_outcome_def)

theorem verdict_depends_on_schedule_witness:
  "parallel_invoke_predicates sample_wasm [1, 1, 1] (\<lambda>_ _. 1) sample_context
     [TNot (TAnd (TId (sample_pred [0])) (TId (sample_pred [2]))), TNot (TOr (TId (sample_pred [0])) (TId (sample_pred [])))]
     (\<lambda>_. None) = Some (Inr ())"
proof -
  have "context_to_vec sample_wasm sample_context = Inr []" by (simp add: sample_wasm_def)
  from verdict_depends_on_schedule [OF this sample_invoke(2,3,1)] show ?thesis by blast
qed

end
