(* ===== verification/Stdpred.thy ===== *)
theory Stdpred
  imports Collect
begin

text \<open>
  The standard predicate library, \<open>stdpred/src\<close>.  A predicate is a function of its expanded parameters
  and the context of the transaction; \<open>None\<close> is a panic (a failed assertion or \<open>expect\<close>), which the
  virtual machine sees as a crash.  The MessagePack decoders, the base58 encoder and the signature
  scheme are other crates and are the fields of \<open>decoders\<close>.
\<close>

record 'sig decoders =
  dec_u64 :: "bytes \<Rightarrow> u64 option"
  dec_bool :: "bytes \<Rightarrow> bool option"
  dec_address :: "bytes \<Rightarrow> address option"
  dec_map :: "bytes \<Rightarrow> (bytes, bytes) btree_map option"
  dec_set :: "bytes \<Rightarrow> bytes btree_set option"
  dec_pubkey :: "bytes \<Rightarrow> bytes option"
  pubkey_from_bytes :: "bytes \<Rightarrow> bytes option"
  signature_from_bytes :: "bytes \<Rightarrow> 'sig option"
  verify :: "bytes \<Rightarrow> bytes \<Rightarrow> 'sig \<Rightarrow> bool"
  to_base58 :: "bytes \<Rightarrow> string"

type_synonym params = "expanded_param list"

section \<open>Arithmetic\<close>

definition slice_to_u64 :: "'sig decoders \<Rightarrow> expanded_param \<Rightarrow> u64 option" where
  "slice_to_u64 dec p = dec_u64 dec (expanded_param_data p)"

text \<open>The common shape of the comparisons: assert the arity, decode the arguments in order.\<close>

definition uint_binary :: "(u64 \<Rightarrow> u64 \<Rightarrow> bool) \<Rightarrow> 'sig decoders \<Rightarrow> params \<Rightarrow> bool option" where
  "uint_binary cmp dec ps =
     (case ps of
        [p, q] \<Rightarrow>
          (case slice_to_u64 dec p of
             None \<Rightarrow> None
           | Some first \<Rightarrow> map_option (\<lambda>second. cmp first second) (slice_to_u64 dec q))
      | _ \<Rightarrow> None)"

definition uint_ternary :: "(u64 \<Rightarrow> u64 \<Rightarrow> u64 \<Rightarrow> bool) \<Rightarrow> 'sig decoders \<Rightarrow> params \<Rightarrow> bool option" where
  "uint_ternary cmp dec ps =
     (case ps of
        [p, q, r] \<Rightarrow>
          (case slice_to_u64 dec p of
             None \<Rightarrow> None
           | Some first \<Rightarrow>
               (case slice_to_u64 dec q of
                  None \<Rightarrow> None
                | Some second \<Rightarrow> map_option (\<lambda>by. cmp first second by) (slice_to_u64 dec r)))
      | _ \<Rightarrow> None)"

definition uint_equal :: "'sig decoders \<Rightarrow> params \<Rightarrow> predicate_context \<Rightarrow> bool option" where
  "uint_equal dec ps ctx = uint_binary (\<lambda>first second. first = second) dec ps"

definition uint_greater_than :: "'sig decoders \<Rightarrow> params \<Rightarrow> predicate_context \<Rightarrow> bool option" where
  "uint_greater_than dec ps ctx = uint_binary (\<lambda>first second. first > second) dec ps"

definition uint_greater_than_equal :: "'sig decoders \<Rightarrow> params \<Rightarrow> predicate_context \<Rightarrow> bool option" where
  "uint_greater_than_equal dec ps ctx = uint_binary (\<lambda>first second. first \<ge> second) dec ps"

definition uint_less_than :: "'sig decoders \<Rightarrow> params \<Rightarrow> predicate_context \<Rightarrow> bool option" where
  "uint_less_than dec ps ctx = uint_binary (\<lambda>first second. first < second) dec ps"

definition uint_less_than_equal :: "'sig decoders \<Rightarrow> params \<Rightarrow> predicate_context \<Rightarrow> bool option" where
  "uint_less_than_equal dec ps ctx = uint_binary (\<lambda>first second. first \<le> second) dec ps"

definition uint_greater_than_by :: "'sig decoders \<Rightarrow> params \<Rightarrow> predicate_context \<Rightarrow> bool option" where
  "uint_greater_than_by dec ps ctx = uint_ternary (\<lambda>first second by. saturating_sub first second = by) dec ps"

definition uint_less_than_by :: "'sig decoders \<Rightarrow> params \<Rightarrow> predicate_context \<Rightarrow> bool option" where
  "uint_less_than_by dec ps ctx = uint_ternary (\<lambda>first second by. saturating_sub second first = by) dec ps"

section \<open>Bytes, constants and immutability\<close>

definition bytes_equal :: "params \<Rightarrow> predicate_context \<Rightarrow> bool option" where
  "bytes_equal ps ctx =
     (case ps of [p, q] \<Rightarrow> Some (expanded_param_data p = expanded_param_data q) | _ \<Rightarrow> None)"

definition constant_pred :: "'sig decoders \<Rightarrow> params \<Rightarrow> predicate_context \<Rightarrow> bool option" where
  "constant_pred dec ps ctx = (case ps of [p] \<Rightarrow> dec_bool dec (expanded_param_data p) | _ \<Rightarrow> None)"

definition immutable_state :: "'sig decoders \<Rightarrow> params \<Rightarrow> predicate_context \<Rightarrow> bool option" where
  "immutable_state dec ps ctx =
     (case ps of
        [p] \<Rightarrow>
          (case dec_address dec (expanded_param_data p) of
             None \<Rightarrow> None
           | Some target \<Rightarrow>
               (case bt_get (ctx_proposals ctx) target of
                  Some (XReplaceState _ _) \<Rightarrow> Some False
                | _ \<Rightarrow> Some True))
      | _ \<Rightarrow> None)"

definition immutable_predicates :: "'sig decoders \<Rightarrow> params \<Rightarrow> predicate_context \<Rightarrow> bool option" where
  "immutable_predicates dec ps ctx =
     (case ps of
        [p] \<Rightarrow>
          (case dec_address dec (expanded_param_data p) of
             None \<Rightarrow> None
           | Some target \<Rightarrow>
               (case bt_get (ctx_proposals ctx) target of
                  Some (XReplacePredicates _ _) \<Rightarrow> Some False
                | _ \<Rightarrow> Some True))
      | _ \<Rightarrow> None)"

section \<open>Collections\<close>

definition is_empty_map :: "'sig decoders \<Rightarrow> params \<Rightarrow> predicate_context \<Rightarrow> bool option" where
  "is_empty_map dec ps ctx =
     (case ps of [p] \<Rightarrow> map_option (\<lambda>m. m = []) (dec_map dec (expanded_param_data p)) | _ \<Rightarrow> None)"

definition contains_key :: "'sig decoders \<Rightarrow> params \<Rightarrow> predicate_context \<Rightarrow> bool option" where
  "contains_key dec ps ctx =
     (case ps of
        [haystack, needle] \<Rightarrow>
          map_option (\<lambda>m. bt_get m (expanded_param_data needle) \<noteq> None) (dec_map dec (expanded_param_data haystack))
      | _ \<Rightarrow> None)"

text \<open>The assertion admits two parameters and the body then takes a third.\<close>

definition key_equals :: "'sig decoders \<Rightarrow> params \<Rightarrow> predicate_context \<Rightarrow> bool option" where
  "key_equals dec ps ctx =
     (if length ps \<noteq> 2 then None
      else case ps of
             haystack # needle # value # _ \<Rightarrow>
               map_option (\<lambda>m. case bt_get m (expanded_param_data needle) of
                               Some v \<Rightarrow> v = expanded_param_data value
                             | None \<Rightarrow> False)
                 (dec_map dec (expanded_param_data haystack))
           | _ \<Rightarrow> None)"

definition is_empty_set :: "'sig decoders \<Rightarrow> params \<Rightarrow> predicate_context \<Rightarrow> bool option" where
  "is_empty_set dec ps ctx =
     (case ps of [p] \<Rightarrow> map_option (\<lambda>s. s = []) (dec_set dec (expanded_param_data p)) | _ \<Rightarrow> None)"

definition contains_element :: "'sig decoders \<Rightarrow> params \<Rightarrow> predicate_context \<Rightarrow> bool option" where
  "contains_element dec ps ctx =
     (case ps of
        [haystack, needle] \<Rightarrow>
          map_option (\<lambda>s. bt_get s (expanded_param_data needle) \<noteq> None) (dec_set dec (expanded_param_data haystack))
      | _ \<Rightarrow> None)"

section \<open>Signatures\<close>

fun first_signature :: "'sig decoders \<Rightarrow> bytes \<Rightarrow> string \<Rightarrow> (multihash \<times> calldata) list \<Rightarrow> bool" where
  "first_signature dec pubkey key [] = False"
| "first_signature dec pubkey key ((hash, cd) # rest) =
     (case bt_get cd key of
        Some s \<Rightarrow>
          (case signature_from_bytes dec s of
             Some sig \<Rightarrow> verify dec pubkey hash sig
           | None \<Rightarrow> first_signature dec pubkey key rest)
      | None \<Rightarrow> first_signature dec pubkey key rest)"

definition require_ed25519_signature :: "'sig decoders \<Rightarrow> params \<Rightarrow> predicate_context \<Rightarrow> bool option" where
  "require_ed25519_signature dec ps ctx =
     (case ps of
        [p] \<Rightarrow>
          map_option (\<lambda>pubkey. first_signature dec pubkey (to_base58 dec pubkey) (ctx_calldata ctx))
            (pubkey_from_bytes dec (expanded_param_data p))
      | _ \<Rightarrow> None)"

section \<open>Lemmas\<close>

text \<open>An intent is signed when its calldata has, under the key, a signature of its hash.\<close>

definition signed_by :: "'sig decoders \<Rightarrow> bytes \<Rightarrow> multihash \<times> calldata \<Rightarrow> bool" where
  "signed_by dec pubkey e =
     (case bt_get (snd e) (to_base58 dec pubkey) of
        Some s \<Rightarrow> (case signature_from_bytes dec s of Some sig \<Rightarrow> verify dec pubkey (fst e) sig | None \<Rightarrow> False)
      | None \<Rightarrow> False)"

definition has_signature :: "'sig decoders \<Rightarrow> bytes \<Rightarrow> multihash \<times> calldata \<Rightarrow> bool" where
  "has_signature dec pubkey e =
     (case bt_get (snd e) (to_base58 dec pubkey) of
        Some s \<Rightarrow> signature_from_bytes dec s \<noteq> None
      | None \<Rightarrow> False)"

lemma first_signature_find:
  "first_signature dec pk (to_base58 dec pk) es =
     (case find (has_signature dec pk) es of Some e \<Rightarrow> signed_by dec pk e | None \<Rightarrow> False)"
proof (induction es)
  case (Cons e es)
  then show ?case by (cases e) (auto simp: has_signature_def signed_by_def split: option.splits)
qed simp

lemma saturating_sub_eq:
  "saturating_sub x y = z \<longleftrightarrow> unat x = unat y + unat z \<or> (x < y \<and> z = 0)"
  unfolding word_unat_eq_iff unat_saturating_sub by (auto simp: word_less_nat_alt)

definition sample_decoders :: "bytes decoders" where
  "sample_decoders = \<lparr>dec_u64 = (\<lambda>b. case b of [x] \<Rightarrow> Some (ucast x) | [x, y] \<Rightarrow> Some (push_bit 56 (ucast x) + ucast y) | _ \<Rightarrow> None),
     dec_bool = (\<lambda>b. Some (b = [195])), dec_address = (\<lambda>b. Some (Address (map (\<lambda>x. char_of (unat x)) b))),
     dec_map = (\<lambda>_. Some []), dec_set = (\<lambda>_. Some []), dec_pubkey = (\<lambda>b. Some b), pubkey_from_bytes = (\<lambda>b. Some b),
     signature_from_bytes = (\<lambda>b. if b = [] then None else Some b), verify = (\<lambda>pk m s. s = pk @ m),
     to_base58 = (\<lambda>b. ''k'')\<rparr>"

section \<open>Properties\<close>

text \<open>The difference predicates saturate: \<open>uint_greater_than_by\<close> accepts exactly when the first number is
  the second plus the third without overflow, or when the first is smaller and the third is zero;
  \<open>uint_less_than_by\<close> is the same with the first two swapped.\<close>

lemma uint_difference_predicates:
  assumes "slice_to_u64 dec p = Some x" "slice_to_u64 dec q = Some y" "slice_to_u64 dec r = Some z"
  shows "uint_greater_than_by dec [p, q, r] ctx = Some ((unat x = unat y + unat z) \<or> (x < y \<and> z = 0))
    \<and> uint_less_than_by dec [p, q, r] ctx = Some ((unat y = unat x + unat z) \<or> (y < x \<and> z = 0))"
  using assms by (simp add: uint_greater_than_by_def uint_less_than_by_def uint_ternary_def saturating_sub_eq)

lemma uint_difference_predicates_example:
  "uint_greater_than_by sample_decoders [XInline [9], XInline [5], XInline [4]] sample_context = Some True
   \<and> uint_greater_than_by sample_decoders [XInline [3], XInline [5], XInline [0]] sample_context = Some True"
proof -
  have d: "slice_to_u64 sample_decoders (XInline [b]) = Some (ucast b)" for b
    by (simp add: slice_to_u64_def sample_decoders_def)
  from uint_difference_predicates [OF d [of 9] d [of 5] d [of 4], of sample_context]
    uint_difference_predicates [OF d [of 3] d [of 5] d [of 0], of sample_context]
  show ?thesis by simp
qed

text \<open>What an account guarded by \<open>immutable_state\<close> and \<open>immutable_predicates\<close> can become: a transaction
  both accept, whose context and diff are built, leaves it as it was, deletes it, or creates it where
  there was none.  Its contents never change, but deletion is not forbidden.\<close>

lemma immutable_account:
  assumes "bt_inv (tx_proposals tx)" "predicate_context_of env state tx = Inr ctx" "outputs state tx = Inr d"
    "dec_address dec (expanded_param_data p) = Some a"
    "immutable_state dec [p] ctx = Some True" "immutable_predicates dec [p] ctx = Some True"
  shows "diff_effect d state a = state a
    \<or> (state a \<noteq> None \<and> diff_effect d state a = None \<and> bt_get (tx_proposals tx) a = Some DeleteAccount)
    \<or> (state a = None \<and> (\<exists>acc. bt_get (tx_proposals tx) a = Some (CreateAccount acc)))"
proof (cases "bt_get (tx_proposals tx) a")
  case None
  then show ?thesis using outputs_effect [OF assms(3,1), of a] by simp
next
  case (Some ch)
  obtain x where x: "expand_account_change a state ch = Inr x" "bt_get (ctx_proposals ctx) a = Some x"
    using context_proposals [OF assms(2,1) Some] by blast
  have app: "change_applicable ch (state a)" using outputs_Inr(2) [OF assms(3,1)] Some by (auto dest: bt_get_Some_mem)
  have "(\<forall>s. ch \<noteq> ReplaceState s) \<and> (\<forall>q. ch \<noteq> ReplacePredicates q)"
    using assms(4,5,6) x by (auto simp: immutable_state_def immutable_predicates_def expand_account_change_def split: option.splits)
  then show ?thesis using app Some outputs_effect [OF assms(3,1), of a] by (cases ch) auto
qed

lemma immutable_account_example:
  "\<exists>d. outputs sample_state (transaction_new [] [(Address ''/a'', DeleteAccount)]) = Inr d
     \<and> immutable_state sample_decoders [XInline [47, 97]] \<lparr>ctx_calldata = [], ctx_proposals = [(Address ''/a'', XDeleteAccount (sample_account [1]))]\<rparr> = Some True
     \<and> (diff_effect d sample_state (Address ''/a'') = sample_state (Address ''/a'')
        \<or> diff_effect d sample_state (Address ''/a'') = None)"
proof -
  let ?tx = "transaction_new [] [(Address ''/a'', DeleteAccount)]"
  let ?ctx = "\<lparr>ctx_calldata = [], ctx_proposals = [(Address ''/a'', XDeleteAccount (sample_account [1]))]\<rparr>"
  let ?d = "\<lparr>upserts = [], deletes = [(Address ''/a'', ())]\<rparr>"
  have f: "bt_inv (tx_proposals ?tx)" "predicate_context_of sample_env sample_state ?tx = Inr ?ctx"
    "outputs sample_state ?tx = Inr ?d" "dec_address sample_decoders (expanded_param_data (XInline [47, 97])) = Some (Address ''/a'')"
    "immutable_state sample_decoders [XInline [47, 97]] ?ctx = Some True"
    "immutable_predicates sample_decoders [XInline [47, 97]] ?ctx = Some True"
    by code_simp+
  have "sample_state (Address ''/a'') \<noteq> None" by (simp add: sample_expansions)
  with immutable_account [OF f] f(3,5) show ?thesis by blast
qed

text \<open>\<open>require_ed25519_signature\<close> looks at the first intent, in hash order, that carries a well-formed
  signature under the key, and accepts exactly when that one verifies; so acceptance implies a signed
  intent, but a signed intent is rejected when an earlier one carries a well-formed wrong signature.\<close>

lemma signature_first_only:
  assumes "pubkey_from_bytes dec (expanded_param_data p) = Some pk"
  shows "require_ed25519_signature dec [p] ctx =
      Some (\<exists>us e vs. ctx_calldata ctx = us @ e # vs \<and> (\<forall>u \<in> set us. \<not> has_signature dec pk u)
              \<and> has_signature dec pk e \<and> signed_by dec pk e)
    \<and> (require_ed25519_signature dec [p] ctx = Some True \<longrightarrow> (\<exists>e \<in> set (ctx_calldata ctx). signed_by dec pk e))"
proof -
  let ?es = "ctx_calldata ctx"
  have "(case find (has_signature dec pk) ?es of Some e \<Rightarrow> signed_by dec pk e | None \<Rightarrow> False) \<longleftrightarrow>
    (\<exists>e. find (has_signature dec pk) ?es = Some e \<and> signed_by dec pk e)" by (auto split: option.splits)
  also have "\<dots> \<longleftrightarrow> (\<exists>us e vs. ?es = us @ e # vs \<and> (\<forall>u \<in> set us. \<not> has_signature dec pk u)
      \<and> has_signature dec pk e \<and> signed_by dec pk e)" unfolding find_split by blast
  finally have "first_signature dec pk (to_base58 dec pk) ?es \<longleftrightarrow> (\<exists>us e vs. ?es = us @ e # vs
      \<and> (\<forall>u \<in> set us. \<not> has_signature dec pk u) \<and> has_signature dec pk e \<and> signed_by dec pk e)"
    unfolding first_signature_find .
  moreover have "require_ed25519_signature dec [p] ctx = Some (first_signature dec pk (to_base58 dec pk) ?es)"
    using assms by (simp add: require_ed25519_signature_def)
  ultimately show ?thesis by auto
qed

lemma signature_first_only_example:
  "require_ed25519_signature sample_decoders [XInline [7]]
     \<lparr>ctx_calldata = [([1], [(''k'', [9])]), ([2], [(''k'', [7, 2])])], ctx_proposals = []\<rparr> = Some False
   \<and> signed_by sample_decoders [7] ([2], [(''k'', [7, 2])])"
proof -
  let ?ctx = "\<lparr>ctx_calldata = [([1], [(''k'', [9])]), ([2], [(''k'', [7, 2])])], ctx_proposals = []\<rparr> :: predicate_context"
  have p: "pubkey_from_bytes sample_decoders (expanded_param_data (XInline [7])) = Some [7]" by code_simp
  have h: "has_signature sample_decoders [7] ([1], [(''k'', [9])])" "\<not> signed_by sample_decoders [7] ([1], [(''k'', [9])])"
    "signed_by sample_decoders [7] ([2], [(''k'', [7, 2])])" by code_simp+
  have "\<not> (\<exists>us e vs. ctx_calldata ?ctx = us @ e # vs \<and> (\<forall>u \<in> set us. \<not> has_signature sample_decoders [7] u)
      \<and> has_signature sample_decoders [7] e \<and> signed_by sample_decoders [7] e)"
    using h by (auto simp: Cons_eq_append_conv)
  with signature_first_only [OF p, of ?ctx] h(3) show ?thesis by simp
qed

text \<open>\<open>key_equals\<close> can never answer: whatever the parameters, it panics.\<close>

lemma key_equals_panics: "key_equals dec ps ctx = None"
  by (auto simp: key_equals_def split: list.splits)

end
