(* ===== verification/Guest.thy ===== *)
theory Guest
  imports Verdict Stdpred
begin

text \<open>
  The guest side of a predicate call: \<open>sdk/predicates/src/builtins.rs\<close> (the exports
  \<open>__allocate\<close>, \<open>__ingest_context\<close> and \<open>__ingest_params\<close> the virtual machine calls before the
  predicate) and \<open>sdk/predicates/derive/src/lib.rs\<close> (the attribute that exports a predicate).  The guest
  has a linear memory of bytes and, in it, objects it has boxed and leaked; writing over an object
  destroys it.  The heap behind \<open>Vec\<close> and \<open>Box\<close> is the global allocator, another crate: the record
  \<open>allocator\<close>, with the contract of \<open>GlobalAlloc\<close> as \<open>allocator_laws\<close>.  An object and everything it owns
  is one block of the heap.  \<open>None\<close> is a trap of the instance (a panic, an abort of the allocator, an
  access out of bounds).  \<open>guest_env\<close> puts this side into the place of the WebAssembly runtime of
  \<open>Execution\<close>, so that host and guest run together.
\<close>

section \<open>Memory\<close>

record 'h allocator =
  fresh_heap :: "nat \<Rightarrow> 'h"
  heap_alloc :: "nat \<Rightarrow> 'h \<Rightarrow> (u32 \<times> 'h) option"
  heap_free :: "u32 \<Rightarrow> nat \<Rightarrow> 'h \<Rightarrow> 'h"
  heap_limit :: "'h \<Rightarrow> nat"
  heap_live :: "'h \<Rightarrow> (u32 \<times> nat) list"
  heap_used :: "'h \<Rightarrow> nat"
  heap_ok :: "'h \<Rightarrow> bool"
  heap_capacity :: nat

datatype guest_object =
    OContext predicate_context
  | OParams params

record 'h guest =
  linear :: "nat \<Rightarrow> byte"
  objects :: "(u32 \<times> nat \<times> guest_object) list"
  heap :: 'h

record guest_codec =
  enc_context :: "predicate_context \<Rightarrow> string + bytes"
  dec_context :: "bytes \<Rightarrow> predicate_context option"
  enc_params :: "params \<Rightarrow> string + bytes"
  dec_params :: "bytes \<Rightarrow> params option"
  object_size :: "guest_object \<Rightarrow> nat"

definition apart :: "u32 \<times> nat \<Rightarrow> u32 \<times> nat \<Rightarrow> bool" where
  "apart b c = (unat (fst b) + snd b \<le> unat (fst c) \<or> unat (fst c) + snd c \<le> unat (fst b))"

text \<open>The contract of the allocator: a block handed out lies in memory and apart from every live block,
  and requests are served while the total stays within the capacity.\<close>

definition allocator_laws :: "'h allocator \<Rightarrow> bool" where
  "allocator_laws al \<longleftrightarrow>
     (\<forall>pages. heap_ok al (fresh_heap al pages) \<and> heap_live al (fresh_heap al pages) = []
        \<and> heap_used al (fresh_heap al pages) = 0)
   \<and> (\<forall>h. heap_ok al h \<longrightarrow> 1 \<le> heap_limit al h)
   \<and> (\<forall>h n p h'. heap_ok al h \<longrightarrow> 0 < n \<longrightarrow> heap_alloc al n h = Some (p, h') \<longrightarrow>
        heap_ok al h' \<and> unat p + n \<le> heap_limit al h' \<and> heap_limit al h \<le> heap_limit al h'
        \<and> heap_used al h' = heap_used al h + n \<and> set (heap_live al h') = insert (p, n) (set (heap_live al h))
        \<and> list_all (apart (p, n)) (heap_live al h))
   \<and> (\<forall>h n. heap_ok al h \<longrightarrow> 0 < n \<longrightarrow> heap_used al h + n \<le> heap_capacity al \<longrightarrow> heap_alloc al n h \<noteq> None)
   \<and> (\<forall>h p n. heap_ok al h \<longrightarrow> heap_ok al (heap_free al p n h) \<and> heap_used al (heap_free al p n h) = heap_used al h
        \<and> heap_limit al (heap_free al p n h) = heap_limit al h
        \<and> set (heap_live al (heap_free al p n h)) = set (heap_live al h) - {(p, n)})"

text \<open>MessagePack decodes what it encoded; encodings fit the address space of the guest.\<close>

definition codec_ok :: "guest_codec \<Rightarrow> bool" where
  "codec_ok cd \<longleftrightarrow> (\<forall>x b. enc_context cd x = Inr b \<longrightarrow> dec_context cd b = Some x \<and> length b < 2 ^ 31)
     \<and> (\<forall>x b. enc_params cd x = Inr b \<longrightarrow> dec_params cd b = Some x \<and> length b < 2 ^ 31)
     \<and> (\<forall>obj. 0 < object_size cd obj)"

section \<open>The exports of the SDK\<close>

text \<open>\<open>Vec::with_capacity(size)\<close> of bytes, forgotten; without elements it has the dangling address 1, and
  more than \<open>isize::MAX\<close> bytes panic.\<close>

definition allocate :: "'h allocator \<Rightarrow> u32 \<Rightarrow> 'h guest \<Rightarrow> (u32 \<times> 'h guest) option" where
  "allocate al sz g =
     (if sz = 0 then Some (1, g)
      else if unat sz > 2 ^ 31 - 1 then None
      else map_option (\<lambda>(p, h). (p, g\<lparr>heap := h\<rparr>)) (heap_alloc al (unat sz) (heap g)))"

definition read_bytes :: "u32 \<Rightarrow> nat \<Rightarrow> 'h guest \<Rightarrow> bytes" where
  "read_bytes ptr len g = map (\<lambda>i. linear g (unat ptr + i)) [0..<len]"

text \<open>\<open>ingest_context\<close> and \<open>ingest_params\<close>: take the bytes over as a vector, decode, box and leak the
  object; the vector is freed at the end.\<close>

definition ingest ::
  "'h allocator \<Rightarrow> guest_codec \<Rightarrow> (bytes \<Rightarrow> guest_object option) \<Rightarrow> u32 \<Rightarrow> u32 \<Rightarrow> 'h guest \<Rightarrow> (u32 \<times> 'h guest) option"
where
  "ingest al cd decode ptr len g =
     (if unat ptr + unat len > heap_limit al (heap g) then None
      else case decode (read_bytes ptr (unat len) g) of
             None \<Rightarrow> None
           | Some obj \<Rightarrow>
               (case heap_alloc al (object_size cd obj) (heap g) of
                  None \<Rightarrow> None
                | Some (p, h) \<Rightarrow>
                    Some (p, g\<lparr>objects := (p, object_size cd obj, obj) # objects g,
                              heap := if len = 0 then h else heap_free al ptr (unat len) h\<rparr>)))"

definition ingest_context :: "'h allocator \<Rightarrow> guest_codec \<Rightarrow> u32 \<Rightarrow> u32 \<Rightarrow> 'h guest \<Rightarrow> (u32 \<times> 'h guest) option" where
  "ingest_context al cd = ingest al cd (\<lambda>bs. map_option OContext (dec_context cd bs))"

definition ingest_params :: "'h allocator \<Rightarrow> guest_codec \<Rightarrow> u32 \<Rightarrow> u32 \<Rightarrow> 'h guest \<Rightarrow> (u32 \<times> 'h guest) option" where
  "ingest_params al cd = ingest al cd (\<lambda>bs. map_option OParams (dec_params cd bs))"

section \<open>Exported predicates\<close>

type_synonym guest_predicate = "params \<Rightarrow> predicate_context \<Rightarrow> bool option"
type_synonym library = "string \<Rightarrow> guest_predicate option"

datatype guest_fn =
    GAllocate
  | GIngestContext
  | GIngestParams
  | GPredicate guest_predicate

definition reserved_names :: "string list" where
  "reserved_names = [''__allocate'', ''__ingest_params'', ''__ingest_context'']"

definition guest_export :: "library \<Rightarrow> string \<Rightarrow> string + guest_fn" where
  "guest_export lib name =
     (if name = ''__allocate'' then Inr GAllocate
      else if name = ''__ingest_context'' then Inr GIngestContext
      else if name = ''__ingest_params'' then Inr GIngestParams
      else case lib name of Some f \<Rightarrow> Inr (GPredicate f) | None \<Rightarrow> Inl ''missing export'')"

text \<open>A predicate gets references to the two objects.\<close>

definition call_predicate :: "guest_predicate \<Rightarrow> u32 \<Rightarrow> u32 \<Rightarrow> 'h guest \<Rightarrow> (u32 \<times> 'h guest) option" where
  "call_predicate f params_ptr context_ptr g =
     (case (map_of (objects g) params_ptr, map_of (objects g) context_ptr) of
        (Some (_, OParams ps), Some (_, OContext ctx)) \<Rightarrow>
          map_option (\<lambda>b. (if b then 1 else 0, g)) (f ps ctx)
      | _ \<Rightarrow> None)"

section \<open>Host and guest together\<close>

definition trap :: string where
  "trap = ''unreachable''"

definition trapping :: "'a option \<Rightarrow> string + 'a" where
  "trapping r = (case r of None \<Rightarrow> Inl trap | Some x \<Rightarrow> Inr x)"

text \<open>A write of the host into the linear memory destroys the objects it overlaps.\<close>

definition host_write :: "'h allocator \<Rightarrow> u64 \<Rightarrow> bytes \<Rightarrow> 'h guest \<Rightarrow> string + 'h guest" where
  "host_write al offset dat g =
     (let o' = unat offset in
      if o' + length dat > heap_limit al (heap g) then Inl ''out of bounds''
      else Inr (g\<lparr>linear := (\<lambda>i. if o' \<le> i \<and> i < o' + length dat then dat ! (i - o') else linear g i),
                 objects := filter (\<lambda>(p, n, _). dat = [] \<or> unat p + n \<le> o' \<or> o' + length dat \<le> unat p) (objects g)\<rparr>))"

definition guest_call_ingest ::
  "'h allocator \<Rightarrow> guest_codec \<Rightarrow> guest_fn \<Rightarrow> u32 \<Rightarrow> u32 \<Rightarrow> 'h guest \<Rightarrow> string + u32 \<times> 'h guest"
where
  "guest_call_ingest al cd f ptr len g =
     (case f of
        GIngestContext \<Rightarrow> trapping (ingest_context al cd ptr len g)
      | GIngestParams \<Rightarrow> trapping (ingest_params al cd ptr len g)
      | _ \<Rightarrow> Inl ''incompatible type'')"

definition guest_env ::
  "'h allocator \<Rightarrow> guest_codec \<Rightarrow> (bytes \<Rightarrow> bytes) \<Rightarrow> (bytes \<Rightarrow> string) \<Rightarrow> (bytes \<Rightarrow> library option)
   \<Rightarrow> (bytes \<Rightarrow> string + library) \<Rightarrow> (library, library, guest_fn, 'h guest) wasm_env"
where
  "guest_env al cd hash b58 deser binary =
     \<lparr>code_digest = hash, bs58_encode = b58, params_to_vec = enc_params cd, context_to_vec = enc_context cd,
      module_deserialize = deser, module_from_binary = binary,
      memory_new = (\<lambda>pages. Inr \<lparr>linear = (\<lambda>_. 0), objects = [], heap = fresh_heap al pages\<rparr>),
      instance_new = (\<lambda>m g. Inr (m, g)),
      typed_function = guest_export,
      call_allocate = (\<lambda>f sz g. case f of GAllocate \<Rightarrow> trapping (allocate al sz g) | _ \<Rightarrow> Inl ''incompatible type''),
      memory_write = host_write al,
      call_ingest = guest_call_ingest al cd,
      call_entrypoint = (\<lambda>f p q g. case f of
          GPredicate f \<Rightarrow> trapping (call_predicate f p q g)
        | _ \<Rightarrow> guest_call_ingest al cd f p q g)\<rparr>"

section \<open>Delivering data\<close>

text \<open>Every object is a live block of the heap.\<close>

definition guest_inv :: "'h allocator \<Rightarrow> 'h guest \<Rightarrow> bool" where
  "guest_inv al g \<longleftrightarrow> heap_ok al (heap g)
     \<and> (\<forall>(p, n, obj) \<in> set (objects g). 0 < n \<and> (p, n) \<in> set (heap_live al (heap g)))"

lemma trapping_simps [simp]: "trapping None = Inl trap" "trapping (Some x) = Inr x"
  by (simp_all add: trapping_def)

lemma guest_env_simps [simp]:
  "params_to_vec (guest_env al cd hash b58 deser binary) = enc_params cd"
  "context_to_vec (guest_env al cd hash b58 deser binary) = enc_context cd"
  "module_deserialize (guest_env al cd hash b58 deser binary) = deser"
  "module_from_binary (guest_env al cd hash b58 deser binary) = binary"
  "memory_new (guest_env al cd hash b58 deser binary) pages
     = Inr \<lparr>linear = (\<lambda>_. 0), objects = [], heap = fresh_heap al pages\<rparr>"
  "instance_new (guest_env al cd hash b58 deser binary) m g = Inr (m, g)"
  "typed_function (guest_env al cd hash b58 deser binary) = guest_export"
  "call_allocate (guest_env al cd hash b58 deser binary) GAllocate sz g = trapping (allocate al sz g)"
  "memory_write (guest_env al cd hash b58 deser binary) = host_write al"
  "call_ingest (guest_env al cd hash b58 deser binary) = guest_call_ingest al cd"
  "call_entrypoint (guest_env al cd hash b58 deser binary) (GPredicate f) p q g = trapping (call_predicate f p q g)"
  by (simp_all add: guest_env_def)

lemma allocator_lawsD:
  assumes "allocator_laws al"
  shows "heap_ok al (fresh_heap al pages)" "heap_live al (fresh_heap al pages) = []" "heap_used al (fresh_heap al pages) = 0"
    "heap_ok al h \<Longrightarrow> 1 \<le> heap_limit al h"
    "heap_ok al h \<Longrightarrow> 0 < n \<Longrightarrow> heap_alloc al n h = Some (p, h') \<Longrightarrow>
       heap_ok al h' \<and> unat p + n \<le> heap_limit al h' \<and> heap_limit al h \<le> heap_limit al h'
       \<and> heap_used al h' = heap_used al h + n \<and> set (heap_live al h') = insert (p, n) (set (heap_live al h))
       \<and> list_all (apart (p, n)) (heap_live al h)"
    "heap_ok al h \<Longrightarrow> 0 < n \<Longrightarrow> heap_used al h + n \<le> heap_capacity al \<Longrightarrow> heap_alloc al n h \<noteq> None"
    "heap_ok al h \<Longrightarrow> heap_ok al (heap_free al p n h) \<and> heap_used al (heap_free al p n h) = heap_used al h
       \<and> heap_limit al (heap_free al p n h) = heap_limit al h
       \<and> set (heap_live al (heap_free al p n h)) = set (heap_live al h) - {(p, n)}"
  using assms [unfolded allocator_laws_def]
  by (elim conjE, simp)+

lemma unat_ptr: "unat (ucast (p :: u32) :: u64) = unat p"
  by (simp add: unsigned_ucast_eq take_bit_eq_mod order_less_trans [OF unsigned_less [of p]])

lemma unat_len: "n < 2 ^ 31 \<Longrightarrow> unat (of_nat n :: u32) = n"
  by (simp add: unat_of_nat)

lemma apart_distinct: "apart b c \<Longrightarrow> 0 < snd b \<Longrightarrow> 0 < snd c \<Longrightarrow> fst b \<noteq> fst c"
  by (auto simp: apart_def)

text \<open>Allocation: the buffer lies in memory and apart from every object.\<close>

lemma allocate_cases:
  assumes "allocator_laws al" "guest_inv al g" "n < 2 ^ 31"
  obtains (full) "allocate al (of_nat n) g = None" "heap_capacity al < heap_used al (heap g) + n"
  | (buffer) p h where "allocate al (of_nat n) g = Some (p, g\<lparr>heap := h\<rparr>)" "guest_inv al (g\<lparr>heap := h\<rparr>)"
      "unat p + n \<le> heap_limit al h" "heap_used al h = heap_used al (heap g) + n"
      "0 < n \<Longrightarrow> (p, n) \<in> set (heap_live al h)"
      "\<And>q m obj. (q, m, obj) \<in> set (objects g) \<Longrightarrow> 0 < n \<Longrightarrow> apart (p, n) (q, m)"
proof (cases "n = 0")
  case True
  have "1 \<le> heap_limit al (heap g)" using allocator_lawsD(4) [OF assms(1)] assms(2) by (simp add: guest_inv_def)
  then show thesis using True assms(2) by (intro buffer [of 1 "heap g"]) (simp_all add: allocate_def)
next
  case False
  have ok: "heap_ok al (heap g)" using assms(2) by (simp add: guest_inv_def)
  have u: "unat (of_nat n :: u32) = n" "of_nat n \<noteq> (0 :: u32)"
    using assms(3) False unat_len [OF assms(3)] by (auto simp flip: unat_eq_zero)
  show thesis
  proof (cases "heap_alloc al n (heap g)")
    case None
    with u assms(3) have "allocate al (of_nat n) g = None" by (simp add: allocate_def)
    moreover have "heap_capacity al < heap_used al (heap g) + n"
      using allocator_lawsD(6) [OF assms(1) ok, of n] False None by fastforce
    ultimately show thesis by (rule full)
  next
    case (Some ph)
    obtain p h where ph: "ph = (p, h)" by (cases ph)
    note law = allocator_lawsD(5) [OF assms(1) ok _ Some [unfolded ph]]
    have "allocate al (of_nat n) g = Some (p, g\<lparr>heap := h\<rparr>)"
      using u assms(3) Some ph by (simp add: allocate_def)
    moreover have "guest_inv al (g\<lparr>heap := h\<rparr>)" using law False assms(2) by (auto simp: guest_inv_def)
    moreover have "apart (p, n) (q, m)" if "(q, m, obj) \<in> set (objects g)" for q m obj
      using law False that assms(2) by (auto simp: guest_inv_def list_all_iff)
    ultimately show thesis using law False by (intro buffer) auto
  qed
qed

lemma host_write_buffer:
  assumes "unat p + length dat \<le> heap_limit al (heap g)"
    "\<And>q m obj. (q, m, obj) \<in> set (objects g) \<Longrightarrow> dat \<noteq> [] \<Longrightarrow> apart (p, length dat) (q, m)"
  obtains g' where "host_write al (ucast p) dat g = Inr g'" "objects g' = objects g" "heap g' = heap g"
    "read_bytes p (length dat) g' = dat"
proof -
  let ?g = "g\<lparr>linear := (\<lambda>i. if unat p \<le> i \<and> i < unat p + length dat then dat ! (i - unat p) else linear g i)\<rparr>"
  have "filter (\<lambda>(q, n, _). dat = [] \<or> unat q + n \<le> unat p \<or> unat p + length dat \<le> unat q) (objects g) = objects g"
    using assms(2) by (auto simp: filter_id_conv apart_def)
  then have "host_write al (ucast p) dat g = Inr ?g" using assms(1) by (simp add: host_write_def unat_ptr Let_def)
  moreover have "read_bytes p (length dat) ?g = dat"
    by (rule nth_equalityI) (simp_all add: read_bytes_def)
  ultimately show thesis using that by simp
qed

text \<open>One delivery: the decoded object is added, what was there stays.\<close>

lemma ingest_buffer:
  assumes "allocator_laws al" "guest_inv al g" "decode (read_bytes p n g) = Some obj" "0 < object_size cd obj"
    "unat p + n \<le> heap_limit al (heap g)" "n < 2 ^ 31" "0 < n \<Longrightarrow> (p, n) \<in> set (heap_live al (heap g))"
    "\<And>q m obj. (q, m, obj) \<in> set (objects g) \<Longrightarrow> 0 < n \<Longrightarrow> apart (p, n) (q, m)"
  obtains (full) "ingest al cd decode p (of_nat n) g = None" "heap_capacity al < heap_used al (heap g) + object_size cd obj"
  | (boxed) q g' where "ingest al cd decode p (of_nat n) g = Some (q, g')" "guest_inv al g'"
      "objects g' = (q, object_size cd obj, obj) # objects g" "q \<notin> fst ` set (objects g)"
      "heap_used al (heap g') = heap_used al (heap g) + object_size cd obj"
proof -
  let ?s = "object_size cd obj"
  have ok: "heap_ok al (heap g)" using assms(2) by (simp add: guest_inv_def)
  have u: "unat (of_nat n :: u32) = n" using unat_len [OF assms(6)] .
  have z: "(of_nat n :: u32) = 0 \<longleftrightarrow> n = 0" using u by (auto simp flip: unat_eq_zero)
  show thesis
  proof (cases "heap_alloc al ?s (heap g)")
    case None
    with assms(3,5) u have "ingest al cd decode p (of_nat n) g = None" by (simp add: ingest_def)
    moreover have "heap_capacity al < heap_used al (heap g) + ?s"
      using allocator_lawsD(6) [OF assms(1) ok assms(4)] None by fastforce
    ultimately show thesis by (rule full)
  next
    case (Some qh)
    obtain q h where qh: "qh = (q, h)" by (cases qh)
    let ?h = "if n = 0 then h else heap_free al p n h"
    let ?g = "g\<lparr>objects := (q, ?s, obj) # objects g, heap := ?h\<rparr>"
    note law = allocator_lawsD(5) [OF assms(1) ok assms(4) Some [unfolded qh]]
    then have hok: "heap_ok al h" by blast
    note fr = allocator_lawsD(7) [OF assms(1) hok, of p n]
    have run: "ingest al cd decode p (of_nat n) g = Some (q, ?g)"
      using assms(3,5) u z Some qh by (simp add: ingest_def)
    have apart_q: "apart (q, ?s) b" if "b \<in> set (heap_live al (heap g))" for b
      using law that by (auto simp: list_all_iff)
    have live: "(r, m) \<in> set (heap_live al ?h)" if "0 < m" "(r, m) \<in> insert (q, ?s) (set (heap_live al (heap g)))"
      "0 < n \<Longrightarrow> (r, m) \<noteq> (p, n)" for r m
      using that law fr by (cases "n = 0") auto
    have ne: "(r, m) \<noteq> (p, n)" if "(r, m, obj') \<in> set ((q, ?s, obj) # objects g)" "0 < n" "0 < m" for r m obj'
      using that assms(4) assms(8) [of r m obj'] apart_q [OF assms(7)] apart_distinct [of "(p, n)" "(r, m)"]
        apart_distinct [of "(q, ?s)" "(p, n)"] by auto
    have "guest_inv al ?g" unfolding guest_inv_def
    proof (intro conjI ballI)
      show "heap_ok al (heap ?g)" using hok fr by simp
      fix e assume "e \<in> set (objects ?g)"
      moreover obtain r m obj' where "e = (r, m, obj')" by (cases e)
      ultimately have e: "e = (r, m, obj')" "(r, m, obj') \<in> set ((q, ?s, obj) # objects g)" by simp_all
      then have "0 < m \<and> (r, m) \<in> insert (q, ?s) (set (heap_live al (heap g)))"
        using assms(2,4) by (auto simp: guest_inv_def)
      with live ne [OF e(2)] e(1) show "case e of (p, n, obj) \<Rightarrow> 0 < n \<and> (p, n) \<in> set (heap_live al (heap ?g))" by auto
    qed
    moreover have "q \<notin> fst ` set (objects g)"
    proof
      assume "q \<in> fst ` set (objects g)"
      then obtain m obj' where "(q, m, obj') \<in> set (objects g)" by auto
      then have "0 < m" "(q, m) \<in> set (heap_live al (heap g))" using assms(2) by (auto simp: guest_inv_def)
      with apart_q [OF this(2)] assms(4) show False using apart_distinct [of "(q, ?s)" "(q, m)"] by simp
    qed
    moreover have "heap_used al (heap ?g) = heap_used al (heap g) + ?s" using law fr by simp
    ultimately show thesis using boxed run by simp
  qed
qed

lemma deliver_cases:
  assumes "allocator_laws al" "guest_inv al g" "decode dat = Some obj" "0 < object_size cd obj" "length dat < 2 ^ 31"
    "guest_call_ingest al cd F = (\<lambda>p len g. trapping (ingest al cd decode p len g))"
  obtains (full) "deliver_data (guest_env al cd hash b58 deser binary) GAllocate dat F g = Inl trap"
      "heap_capacity al < heap_used al (heap g) + (length dat + object_size cd obj)"
  | (delivered) q g' where "deliver_data (guest_env al cd hash b58 deser binary) GAllocate dat F g = Inr (q, g')"
      "guest_inv al g'" "objects g' = (q, object_size cd obj, obj) # objects g" "q \<notin> fst ` set (objects g)"
      "heap_used al (heap g') = heap_used al (heap g) + (length dat + object_size cd obj)"
proof (rule allocate_cases [OF assms(1,2,5)])
  assume "allocate al (of_nat (length dat)) g = None" "heap_capacity al < heap_used al (heap g) + length dat"
  then show thesis by (intro full) (simp_all add: deliver_data_def Let_def)
next
  fix p h
  assume a: "allocate al (of_nat (length dat)) g = Some (p, g\<lparr>heap := h\<rparr>)"
    and inv: "guest_inv al (g\<lparr>heap := h\<rparr>)" and lim: "unat p + length dat \<le> heap_limit al h"
    and used: "heap_used al h = heap_used al (heap g) + length dat"
    and live: "0 < length dat \<Longrightarrow> (p, length dat) \<in> set (heap_live al h)"
    and ap: "\<And>q m obj. (q, m, obj) \<in> set (objects g) \<Longrightarrow> 0 < length dat \<Longrightarrow> apart (p, length dat) (q, m)"
  have "unat p + length dat \<le> heap_limit al (heap (g\<lparr>heap := h\<rparr>))" using lim by simp
  then obtain g1 where g1: "host_write al (ucast p) dat (g\<lparr>heap := h\<rparr>) = Inr g1" "objects g1 = objects g" "heap g1 = h"
    "read_bytes p (length dat) g1 = dat"
    by (rule host_write_buffer [where dat = dat]) (use ap in auto)
  have inv1: "guest_inv al g1" using inv g1 by (simp add: guest_inv_def)
  have run: "deliver_data (guest_env al cd hash b58 deser binary) GAllocate dat F g
      = trapping (ingest al cd decode p (of_nat (length dat)) g1)"
    by (simp add: deliver_data_def Let_def a g1(1) assms(6))
  show thesis
  proof (rule ingest_buffer [OF assms(1) inv1, of decode p "length dat" obj cd])
    show "decode (read_bytes p (length dat) g1) = Some obj" using g1(4) assms(3) by simp
    show "unat p + length dat \<le> heap_limit al (heap g1)" using lim g1(3) by simp
    show "0 < length dat \<Longrightarrow> (p, length dat) \<in> set (heap_live al (heap g1))" using live g1(3) by simp
    show "\<And>q m obj. (q, m, obj) \<in> set (objects g1) \<Longrightarrow> 0 < length dat \<Longrightarrow> apart (p, length dat) (q, m)"
      using ap g1(2) by simp
  next
    assume "ingest al cd decode p (of_nat (length dat)) g1 = None"
      "heap_capacity al < heap_used al (heap g1) + object_size cd obj"
    then show thesis using full run used g1(3) by simp
  next
    fix q g'
    assume "ingest al cd decode p (of_nat (length dat)) g1 = Some (q, g')" "guest_inv al g'"
      "objects g' = (q, object_size cd obj, obj) # objects g1" "q \<notin> fst ` set (objects g1)"
      "heap_used al (heap g') = heap_used al (heap g1) + object_size cd obj"
    then show thesis using delivered [of q g'] run used g1(2,3) by simp
  qed (use assms(4,5) in auto)
qed

section \<open>A predicate call\<close>

definition guest_answer :: "guest_predicate \<Rightarrow> params \<Rightarrow> predicate_context \<Rightarrow> exec_error + bool" where
  "guest_answer f ps ctx = (case f ps ctx of Some b \<Rightarrow> Inr b | None \<Rightarrow> Inl (ErrExecution trap))"

lemma reserved_exports [simp]:
  "guest_export lib ''__allocate'' = Inr GAllocate"
  "guest_export lib ''__ingest_context'' = Inr GIngestContext"
  "guest_export lib ''__ingest_params'' = Inr GIngestParams"
  by (simp_all add: guest_export_def)

lemma run_guest:
  assumes "allocator_laws al" "codec_ok cd" "enc_context cd ctx = Inr c" "enc_params cd (pred_params p) = Inr ps"
    "entrypoint (pred_code p) \<notin> set reserved_names"
    "lib (entrypoint (pred_code p)) = Some f"
  shows "run_module (guest_env al cd hash b58 deser binary) c p lib
      \<in> {guest_answer f (pred_params p) ctx, Inl (ErrExecution trap)}
    \<and> (length c + object_size cd (OContext ctx) + length ps + object_size cd (OParams (pred_params p)) \<le> heap_capacity al
        \<longrightarrow> run_module (guest_env al cd hash b58 deser binary) c p lib = guest_answer f (pred_params p) ctx)"
proof -
  let ?w = "guest_env al cd hash b58 deser binary"
  let ?g = "\<lparr>linear = (\<lambda>_. 0), objects = [], heap = fresh_heap al 32\<rparr>"
  let ?pd = "\<lambda>bs. map_option OParams (dec_params cd bs)" and ?cdec = "\<lambda>bs. map_option OContext (dec_context cd bs)"
  note fresh = allocator_lawsD(1-3) [OF assms(1), of 32]
  have e: "guest_export lib (entrypoint (pred_code p)) = Inr (GPredicate f)"
    using assms(5,6) by (simp add: guest_export_def reserved_names_def)
  have pos: "0 < object_size cd obj" for obj using assms(2) by (simp add: codec_ok_def)
  have dec: "?cdec c = Some (OContext ctx)" "?pd ps = Some (OParams (pred_params p))"
    and len: "length c < 2 ^ 31" "length ps < 2 ^ 31"
    using assms(2,3,4) by (simp_all add: codec_ok_def)
  have fns: "guest_call_ingest al cd GIngestContext = (\<lambda>p len g. trapping (ingest al cd ?cdec p len g))"
    "guest_call_ingest al cd GIngestParams = (\<lambda>p len g. trapping (ingest al cd ?pd p len g))"
    by (simp_all add: fun_eq_iff guest_call_ingest_def ingest_context_def ingest_params_def)
  have inv: "guest_inv al ?g" using fresh by (simp add: guest_inv_def)
  have run: "run_module ?w c p lib =
    bind_res (map_err ErrExecution (deliver_data ?w GAllocate c GIngestContext ?g)) (\<lambda>(context_ptr, g).
    bind_res (map_err ErrExecution (deliver_data ?w GAllocate ps GIngestParams g)) (\<lambda>(params_ptr, g).
    bind_res (map_err ErrExecution (trapping (call_predicate f params_ptr context_ptr g))) (\<lambda>(r, g).
      if r = 0 then Inr False else if r = 1 then Inr True else Inl (InvalidReturnValue r))))"
    by (simp add: run_module_def e assms(4) map_err_def)
  show ?thesis
  proof (rule deliver_cases [OF assms(1) inv dec(1) pos len(1) fns(1), of hash b58 deser binary])
    assume "deliver_data ?w GAllocate c GIngestContext ?g = Inl trap"
      "heap_capacity al < heap_used al (heap ?g) + (length c + object_size cd (OContext ctx))"
    then show ?thesis using fresh by (simp add: run map_err_def)
  next
    fix q g1
    assume d1: "deliver_data ?w GAllocate c GIngestContext ?g = Inr (q, g1)" and inv1: "guest_inv al g1"
      and o1: "objects g1 = (q, object_size cd (OContext ctx), OContext ctx) # objects ?g"
      and u1: "heap_used al (heap g1) = heap_used al (heap ?g) + (length c + object_size cd (OContext ctx))"
    show ?thesis
    proof (rule deliver_cases [OF assms(1) inv1 dec(2) pos len(2) fns(2), of hash b58 deser binary])
      assume "deliver_data ?w GAllocate ps GIngestParams g1 = Inl trap"
        "heap_capacity al < heap_used al (heap g1) + (length ps + object_size cd (OParams (pred_params p)))"
      then show ?thesis using fresh u1 d1 by (simp add: run map_err_def)
    next
      fix r g2
      assume d2: "deliver_data ?w GAllocate ps GIngestParams g1 = Inr (r, g2)"
        and o2: "objects g2 = (r, object_size cd (OParams (pred_params p)), OParams (pred_params p)) # objects g1"
        and r: "r \<notin> fst ` set (objects g1)"
      have "call_predicate f r q g2 = map_option (\<lambda>b. (if b then 1 else 0, g2)) (f (pred_params p) ctx)"
        using r by (simp add: call_predicate_def o1 o2)
      then have "run_module ?w c p lib = guest_answer f (pred_params p) ctx"
        by (cases "f (pred_params p) ctx") (simp_all add: run d1 d2 map_err_def guest_answer_def)
      then show ?thesis by simp
    qed
  qed
qed

text \<open>A guest never answers anything but what its predicate returns.\<close>

lemma run_guest_True:
  assumes "allocator_laws al" "codec_ok cd" "enc_context cd ctx = Inr c" "entrypoint (pred_code p) \<notin> set reserved_names"
    "run_module (guest_env al cd hash b58 deser binary) c p lib = Inr True"
  obtains f where "lib (entrypoint (pred_code p)) = Some f" "f (pred_params p) ctx = Some True"
proof -
  let ?w = "guest_env al cd hash b58 deser binary"
  from assms(5) have "\<exists>ps. enc_params cd (pred_params p) = Inr ps"
    and "\<exists>f. guest_export lib (entrypoint (pred_code p)) = Inr f"
    by (auto simp: run_module_def map_err_def split: sum.splits)
  then obtain ps f where ps: "enc_params cd (pred_params p) = Inr ps" and f: "lib (entrypoint (pred_code p)) = Some f"
    using assms(4) by (auto simp: guest_export_def reserved_names_def split: option.splits)
  from run_guest [where lib = lib, OF assms(1-3) ps assms(4) f, of hash b58 deser binary] assms(5)
  have "guest_answer f (pred_params p) ctx = Inr True" by auto
  then show thesis using that f by (auto simp: guest_answer_def split: option.splits)
qed

section \<open>The attribute macro\<close>

text \<open>What \<open>#[predicate]\<close> looks at in the syntax tree of a function; forms it does not distinguish are
  \<open>Other\<close>.\<close>

datatype syn_type =
    TyReference bool syn_type
  | TyPath "(string \<times> path_arguments) list"
  | TyOther
and path_arguments =
    ArgsNone
  | AngleBracketed "generic_argument list"
  | Parenthesized
and generic_argument =
    GenericType syn_type
  | GenericOther

datatype fn_arg = Receiver | Typed syn_type

datatype return_type = ReturnDefault | ReturnType syn_type

record item_fn =
  fn_ident :: string
  fn_inputs :: "fn_arg list"
  fn_output :: return_type
  fn_attrs :: "string list"
  fn_abi :: "string option"

definition is_params_ref :: "syn_type \<Rightarrow> bool" where
  "is_params_ref t =
     (case t of
        TyReference False (TyPath (s # segs)) \<Rightarrow>
          (case last (s # segs) of
             (ident, AngleBracketed (GenericType (TyPath (g # gs)) # _)) \<Rightarrow>
               ident = ''Vec'' \<and> fst (last (g # gs)) = ''ExpandedParam''
           | _ \<Rightarrow> False)
      | _ \<Rightarrow> False)"

definition is_context_ref :: "syn_type \<Rightarrow> bool" where
  "is_context_ref t =
     (case t of
        TyReference False (TyPath (s # segs)) \<Rightarrow> fst (last (s # segs)) = ''PredicateContext''
      | _ \<Rightarrow> False)"

text \<open>\<open>None\<close> is the panic on a reserved name.\<close>

definition verify_signature :: "item_fn \<Rightarrow> bool option" where
  "verify_signature f =
     (if fn_ident f \<in> set reserved_names then None
      else
        let args_ok = (case fn_inputs f of
              [Typed first, Typed second] \<Rightarrow> is_params_ref first \<and> is_context_ref second
            | _ \<Rightarrow> False) in
        if \<not> args_ok then Some False
        else case fn_output f of
               ReturnType (TyPath segs) \<Rightarrow> Some (segs = [(''bool'', ArgsNone)])
             | _ \<Rightarrow> Some True)"

definition decorate_entrypoint_abi :: "item_fn \<Rightarrow> item_fn" where
  "decorate_entrypoint_abi f = f\<lparr>fn_attrs := fn_attrs f @ [''no_mangle'', ''allow(clippy::ptr_arg)''], fn_abi := Some ''extern''\<rparr>"

text \<open>\<open>None\<close> is a panic of the macro, which stops the compilation.\<close>

definition predicate_attribute :: "item_fn \<Rightarrow> item_fn option" where
  "predicate_attribute f =
     (case verify_signature f of
        Some True \<Rightarrow> Some (decorate_entrypoint_abi f)
      | _ \<Rightarrow> None)"

text \<open>The macro lets a function through exactly if its name is not reserved, it takes a reference to a
  vector of \<open>ExpandedParam\<close> and one to a \<open>PredicateContext\<close>, and its return type is not a path other than
  \<open>bool\<close>.  A function without a return type, or returning a tuple or a reference, is let through, though
  the message asks for \<open>bool\<close>.\<close>

lemma predicate_attribute_iff:
  "(\<exists>f'. predicate_attribute f = Some f') \<longleftrightarrow>
     fn_ident f \<notin> set reserved_names
     \<and> (\<exists>p c. fn_inputs f = [Typed p, Typed c] \<and> is_params_ref p \<and> is_context_ref c)
     \<and> (\<forall>segs. fn_output f = ReturnType (TyPath segs) \<longrightarrow> segs = [(''bool'', ArgsNone)])"
proof -
  have args: "(case fn_inputs f of [Typed first, Typed second] \<Rightarrow> is_params_ref first \<and> is_context_ref second | _ \<Rightarrow> False)
    \<longleftrightarrow> (\<exists>p c. fn_inputs f = [Typed p, Typed c] \<and> is_params_ref p \<and> is_context_ref c)"
    by (cases "fn_inputs f"; cases "tl (fn_inputs f)"; cases "tl (tl (fn_inputs f))") (auto split: fn_arg.splits)
  show ?thesis unfolding predicate_attribute_def verify_signature_def Let_def args
    by (cases "fn_output f") (auto split: syn_type.splits bool.splits)
qed

lemma no_return_type_accepted:
  "\<exists>f'. predicate_attribute \<lparr>fn_ident = ''broken'', fn_inputs =
       [Typed (TyReference False (TyPath [(''Vec'', AngleBracketed [GenericType (TyPath [(''ExpandedParam'', ArgsNone)])])])),
        Typed (TyReference False (TyPath [(''PredicateContext'', ArgsNone)]))],
     fn_output = ReturnDefault, fn_attrs = [], fn_abi = None\<rparr> = Some f'"
  unfolding predicate_attribute_iff by (simp add: reserved_names_def is_params_ref_def is_context_ref_def)

section \<open>The standard library as a guest\<close>

text \<open>What \<open>stdpred/src/lib.rs\<close> exports.\<close>

definition stdpred_library :: "'sig decoders \<Rightarrow> library" where
  "stdpred_library dec = map_of
     [(''uint_equal'', uint_equal dec), (''uint_greater_than'', uint_greater_than dec),
      (''uint_greater_than_equal'', uint_greater_than_equal dec), (''uint_less_than'', uint_less_than dec),
      (''uint_less_than_equal'', uint_less_than_equal dec), (''uint_greater_than_by'', uint_greater_than_by dec),
      (''uint_less_than_by'', uint_less_than_by dec), (''bytes_equal'', bytes_equal),
      (''constant'', constant_pred dec), (''immutable_state'', immutable_state dec),
      (''immutable_predicates'', immutable_predicates dec), (''is_empty_map'', is_empty_map dec),
      (''contains_key'', contains_key dec), (''key_equals'', key_equals dec),
      (''is_empty_set'', is_empty_set dec), (''contains_element'', contains_element dec),
      (''require_ed25519_signature'', require_ed25519_signature dec)]"

section \<open>A concrete guest\<close>

text \<open>A heap that hands out consecutive blocks of 32 pages, and a codec for the given values, which are
  numbered in unary.  The theorems are applied to them.\<close>

definition bump_heap :: "(nat \<times> (u32 \<times> nat) list) allocator" where
  "bump_heap = \<lparr>fresh_heap = (\<lambda>_. (0, [])),
     heap_alloc = (\<lambda>n (used, live). if 8 + used + n \<le> 2097152 then Some (of_nat (8 + used), (used + n, (of_nat (8 + used), n) # live)) else None),
     heap_free = (\<lambda>p n (used, live). (used, filter (\<lambda>b. b \<noteq> (p, n)) live)),
     heap_limit = (\<lambda>_. 2097152), heap_live = snd, heap_used = fst,
     heap_ok = (\<lambda>(used, live). 8 + used \<le> 2097152 \<and> list_all (\<lambda>(p, n). unat p + n \<le> 8 + used) live),
     heap_capacity = 2097144\<rparr>"

lemma bump_heap_laws: "allocator_laws bump_heap"
proof -
  have u: "unat (8 + of_nat used :: u32) = 8 + used" if "8 + used \<le> 2097152" for used
  proof -
    have "unat (of_nat (8 + used) :: u32) = 8 + used" using that by (intro unat_len) simp
    then show ?thesis by simp
  qed
  show ?thesis
    by (auto simp: allocator_laws_def bump_heap_def list_all_iff apart_def u split: if_splits prod.splits)
qed

fun index_of :: "'a \<Rightarrow> 'a list \<Rightarrow> nat option" where
  "index_of x [] = None"
| "index_of x (y # ys) = (if x = y then Some 0 else map_option Suc (index_of x ys))"

lemma index_of_Some: "index_of x ys = Some i \<Longrightarrow> i < length ys \<and> ys ! i = x"
  by (induction ys arbitrary: i) (auto split: if_splits)

definition table_codec :: "predicate_context list \<Rightarrow> params list \<Rightarrow> guest_codec" where
  "table_codec ctxs pss = \<lparr>
     enc_context = (\<lambda>x. case index_of x ctxs of Some i \<Rightarrow> Inr (replicate i 0) | None \<Rightarrow> Inl ''unsupported''),
     dec_context = (\<lambda>b. if length b < length ctxs then Some (ctxs ! length b) else None),
     enc_params = (\<lambda>x. case index_of x pss of Some i \<Rightarrow> Inr (replicate i 0) | None \<Rightarrow> Inl ''unsupported''),
     dec_params = (\<lambda>b. if length b < length pss then Some (pss ! length b) else None),
     object_size = (\<lambda>_. 12)\<rparr>"

lemma table_codec_ok: "length ctxs < 2 ^ 31 \<Longrightarrow> length pss < 2 ^ 31 \<Longrightarrow> codec_ok (table_codec ctxs pss)"
  by (auto simp: codec_ok_def table_codec_def dest!: index_of_Some split: option.splits)

section \<open>Properties\<close>

text \<open>C9. Host and guest compose: with an allocator and a codec that keep their contracts, \<open>invoke\<close> on a
  module that exports the predicate returns what the predicate returns on exactly the parameters and the
  context of the call; a panic of the predicate and an exhausted heap are reported as an execution error,
  and the heap is not exhausted as long as the two encodings and the two objects fit its capacity.\<close>

theorem guest_invoke_correct:
  assumes "allocator_laws al" "codec_ok cd" "w = guest_env al cd hash b58 deser binary" "bs58_alphanumeric w"
    "enc_context cd ctx = Inr c" "enc_params cd (pred_params p) = Inr ps"
    "load_module w p cache (Address (predcache_path w (xcode (pred_code p)))) = Inr lib"
    "entrypoint (pred_code p) \<notin> set reserved_names" "lib (entrypoint (pred_code p)) = Some f"
  shows "(invoke w c p cache = Some (guest_answer f (pred_params p) ctx) \<or> invoke w c p cache = Some (Inl (ErrExecution trap)))
    \<and> (length c + object_size cd (OContext ctx) + length ps + object_size cd (OParams (pred_params p)) \<le> heap_capacity al
        \<longrightarrow> invoke w c p cache = Some (guest_answer f (pred_params p) ctx))"
proof -
  have "invoke w c p cache = Some (run_module w c p lib)"
    by (simp add: invoke_def predcache_path_valid [OF assms(4)] assms(7))
  with run_guest [where lib = lib, OF assms(1,2,5,6,8,9), of hash b58 deser binary] assms(3) show ?thesis by auto
qed

definition sample_guest :: "predicate_context list \<Rightarrow> params list \<Rightarrow> (bytes \<Rightarrow> string + library)
    \<Rightarrow> (library, library, guest_fn, (nat \<times> (u32 \<times> nat) list) guest) wasm_env" where
  "sample_guest ctxs pss binary = guest_env bump_heap (table_codec ctxs pss) (\<lambda>b. b) (\<lambda>_. ''x'') (\<lambda>_. None) binary"

lemma sample_guest_ok: "bs58_alphanumeric (sample_guest ctxs pss binary)"
proof -
  have "list_all is_ascii_alphanumeric ''x''" by code_simp
  then show ?thesis by (simp add: bs58_alphanumeric_def sample_guest_def guest_env_def)
qed

theorem guest_invoke_correct_witness:
  "invoke (sample_guest [sample_context] [[XInline [195]]] (\<lambda>_. Inr (stdpred_library sample_decoders))) []
     \<lparr>pred_code = \<lparr>xcode = [1], entrypoint = ''constant''\<rparr>, pred_params = [XInline [195]]\<rparr> (\<lambda>_. None) = Some (Inr True)"
proof -
  let ?cd = "table_codec [sample_context] [[XInline [195]]]"
  let ?w = "sample_guest [sample_context] [[XInline [195]]] (\<lambda>_. Inr (stdpred_library sample_decoders))"
  let ?p = "\<lparr>pred_code = \<lparr>xcode = [1], entrypoint = ''constant''\<rparr>, pred_params = [XInline [195]]\<rparr> :: expanded_predicate"
  have e: "enc_context ?cd sample_context = Inr []" "enc_params ?cd (pred_params ?p) = Inr []"
    by (simp_all add: table_codec_def)
  have l: "load_module ?w ?p (\<lambda>_. None) k = Inr (stdpred_library sample_decoders)" for k
    by (simp add: load_module_def sample_guest_def map_err_def)
  have s: "stdpred_library sample_decoders (entrypoint (pred_code ?p)) = Some (constant_pred sample_decoders)"
    by (simp add: stdpred_library_def)
  have "guest_answer (constant_pred sample_decoders) (pred_params ?p) sample_context = Inr True"
    by (simp add: guest_answer_def constant_pred_def sample_decoders_def)
  with guest_invoke_correct [where lib = "stdpred_library sample_decoders", OF bump_heap_laws table_codec_ok sample_guest_def sample_guest_ok e l _ s]
  show ?thesis by (simp add: reserved_names_def table_codec_def bump_heap_def)
qed

end
