(* ===== verification/Token.thy ===== *)
theory Token
  imports Stdpred
begin

text \<open>
  The token example, \<open>sdk/predicates/examples/token.rs\<close>: the validity predicate of a token account.
  Balances are 64-bit; \<open>checked\<close> says whether the build profile has overflow checks, under which an
  overflowing addition or subtraction panics (\<open>None\<close>); without them, as in the release profile of
  the workspace, it wraps.
\<close>

definition add_u64 :: "bool \<Rightarrow> u64 \<Rightarrow> u64 \<Rightarrow> u64 option" where
  "add_u64 checked a b = (if checked \<and> a + b < a then None else Some (a + b))"

definition sub_u64 :: "bool \<Rightarrow> u64 \<Rightarrow> u64 \<Rightarrow> u64 option" where
  "sub_u64 checked a b = (if checked \<and> a < b then None else Some (a - b))"

definition read_total_supply :: "'sig decoders \<Rightarrow> bytes \<Rightarrow> u64 option" where
  "read_total_supply dec state = dec_u64 dec state"

definition pre_balance :: "'sig decoders \<Rightarrow> expanded_account_change \<Rightarrow> u64 option" where
  "pre_balance dec change =
     (case change of
        XReplaceState cur _ \<Rightarrow> dec_u64 dec cur
      | XDeleteAccount cur \<Rightarrow> dec_u64 dec (acc_state cur)
      | _ \<Rightarrow> Some 0)"

definition post_balance :: "'sig decoders \<Rightarrow> expanded_account_change \<Rightarrow> u64 option" where
  "post_balance dec change =
     (case change of
        XCreateAccount acc \<Rightarrow> dec_u64 dec (acc_state acc)
      | XReplaceState _ prop \<Rightarrow> dec_u64 dec prop
      | _ \<Rightarrow> Some 0)"

fun fold_balances ::
  "bool \<Rightarrow> (expanded_account_change \<Rightarrow> u64 option) \<Rightarrow> (address \<times> expanded_account_change) list \<Rightarrow> u64 \<Rightarrow> u64 option"
where
  "fold_balances checked balance [] acc = Some acc"
| "fold_balances checked balance ((a, change) # rest) acc =
     (case balance change of
        None \<Rightarrow> None
      | Some b \<Rightarrow>
          (case add_u64 checked acc b of
             None \<Rightarrow> None
           | Some acc \<Rightarrow> fold_balances checked balance rest acc))"

definition wallets :: "address \<Rightarrow> predicate_context \<Rightarrow> (address \<times> expanded_account_change) list" where
  "wallets token_addr ctx = filter (\<lambda>(addr, _). is_parent_of token_addr addr) (ctx_proposals ctx)"

definition sum_balances :: "bool \<Rightarrow> 'sig decoders \<Rightarrow> address \<Rightarrow> predicate_context \<Rightarrow> (u64 \<times> u64) option" where
  "sum_balances checked dec token_addr ctx =
     (case fold_balances checked (pre_balance dec) (wallets token_addr ctx) 0 of
        None \<Rightarrow> None
      | Some pre_sum \<Rightarrow>
          map_option (\<lambda>post_sum. (pre_sum, post_sum))
            (fold_balances checked (post_balance dec) (wallets token_addr ctx) 0))"

fun any_signature :: "'sig decoders \<Rightarrow> bytes \<Rightarrow> string \<Rightarrow> (multihash \<times> calldata) list \<Rightarrow> bool" where
  "any_signature dec pubkey key [] = False"
| "any_signature dec pubkey key ((hash, cd) # rest) =
     (case bt_get cd key of
        Some s \<Rightarrow>
          (case signature_from_bytes dec s of
             Some sig \<Rightarrow> if verify dec pubkey hash sig then True else any_signature dec pubkey key rest
           | None \<Rightarrow> any_signature dec pubkey key rest)
      | None \<Rightarrow> any_signature dec pubkey key rest)"

definition is_signed_by_mint_auth :: "'sig decoders \<Rightarrow> bytes \<Rightarrow> predicate_context \<Rightarrow> bool" where
  "is_signed_by_mint_auth dec mint_auth ctx =
     any_signature dec mint_auth (to_base58 dec mint_auth) (ctx_calldata ctx)"

text \<open>The two branches on the proposal for the token account itself.\<close>

definition check_mint :: "'sig decoders \<Rightarrow> u64 \<Rightarrow> expanded_account_change \<Rightarrow> bool option" where
  "check_mint dec expected total_supply_proposal =
     (case total_supply_proposal of
        XCreateAccount acc \<Rightarrow> map_option (\<lambda>s. s = expected) (read_total_supply dec (acc_state acc))
      | XReplaceState _ prop \<Rightarrow> map_option (\<lambda>s. s = expected) (read_total_supply dec prop)
      | XReplacePredicates _ _ \<Rightarrow> Some False
      | XDeleteAccount _ \<Rightarrow> Some False)"

definition check_burn :: "'sig decoders \<Rightarrow> u64 \<Rightarrow> expanded_account_change \<Rightarrow> bool option" where
  "check_burn dec expected total_supply_proposal =
     (case total_supply_proposal of
        XCreateAccount _ \<Rightarrow> Some False
      | XReplaceState _ prop \<Rightarrow> map_option (\<lambda>s. s = expected) (read_total_supply dec prop)
      | XReplacePredicates _ _ \<Rightarrow> Some False
      | XDeleteAccount _ \<Rightarrow> Some (expected = 0))"

definition check_supply ::
  "bool \<Rightarrow> 'sig decoders \<Rightarrow> address \<Rightarrow> bytes \<Rightarrow> u64 \<Rightarrow> predicate_context \<Rightarrow> u64 \<Rightarrow> u64 \<Rightarrow> bool option"
where
  "check_supply checked dec self_addr mint_auth current_total_supply ctx pre post =
     (if pre = post then Some True
      else if \<not> is_signed_by_mint_auth dec mint_auth ctx then Some False
      else case bt_get (ctx_proposals ctx) self_addr of
             None \<Rightarrow> Some False
           | Some total_supply_proposal \<Rightarrow>
               (case add_u64 checked current_total_supply post of
                  None \<Rightarrow> None
                | Some s \<Rightarrow>
                    (case sub_u64 checked s pre of
                       None \<Rightarrow> None
                     | Some expected_new_supply \<Rightarrow>
                         if pre < post then check_mint dec expected_new_supply total_supply_proposal
                         else check_burn dec expected_new_supply total_supply_proposal)))"

definition token_predicate :: "bool \<Rightarrow> 'sig decoders \<Rightarrow> params \<Rightarrow> predicate_context \<Rightarrow> bool option" where
  "token_predicate checked dec ps ctx =
     (case ps of
        [p, q, r] \<Rightarrow>
          (case dec_address dec (expanded_param_data p) of
             None \<Rightarrow> None
           | Some self_addr \<Rightarrow>
          (case dec_pubkey dec (expanded_param_data q) of
             None \<Rightarrow> None
           | Some mint_auth \<Rightarrow>
          (case r of
             XAccountRef addr state \<Rightarrow>
               if self_addr \<noteq> addr then None
               else (case read_total_supply dec state of
                       None \<Rightarrow> None
                     | Some current_total_supply \<Rightarrow>
                         (case sum_balances checked dec self_addr ctx of
                            None \<Rightarrow> None
                          | Some (pre, post) \<Rightarrow>
                              check_supply checked dec self_addr mint_auth current_total_supply ctx pre post))
           | _ \<Rightarrow> None)))
      | _ \<Rightarrow> None)"

section \<open>Sums of balances\<close>

text \<open>The sums the specification speaks of: natural numbers, no wrap-around.\<close>

definition total :: "(expanded_account_change \<Rightarrow> u64 option) \<Rightarrow> address \<Rightarrow> predicate_context \<Rightarrow> nat" where
  "total balance token_addr ctx =
     sum_list (map (\<lambda>(a, ch). case balance ch of Some b \<Rightarrow> unat b | None \<Rightarrow> 0) (wallets token_addr ctx))"

lemma add_u64_unat: "add_u64 checked a b = Some c \<Longrightarrow> unat c = (unat a + unat b) mod 2 ^ 64"
  by (auto simp: add_u64_def unat_word_ariths split: if_splits)

lemma add_u64_checked: "add_u64 True a b = Some c \<Longrightarrow> unat c = unat a + unat b"
proof -
  assume "add_u64 True a b = Some c"
  then have "a \<le> a + b" "c = a + b" by (auto simp: add_u64_def split: if_splits)
  moreover from this(1) have "unat a + unat b < 2 ^ 64" by (simp add: no_olen_add_nat)
  ultimately show ?thesis by (simp add: unat_word_ariths)
qed

lemma fold_balances_mod:
  "fold_balances checked balance ws acc = Some s \<Longrightarrow>
   unat s = (unat acc + sum_list (map (\<lambda>(a, ch). case balance ch of Some b \<Rightarrow> unat b | None \<Rightarrow> 0) ws)) mod 2 ^ 64"
proof (induction ws arbitrary: acc)
  case Nil
  then show ?case using unsigned_less [of acc, where ?'a = nat] by simp
next
  case (Cons w ws)
  obtain a ch where w: "w = (a, ch)" by (cases w)
  with Cons.prems obtain b acc' where b: "balance ch = Some b" "add_u64 checked acc b = Some acc'"
    and rest: "fold_balances checked balance ws acc' = Some s" by (auto split: option.splits)
  from Cons.IH [OF rest] add_u64_unat [OF b(2)] b(1) w show ?case by (simp add: mod_simps add.assoc)
qed

lemma fold_balances_checked:
  "fold_balances True balance ws acc = Some s \<Longrightarrow>
   unat s = unat acc + sum_list (map (\<lambda>(a, ch). case balance ch of Some b \<Rightarrow> unat b | None \<Rightarrow> 0) ws)"
proof (induction ws arbitrary: acc)
  case (Cons w ws)
  obtain a ch where w: "w = (a, ch)" by (cases w)
  with Cons.prems obtain b acc' where b: "balance ch = Some b" "add_u64 True acc b = Some acc'"
    and rest: "fold_balances True balance ws acc' = Some s" by (auto split: option.splits)
  from Cons.IH [OF rest] add_u64_checked [OF b(2)] b(1) w show ?case by simp
qed simp

lemma sum_balances_total:
  assumes "sum_balances checked dec a ctx = Some (pre, post)"
  shows "unat pre = total (pre_balance dec) a ctx mod 2 ^ 64" "unat post = total (post_balance dec) a ctx mod 2 ^ 64"
    and "checked \<Longrightarrow> unat pre = total (pre_balance dec) a ctx \<and> unat post = total (post_balance dec) a ctx"
  using assms fold_balances_mod [of checked _ "wallets a ctx" 0] fold_balances_checked [of _ "wallets a ctx" 0]
  by (auto simp: sum_balances_def total_def split: option.splits)

lemma any_signature_iff:
  "any_signature dec pk (to_base58 dec pk) es \<longleftrightarrow> (\<exists>e \<in> set es. signed_by dec pk e)"
proof (induction es)
  case (Cons e es)
  then show ?case by (cases e) (auto simp: signed_by_def split: option.splits)
qed simp

lemma token_predicate_True:
  assumes "token_predicate checked dec [p, q, r] ctx = Some True"
  obtains self_addr mint_auth tsup pre post state where
    "dec_address dec (expanded_param_data p) = Some self_addr" "dec_pubkey dec (expanded_param_data q) = Some mint_auth"
    "r = XAccountRef self_addr state" "read_total_supply dec state = Some tsup"
    "sum_balances checked dec self_addr ctx = Some (pre, post)"
    "check_supply checked dec self_addr mint_auth tsup ctx pre post = Some True"
  using assms that by (auto simp: token_predicate_def split: option.splits expanded_param.splits if_splits)

definition token_context :: "bytes \<Rightarrow> bytes \<Rightarrow> predicate_context" where
  "token_context x y = \<lparr>ctx_calldata = [], ctx_proposals =
     [(Address ''/t/a'', XCreateAccount (sample_account x)), (Address ''/t/b'', XReplaceState [5] y)]\<rparr>"

definition token_params :: params where
  "token_params = [XInline [47, 116], XInline [7], XAccountRef (Address ''/t'') [9]]"

definition inflation_context :: predicate_context where
  "inflation_context = \<lparr>ctx_calldata = [], ctx_proposals =
     [(Address ''/t/a'', XCreateAccount (sample_account [128, 0])), (Address ''/t/b'', XCreateAccount (sample_account [128, 0]))]\<rparr>"

section \<open>Properties\<close>






end
