(* ===== verification/Query.thy ===== *)
theory Query
  imports Predicates
begin

text \<open>
  Patterns over predicate trees: \<open>sdk/offchain/src/query.rs\<close>.  A solver matches an intent's
  expectations against a template and gets back the captured parameters.  \<open>find_matches\<close> threads the
  hash map of captures through the recursion, as the closure's \<open>&mut\<close> argument does; what a failed
  match has already captured is kept in the second component, and dropped by \<open>matches\<close> alone.
\<close>

section \<open>Data\<close>

datatype param_pattern =
    PAny
  | PExact param
  | PInline string
  | PAccountRef string
  | PProposalRef string
  | PCalldataRef string

datatype match_value =
    MAddress address
  | MBytes bytes
  | MString string

type_synonym captures = "string \<rightharpoonup> match_value"
type_synonym query_predicate = "(code, param_pattern) predicate"
type_synonym query_tree = "query_predicate expression_tree"

section \<open>The matcher\<close>

text \<open>The loop over the zipped parameters with its early returns.\<close>

fun match_params :: "(param \<times> param_pattern) list \<Rightarrow> captures \<Rightarrow> bool \<times> captures" where
  "match_params [] m = (True, m)"
| "match_params ((l, r) # ps) m =
     (case (l, r) of
        (_, PAny) \<Rightarrow> match_params ps m
      | (_, PExact right_p) \<Rightarrow> (l = right_p, m)
      | (ParamInline v, PInline name) \<Rightarrow> match_params ps (m(name \<mapsto> MBytes v))
      | (ParamAccountRef v, PAccountRef name) \<Rightarrow> match_params ps (m(name \<mapsto> MAddress v))
      | (ParamProposalRef v, PProposalRef name) \<Rightarrow> match_params ps (m(name \<mapsto> MAddress v))
      | (ParamCalldataRef v, PCalldataRef name) \<Rightarrow> match_params ps (m(name \<mapsto> MString v))
      | _ \<Rightarrow> (False, m))"

fun find_matches :: "predicate_tree \<Rightarrow> query_tree \<Rightarrow> captures \<Rightarrow> bool \<times> captures" where
  "find_matches (TId b) (TId p) m =
     (if pred_code b = pred_code p \<and> length (pred_params b) = length (pred_params p)
      then match_params (zip (pred_params b) (pred_params p)) m
      else (False, m))"
| "find_matches (TNot l) (TNot r) m = find_matches l r m"
| "find_matches (TAnd ll lr) (TAnd rl rr) m =
     (let (ok, m') = find_matches ll rl m in if ok then find_matches lr rr m' else (False, m'))"
| "find_matches (TOr ll lr) (TOr rl rr) m =
     (let (ok, m') = find_matches ll rl m in if ok then find_matches lr rr m' else (False, m'))"
| "find_matches _ _ m = (False, m)"

definition matches :: "predicate_tree \<Rightarrow> query_tree \<Rightarrow> captures option" where
  "matches t template =
     (let (ok, m) = find_matches t template Map.empty in if ok then Some m else None)"

section \<open>What a match means\<close>

text \<open>The parameter-wise reading of a pattern, and the tree-wise reading of a template.\<close>

fun fits :: "param \<Rightarrow> param_pattern \<Rightarrow> bool" where
  "fits _ PAny = True"
| "fits l (PExact r) = (l = r)"
| "fits (ParamInline _) (PInline _) = True"
| "fits (ParamAccountRef _) (PAccountRef _) = True"
| "fits (ParamProposalRef _) (PProposalRef _) = True"
| "fits (ParamCalldataRef _) (PCalldataRef _) = True"
| "fits _ _ = False"

fun capture :: "param \<times> param_pattern \<Rightarrow> (string \<times> match_value) list" where
  "capture (ParamInline v, PInline n) = [(n, MBytes v)]"
| "capture (ParamAccountRef v, PAccountRef n) = [(n, MAddress v)]"
| "capture (ParamProposalRef v, PProposalRef n) = [(n, MAddress v)]"
| "capture (ParamCalldataRef v, PCalldataRef n) = [(n, MString v)]"
| "capture _ = []"

fun tree_rel :: "('a \<Rightarrow> 'b \<Rightarrow> bool) \<Rightarrow> 'a expression_tree \<Rightarrow> 'b expression_tree \<Rightarrow> bool" where
  "tree_rel f (TId b) (TId p) = f b p"
| "tree_rel f (TNot l) (TNot r) = tree_rel f l r"
| "tree_rel f (TAnd l l') (TAnd r r') = (tree_rel f l r \<and> tree_rel f l' r')"
| "tree_rel f (TOr l l') (TOr r r') = (tree_rel f l r \<and> tree_rel f l' r')"
| "tree_rel f _ _ = False"

definition fits_pred :: "basic_predicate \<Rightarrow> query_predicate \<Rightarrow> bool" where
  "fits_pred b p = (pred_code b = pred_code p \<and> list_all2 fits (pred_params b) (pred_params p))"

definition pred_captures :: "basic_predicate \<times> query_predicate \<Rightarrow> (string \<times> match_value) list" where
  "pred_captures bp = concat (map capture (zip (pred_params (fst bp)) (pred_params (snd bp))))"

text \<open>A template in which an exact pattern is always the last parameter of its predicate.\<close>

definition exact_last :: "query_predicate \<Rightarrow> bool" where
  "exact_last p = (\<forall>r \<in> set (butlast (pred_params p)). \<not> (\<exists>x. r = PExact x))"

definition all_captures :: "predicate_tree \<Rightarrow> query_tree \<Rightarrow> (string \<times> match_value) list" where
  "all_captures t q = concat (map pred_captures (zip (tree_leaves t) (tree_leaves q)))"

definition insert_all :: "(string \<times> match_value) list \<Rightarrow> captures \<Rightarrow> captures" where
  "insert_all kvs m = fold (\<lambda>(k, v) m. m(k \<mapsto> v)) kvs m"

lemma insert_all_simps [simp]:
  "insert_all [] m = m"
  "insert_all ((k, v) # kvs) m = insert_all kvs (m(k \<mapsto> v))"
  "insert_all (kvs @ kvs') m = insert_all kvs' (insert_all kvs m)"
  by (simp_all add: insert_all_def)

lemma insert_all_map_of: "insert_all kvs m = m ++ map_of (rev kvs)"
  by (induction kvs arbitrary: m) (auto simp: map_add_upd_left fun_eq_iff map_add_def split: option.splits)

lemma match_params_step:
  assumes "\<not> (\<exists>x. r = PExact x)"
  shows "match_params ((l, r) # ps) m = (if fits l r then match_params ps (insert_all (capture (l, r)) m) else (False, m))"
  using assms by (cases l; cases r) auto

lemma match_params_spec:
  assumes "\<forall>r \<in> set (butlast (map snd ps)). \<not> (\<exists>x. r = PExact x)"
  shows "fst (match_params ps m) = list_all (\<lambda>(l, r). fits l r) ps
    \<and> (fst (match_params ps m) \<longrightarrow> snd (match_params ps m) = insert_all (concat (map capture ps)) m)"
  using assms
proof (induction ps arbitrary: m)
  case (Cons p ps)
  obtain l r where p: "p = (l, r)" by (cases p)
  show ?case
  proof (cases "\<exists>x. r = PExact x")
    case True
    then obtain x where r: "r = PExact x" ..
    with Cons.prems p have "ps = []" by (cases ps) auto
    then show ?thesis using p r by (cases l) auto
  next
    case False
    have "\<forall>r \<in> set (butlast (map snd ps)). \<not> (\<exists>x. r = PExact x)" using Cons.prems by (cases ps) auto
    then show ?thesis using Cons.IH match_params_step [OF False, of l ps m] p by simp
  qed
qed simp

lemma list_all2_zip: "length xs = length ys \<Longrightarrow> list_all (\<lambda>(x, y). P x y) (zip xs ys) = list_all2 P xs ys"
  by (simp add: list_all2_iff list_all_iff)

lemma tree_rel_leaves: "tree_rel f t q \<Longrightarrow> length (tree_leaves t) = length (tree_leaves q)"
  by (induction f t q rule: tree_rel.induct) auto

lemma find_matches_spec:
  assumes "\<forall>p \<in> set (tree_leaves q). exact_last p"
  shows "fst (find_matches t q m) = tree_rel fits_pred t q
    \<and> (fst (find_matches t q m) \<longrightarrow> snd (find_matches t q m) = insert_all (all_captures t q) m)"
  using assms
proof (induction t q m rule: find_matches.induct)
  case (1 b p m)
  show ?case
  proof (cases "pred_code b = pred_code p \<and> length (pred_params b) = length (pred_params p)")
    case True
    then have "map snd (zip (pred_params b) (pred_params p)) = pred_params p" by simp
    with 1 True show ?thesis
      using match_params_spec [of "zip (pred_params b) (pred_params p)" m]
      by (simp add: exact_last_def fits_pred_def list_all2_zip all_captures_def pred_captures_def)
  next
    case False
    then show ?thesis by (auto simp: fits_pred_def dest: list_all2_lengthD)
  qed
next
  case (2 l r m)
  then show ?case by (simp add: all_captures_def)
next
  case (3 ll lr rl rr m)
  obtain ok m' where eq: "find_matches ll rl m = (ok, m')" by (cases "find_matches ll rl m")
  show ?case using 3 eq tree_rel_leaves [of fits_pred ll rl] by (cases ok) (auto simp: all_captures_def)
next
  case (4 ll lr rl rr m)
  obtain ok m' where eq: "find_matches ll rl m = (ok, m')" by (cases "find_matches ll rl m")
  show ?case using 4 eq tree_rel_leaves [of fits_pred ll rl] by (cases ok) (auto simp: all_captures_def)
qed simp_all

section \<open>Properties\<close>

text \<open>C29. Pattern matching is right for templates whose exact patterns come last: \<open>matches\<close> succeeds
  exactly if the two trees have the same shape and every predicate has the template's code and fitting
  parameters, and then returns all the named captures, a later one of the same name replacing an
  earlier one.\<close>

theorem matches_correct:
  assumes "\<forall>p \<in> set (tree_leaves q). exact_last p"
  shows "matches t q = (if tree_rel fits_pred t q then Some (map_of (rev (all_captures t q))) else None)"
  using find_matches_spec [OF assms, of t Map.empty]
  by (auto simp: matches_def insert_all_map_of split: prod.splits)

theorem matches_correct_witness:
  "matches (TId \<lparr>pred_code = CodeInline [], pred_params = [ParamInline [7], ParamCalldataRef ''s'']\<rparr>)
     (TId \<lparr>pred_code = CodeInline [], pred_params = [PInline ''amount'', PExact (ParamCalldataRef ''s'')]\<rparr>)
   = Some [''amount'' \<mapsto> MBytes [7]]"
  by (subst matches_correct) (simp_all add: exact_last_def fits_pred_def all_captures_def pred_captures_def)

text \<open>An exact pattern ends the comparison: when it is not the last parameter, a predicate matches
  whatever follows, and the captures that follow are not made.\<close>

lemma exact_pattern_short_circuit:
  "matches (TId \<lparr>pred_code = c, pred_params = p # ls\<rparr>) (TId \<lparr>pred_code = c, pred_params = PExact p # rs\<rparr>)
   = (if length ls = length rs then Some Map.empty else None)"
  by (cases p) (simp_all add: matches_def)

end
