(* ===== verification/Syncell.thy ===== *)
theory Syncell
  imports Prelude
begin

unbundle bit_operations_syntax

text \<open>
  The run-time checked exclusive cell of \<open>vm/src/syncell.rs\<close>, on a platform with 64-bit \<open>usize\<close>.
  Each atomic read-modify-write of the state word is one step.  \<open>borrow_mut\<close> returns \<open>None\<close> when it
  panics, together with the cell as the panic leaves it.  The crate has no immutable borrow: the
  \<open>SynRef\<close> type is never built, so only its \<open>drop\<close> is translated.
\<close>

record 'a syn_cell =
  cell_state :: u64
  cell_value :: 'a

definition WRITE_BIT :: u64 where
  "WRITE_BIT = push_bit (8 * 8 - 1) 1"

definition syn_new :: "'a \<Rightarrow> 'a syn_cell" where
  "syn_new v = \<lparr>cell_state = 0, cell_value = v\<rparr>"

definition fetch_or_write :: "'a syn_cell \<Rightarrow> u64 \<times> 'a syn_cell" where
  "fetch_or_write c = (cell_state c, c\<lparr>cell_state := cell_state c OR WRITE_BIT\<rparr>)"

definition clear_write :: "'a syn_cell \<Rightarrow> 'a syn_cell" where
  "clear_write c = c\<lparr>cell_state := cell_state c AND NOT WRITE_BIT\<rparr>"

definition borrow_mut :: "'a syn_cell \<Rightarrow> bool \<times> 'a syn_cell" where
  "borrow_mut c =
     (let (old, c) = fetch_or_write c in
      if old AND WRITE_BIT \<noteq> 0 then (False, c)
      else if old \<noteq> 0 then (False, clear_write c)
      else (True, c))"

definition drop_ref :: "'a syn_cell \<Rightarrow> 'a syn_cell" where
  "drop_ref c = c\<lparr>cell_state := cell_state c - 1\<rparr>"

definition drop_ref_mut :: "'a syn_cell \<Rightarrow> 'a syn_cell" where
  "drop_ref_mut c = clear_write c"

text \<open>\<open>cell.borrow_mut().take()\<close>: the borrow, the read of the option, which leaves \<open>None\<close> behind, and the
  drop of the reference at the end of the statement.\<close>

definition syn_take :: "'a option syn_cell \<Rightarrow> ('a option \<times> 'a option syn_cell) option" where
  "syn_take c =
     (case borrow_mut c of
        (False, _) \<Rightarrow> None
      | (True, c) \<Rightarrow> Some (cell_value c, drop_ref_mut (c\<lparr>cell_value := None\<rparr>)))"

section \<open>Threads sharing a cell\<close>

datatype holder = Idle | Holding | Aborted

inductive syn_step :: "'a syn_cell \<times> holder list \<Rightarrow> 'a syn_cell \<times> holder list \<Rightarrow> bool" where
  acquire: "i < length ts \<Longrightarrow> ts ! i = Idle \<Longrightarrow> borrow_mut c = (True, c') \<Longrightarrow> syn_step (c, ts) (c', ts[i := Holding])"
| abort: "i < length ts \<Longrightarrow> ts ! i = Idle \<Longrightarrow> borrow_mut c = (False, c') \<Longrightarrow> syn_step (c, ts) (c', ts[i := Aborted])"
| modify: "i < length ts \<Longrightarrow> ts ! i = Holding \<Longrightarrow> syn_step (c, ts) (c\<lparr>cell_value := v\<rparr>, ts)"
| release: "i < length ts \<Longrightarrow> ts ! i = Holding \<Longrightarrow> syn_step (c, ts) (drop_ref_mut c, ts[i := Idle])"

inductive syn_reachable :: "'a \<Rightarrow> nat \<Rightarrow> 'a syn_cell \<times> holder list \<Rightarrow> bool" for v n where
  init: "syn_reachable v n (syn_new v, replicate n Idle)"
| step: "syn_reachable v n s \<Longrightarrow> syn_step s s' \<Longrightarrow> syn_reachable v n s'"

inductive_cases syn_stepE: "syn_step s s'"

definition syn_inv :: "'a syn_cell \<times> holder list \<Rightarrow> bool" where
  "syn_inv s = ((cell_state (fst s) = 0 \<and> count_list (snd s) Holding = 0)
     \<or> (cell_state (fst s) = WRITE_BIT \<and> count_list (snd s) Holding = 1))"

lemma write_bit_facts [simp]:
  "WRITE_BIT AND WRITE_BIT = WRITE_BIT" "WRITE_BIT OR WRITE_BIT = WRITE_BIT" "WRITE_BIT AND NOT WRITE_BIT = 0"
  "0 OR WRITE_BIT = WRITE_BIT"
  by simp_all

lemma write_bit_nonzero [simp]: "WRITE_BIT \<noteq> 0" "0 \<noteq> WRITE_BIT"
  by (simp_all add: WRITE_BIT_def)

lemma borrow_free [simp]:
  "cell_state c = 0 \<Longrightarrow> borrow_mut c = (True, c\<lparr>cell_state := WRITE_BIT\<rparr>)"
  by (simp add: borrow_mut_def fetch_or_write_def)

lemma borrow_held [simp]: "cell_state c = WRITE_BIT \<Longrightarrow> borrow_mut c = (False, c)"
  by (simp add: borrow_mut_def fetch_or_write_def)

lemma drop_held [simp]: "cell_state c = WRITE_BIT \<Longrightarrow> drop_ref_mut c = c\<lparr>cell_state := 0\<rparr>"
  by (simp add: drop_ref_mut_def clear_write_def)

lemma count_list_update:
  "i < length ts \<Longrightarrow> count_list (ts[i := x]) y + (if ts ! i = y then 1 else 0) = count_list ts y + (if x = y then 1 else 0)"
proof (induction ts arbitrary: i)
  case (Cons a ts)
  show ?case
  proof (cases i)
    case (Suc j)
    with Cons.IH [of j] Cons.prems show ?thesis by (auto split: if_splits)
  qed simp
qed simp

lemma count_list_pos: "i < length ts \<Longrightarrow> ts ! i = y \<Longrightarrow> 0 < count_list ts y"
  using count_list_0_iff [of ts y] nth_mem [of i ts] by auto

lemma syn_step_inv: "syn_step s s' \<Longrightarrow> syn_inv s \<Longrightarrow> syn_inv s'"
proof (induction rule: syn_step.induct)
  case (acquire i ts c c')
  with count_list_update [of i ts Holding Holding] show ?case by (auto simp: syn_inv_def)
next
  case (abort i ts c c')
  with count_list_update [of i ts Aborted Holding] show ?case by (auto simp: syn_inv_def)
next
  case (release i ts c)
  with count_list_update [of i ts Idle Holding] count_list_pos [of i ts Holding] show ?case by (auto simp: syn_inv_def)
qed (auto simp: syn_inv_def)

lemma syn_reachable_inv: "syn_reachable v n s \<Longrightarrow> syn_inv s"
proof (induction rule: syn_reachable.induct)
  case init
  have "count_list (replicate n Idle) Holding = 0" by (induction n) auto
  then show ?case by (simp add: syn_inv_def syn_new_def)
qed (rule syn_step_inv)

lemma syn_take_free:
  "cell_state c = 0 \<Longrightarrow> syn_take c = Some (cell_value c, c\<lparr>cell_value := None\<rparr>)"
  by (simp add: syn_take_def)

section \<open>Properties\<close>

text \<open>C26. Mutual exclusion: however the borrows, writes and drops of any number of threads interleave,
  at most one thread holds the mutable reference, a borrow attempted meanwhile panics and leaves the
  holder's mark in place, and a borrow of a cell nobody holds succeeds.\<close>

theorem syn_cell_exclusive:
  assumes "syn_reachable v n (c, ts)"
  shows "count_list ts Holding \<le> 1 \<and> (fst (borrow_mut c) \<longleftrightarrow> Holding \<notin> set ts)
    \<and> (Holding \<in> set ts \<longrightarrow> snd (borrow_mut c) = c)"
  using syn_reachable_inv [OF assms] count_list_0_iff [of ts Holding] by (auto simp: syn_inv_def)

theorem syn_cell_exclusive_witness:
  "fst (borrow_mut (snd (borrow_mut (syn_new (5 :: nat))))) = False
   \<and> count_list [Idle, Holding] Holding \<le> 1"
proof -
  have b: "borrow_mut (syn_new (5 :: nat)) = (True, snd (borrow_mut (syn_new 5)))" by (simp add: syn_new_def)
  have "syn_reachable 5 2 (snd (borrow_mut (syn_new (5 :: nat))), [Idle, Holding])"
    using syn_reachable.step [OF syn_reachable.init syn_step.acquire [OF _ _ b, of 1 "replicate 2 Idle"]]
    by (simp add: numeral_nat)
  from syn_cell_exclusive [OF this] show ?thesis by simp
qed

end
