(* ===== verification/Schedule.thy ===== *)
theory Schedule
  imports Execution Syncell
begin

text \<open>
  Scheduling the transactions of a block: \<open>vm/src/schedule.rs\<close>.  A dependency graph is the list of
  its cells and the list of its edges \<open>(source, target)\<close> in the order they were added.  The graph
  library's own iterators (outgoing neighbours, incoming edges, the labels of a union-find over the
  edges) are the fields of the parameter \<open>petgraph\<close>; \<open>graph_laws\<close> states what its documentation
  promises of them.  The trees of the schedule run in parallel but on disjoint cells, so they are
  run one after the other here; \<open>exec\<close> stands for \<open>execute\<close> with its schedule chosen per transaction.
  \<open>None\<close> is a panic.
\<close>

section \<open>Read and write sets\<close>

record transaction_refs =
  reads :: "address list"
  writes :: "address list"

definition depends_on :: "transaction_refs \<Rightarrow> transaction_refs \<Rightarrow> bool" where
  "depends_on r other =
     (list_ex (\<lambda>a. a \<in> set (writes other)) (reads r) \<or> list_ex (\<lambda>a. a \<in> set (writes other)) (writes r))"

definition note_read :: "address list \<Rightarrow> address \<Rightarrow> address list \<Rightarrow> address list" where
  "note_read ws a rs = (if a \<in> set ws then rs else List.insert a rs)"

definition note_predicate :: "address list \<Rightarrow> basic_predicate \<Rightarrow> address list \<Rightarrow> address list" where
  "note_predicate ws pred rs =
     (let rs = fold (\<lambda>p rs. case p of ParamAccountRef a \<Rightarrow> note_read ws a rs | _ \<Rightarrow> rs) (pred_params pred) rs in
      case pred_code pred of CodeAccountRef a _ \<Rightarrow> note_read ws a rs | _ \<Rightarrow> rs)"

definition note_account :: "state_view \<Rightarrow> address list \<Rightarrow> address \<Rightarrow> address list \<Rightarrow> address list" where
  "note_account state ws a rs =
     (case state a of Some acc \<Rightarrow> tree_for_each (note_predicate ws) (acc_predicates acc) rs | None \<Rightarrow> rs)"

text \<open>The ancestors are visited only under the \<open>if let Some(acc) = state.get(addr)\<close> of the proposed account.\<close>

fun note_proposals :: "state_view \<Rightarrow> address list \<Rightarrow> address list \<Rightarrow> address list \<Rightarrow> address list option" where
  "note_proposals state ws [] rs = Some rs"
| "note_proposals state ws (a # as) rs =
     (case state a of
        None \<Rightarrow> note_proposals state ws as rs
      | Some acc \<Rightarrow>
          (let rs = tree_for_each (note_predicate ws) (acc_predicates acc) rs in
           case ancestors a of
             None \<Rightarrow> None
           | Some ups \<Rightarrow> note_proposals state ws as (fold (note_account state ws) ups rs)))"

definition refs_new :: "state_view \<Rightarrow> transaction \<Rightarrow> transaction_refs option" where
  "refs_new state tx =
     (let ws = fold List.insert (bt_keys (tx_proposals tx)) [] in
      map_option (\<lambda>rs. \<lparr>reads = fold (\<lambda>i. tree_for_each (note_predicate ws) (expectations i)) (tx_intents tx) rs,
                        writes = ws\<rparr>)
        (note_proposals state ws (bt_keys (tx_proposals tx)) []))"

section \<open>The dependency graph\<close>

type_synonym edges = "(nat \<times> nat) list"
type_synonym node = "(transaction \<times> nat) option syn_cell"

record petgraph =
  pg_neighbors :: "edges \<Rightarrow> nat \<Rightarrow> nat list"
  pg_incoming :: "edges \<Rightarrow> nat \<Rightarrow> nat list"
  pg_labeling :: "nat \<Rightarrow> edges \<Rightarrow> nat list"

record schedule =
  graph_nodes :: "node list"
  graph_edges :: edges
  roots :: "nat list"

text \<open>The queue from its back: pop the last transaction, then scan the remaining ones from the back for
  the first it depends on.\<close>

fun link_queue :: "(transaction_refs \<times> nat) list \<Rightarrow> edges" where
  "link_queue [] = []"
| "link_queue ((r0, ix0) # queue) =
     (case find (\<lambda>(r1, ix1). depends_on r0 r1) queue of
        Some (r1, ix1) \<Rightarrow> (ix1, ix0) # link_queue queue
      | None \<Rightarrow> link_queue queue)"

partial_function (option) climb :: "petgraph \<Rightarrow> edges \<Rightarrow> nat \<Rightarrow> nat option" where
  "climb pg es index =
     (case pg_incoming pg es index of
        [] \<Rightarrow> Some index
      | up # ups \<Rightarrow> climb pg es (last (up # ups)))"

definition find_roots :: "petgraph \<Rightarrow> nat \<Rightarrow> edges \<Rightarrow> nat list option" where
  "find_roots pg n es = opt_list (climb pg es) (remdups_adj (sort (pg_labeling pg n es)))"

definition schedule_new :: "petgraph \<Rightarrow> state_view \<Rightarrow> transaction list \<Rightarrow> schedule option" where
  "schedule_new pg state txs =
     (case opt_list (refs_new state) txs of
        None \<Rightarrow> None
      | Some refs \<Rightarrow>
          (let es = link_queue (rev (zip refs [0..<length txs])) in
           map_option (\<lambda>rts. \<lparr>graph_nodes = map (\<lambda>(tx, ix). syn_new (Some (tx, ix))) (zip txs [0..<length txs]),
                              graph_edges = es, roots = rts\<rparr>)
             (find_roots pg (length txs) es)))"

section \<open>Breadth-first rows\<close>

record bfs_rows =
  bfs_stack :: "(nat \<times> nat) list"
  discovered :: "bool list"
  bfs_row :: nat

definition bfs_new :: "nat \<Rightarrow> nat \<Rightarrow> bfs_rows option" where
  "bfs_new n start =
     (if start < n then Some \<lparr>bfs_stack = [(start, 0)], discovered = (replicate n False)[start := True], bfs_row = 0\<rparr>
      else None)"

text \<open>\<open>VisitMap::visit\<close> is true for a node not seen before and panics out of range.\<close>

fun visit_succs :: "nat list \<Rightarrow> nat \<Rightarrow> (nat \<times> nat) list \<Rightarrow> bool list \<Rightarrow> ((nat \<times> nat) list \<times> bool list) option" where
  "visit_succs [] level st disc = Some (st, disc)"
| "visit_succs (s # ss) level st disc =
     (if s \<ge> length disc then None
      else if disc ! s then visit_succs ss level st disc
      else visit_succs ss level (st @ [(s, level + 1)]) (disc[s := True]))"

definition undiscovered :: "bool list \<Rightarrow> nat" where
  "undiscovered disc = count_list disc False"

lemma visit_succs_measure:
  "visit_succs ss level st disc = Some (st', disc') \<Longrightarrow>
   length st' + undiscovered disc' = length st + undiscovered disc"
proof (induction ss arbitrary: st disc)
  case (Cons s ss)
  show ?case
  proof (cases "disc ! s")
    case False
    with Cons.prems have lt: "s < length disc" by (auto split: if_splits)
    from count_list_update [OF lt, of True False] False have "undiscovered (disc[s := True]) + 1 = undiscovered disc"
      by (simp add: undiscovered_def)
    with Cons.IH [of "st @ [(s, level + 1)]" "disc[s := True]"] Cons.prems False lt show ?thesis by simp
  qed (use Cons in \<open>auto split: if_splits\<close>)
qed simp

function bfs_loop ::
  "(nat \<Rightarrow> nat list) \<Rightarrow> nat \<Rightarrow> (nat \<times> nat) list \<Rightarrow> bool list \<Rightarrow> nat list \<Rightarrow> ((nat \<times> nat) list \<times> bool list \<times> nat list) option"
where
  "bfs_loop nbr cur [] disc row = Some ([], disc, row)"
| "bfs_loop nbr cur ((v, level) # st) disc row =
     (case visit_succs (nbr v) level st disc of
        None \<Rightarrow> None
      | Some (st', disc') \<Rightarrow>
          if level = cur then bfs_loop nbr cur st' disc' (row @ [v])
          else Some ((v, level) # st', disc', row))"
  by pat_completeness auto
termination
  by (relation "measure (\<lambda>(_, _, st, disc, _). length st + undiscovered disc)")
    (auto dest!: visit_succs_measure)

definition bfs_next :: "(nat \<Rightarrow> nat list) \<Rightarrow> bfs_rows \<Rightarrow> (nat list option \<times> bfs_rows) option" where
  "bfs_next nbr b =
     map_option (\<lambda>(st, disc, row).
         (if row = [] then None else Some row, \<lparr>bfs_stack = st, discovered = disc, bfs_row = bfs_row b + 1\<rparr>))
       (bfs_loop nbr (bfs_row b) (bfs_stack b) (discovered b) [])"

section \<open>Running\<close>

type_synonym outcome = "exec_error + state_diff"
type_synonym executor = "nat \<Rightarrow> transaction \<Rightarrow> state_view \<Rightarrow> outcome option"

text \<open>\<open>expect\<close> on a missing node, on a held cell and on a transaction taken before are the three panics.\<close>

fun take_row :: "nat list \<Rightarrow> node list \<Rightarrow> ((transaction \<times> nat) list \<times> node list) option" where
  "take_row [] nodes = Some ([], nodes)"
| "take_row (v # vs) nodes =
     (if v \<ge> length nodes then None
      else case syn_take (nodes ! v) of
             Some (Some t, c) \<Rightarrow>
               map_option (\<lambda>(ts, nodes). (t # ts, nodes)) (take_row vs (nodes[v := c]))
           | _ \<Rightarrow> None)"

definition run_row :: "executor \<Rightarrow> state_view \<Rightarrow> (transaction \<times> nat) list \<Rightarrow> (outcome \<times> nat) list option" where
  "run_row exec state row_txs = opt_list (\<lambda>(tx, ix). map_option (\<lambda>r. (r, ix)) (exec ix tx state)) row_txs"

definition accumulate :: "state_diff \<Rightarrow> outcome \<times> nat \<Rightarrow> state_diff" where
  "accumulate acc r = (case fst r of Inr diff \<Rightarrow> diff_apply acc diff | Inl _ \<Rightarrow> acc)"

partial_function (option) tree_rows ::
  "executor \<Rightarrow> state_view \<Rightarrow> (nat \<Rightarrow> nat list) \<Rightarrow> bfs_rows \<Rightarrow> node list \<Rightarrow> state_diff \<Rightarrow> (outcome \<times> nat) list
   \<Rightarrow> ((outcome \<times> nat) list \<times> node list) option"
where
  "tree_rows exec state nbr it nodes acc txs =
     (case bfs_next nbr it of
        None \<Rightarrow> None
      | Some (None, _) \<Rightarrow> Some (txs, nodes)
      | Some (Some row, it) \<Rightarrow>
     (case take_row row nodes of
        None \<Rightarrow> None
      | Some (row_txs, nodes) \<Rightarrow>
     (case run_row exec (overlayed_get state (diff_get acc)) row_txs of
        None \<Rightarrow> None
      | Some results \<Rightarrow>
          tree_rows exec state nbr it nodes (foldl accumulate acc results) (txs @ results))))"

definition tree_run ::
  "petgraph \<Rightarrow> executor \<Rightarrow> state_view \<Rightarrow> edges \<Rightarrow> nat \<Rightarrow> node list \<Rightarrow> ((outcome \<times> nat) list \<times> node list) option"
where
  "tree_run pg exec state es root nodes =
     (case bfs_new (length nodes) root of
        None \<Rightarrow> None
      | Some it \<Rightarrow> tree_rows exec state (pg_neighbors pg es) it nodes diff_default [])"

fun run_trees ::
  "petgraph \<Rightarrow> executor \<Rightarrow> state_view \<Rightarrow> edges \<Rightarrow> nat list \<Rightarrow> node list \<Rightarrow> (outcome \<times> nat) list option"
where
  "run_trees pg exec state es [] nodes = Some []"
| "run_trees pg exec state es (r # rs) nodes =
     (case tree_run pg exec state es r nodes of
        None \<Rightarrow> None
      | Some (txs, nodes) \<Rightarrow> map_option (\<lambda>more. txs @ more) (run_trees pg exec state es rs nodes))"

definition schedule_run :: "petgraph \<Rightarrow> executor \<Rightarrow> state_view \<Rightarrow> schedule \<Rightarrow> outcome list option" where
  "schedule_run pg exec state s =
     map_option (\<lambda>trees. map fst (sort_key snd trees))
       (run_trees pg exec state (graph_edges s) (roots s) (graph_nodes s))"

definition execute_many :: "petgraph \<Rightarrow> executor \<Rightarrow> state_view \<Rightarrow> transaction list \<Rightarrow> outcome list option" where
  "execute_many pg exec state txs =
     (case schedule_new pg state txs of None \<Rightarrow> None | Some s \<Rightarrow> schedule_run pg exec state s)"

section \<open>Forests\<close>

definition forest :: "nat \<Rightarrow> edges \<Rightarrow> bool" where
  "forest n es = (list_all (\<lambda>(j, i). j < i \<and> i < n) es \<and> distinct (map snd es))"

definition parent_of :: "edges \<Rightarrow> nat \<Rightarrow> nat option" where
  "parent_of es v = map_of (map prod.swap es) v"

function root_of :: "edges \<Rightarrow> nat \<Rightarrow> nat" where
  "root_of es v = (case parent_of es v of Some u \<Rightarrow> if u < v then root_of es u else v | None \<Rightarrow> v)"
  by pat_completeness auto
termination by (relation "measure snd") auto

function depth :: "edges \<Rightarrow> nat \<Rightarrow> nat" where
  "depth es v = (case parent_of es v of Some u \<Rightarrow> if u < v then Suc (depth es u) else 0 | None \<Rightarrow> 0)"
  by pat_completeness auto
termination by (relation "measure snd") auto

declare root_of.simps [simp del] depth.simps [simp del]

definition connected :: "edges \<Rightarrow> (nat \<times> nat) set" where
  "connected es = (set es \<union> (set es)\<inverse>)\<^sup>*"

lemma forest_edge: "forest n es \<Longrightarrow> (j, i) \<in> set es \<Longrightarrow> j < i \<and> i < n"
  by (auto simp: forest_def list_all_iff)

lemma parent_of_iff: "forest n es \<Longrightarrow> parent_of es i = Some j \<longleftrightarrow> (j, i) \<in> set es"
proof -
  assume "forest n es"
  then have "distinct (map fst (map prod.swap es))" by (simp add: forest_def comp_def)
  then show ?thesis unfolding parent_of_def map_of_eq_Some_iff [OF \<open>distinct _\<close>] by auto
qed

lemma parent_of_less: "forest n es \<Longrightarrow> parent_of es i = Some j \<Longrightarrow> j < i \<and> i < n"
  by (simp add: parent_of_iff forest_edge)

lemma root_of_parent:
  assumes "forest n es"
  shows "parent_of es v = Some u \<Longrightarrow> root_of es v = root_of es u" "parent_of es v = None \<Longrightarrow> root_of es v = v"
  using parent_of_less [OF assms] by (simp_all add: root_of.simps [of es v])

lemma depth_parent:
  assumes "forest n es"
  shows "parent_of es v = Some u \<Longrightarrow> depth es v = Suc (depth es u)" "parent_of es v = None \<Longrightarrow> depth es v = 0"
  using parent_of_less [OF assms] by (simp_all add: depth.simps [of es v])

lemma root_of_facts:
  assumes "forest n es"
  shows "parent_of es (root_of es v) = None \<and> root_of es v \<le> v \<and> (root_of es v, v) \<in> (set es)\<^sup>*"
proof (induction v rule: less_induct)
  case (less v)
  show ?case
  proof (cases "parent_of es v")
    case (Some u)
    then have "(u, v) \<in> set es" "u < v" using assms by (auto simp: parent_of_iff dest: forest_edge)
    with less [of u] root_of_parent(1) [OF assms Some] show ?thesis by (auto intro: rtrancl_into_rtrancl)
  qed (simp add: root_of_parent(2) [OF assms])
qed

lemma root_of_edge: "forest n es \<Longrightarrow> (u, v) \<in> set es \<Longrightarrow> root_of es v = root_of es u"
  by (rule root_of_parent(1)) (simp_all add: parent_of_iff)

lemma root_of_connected:
  assumes "forest n es" "(u, v) \<in> connected es"
  shows "root_of es u = root_of es v"
  using assms(2) unfolding connected_def
  by (induction rule: rtrancl_induct) (auto simp: root_of_edge [OF assms(1)])

lemma reach_root_of: "forest n es \<Longrightarrow> (r, v) \<in> (set es)\<^sup>* \<Longrightarrow> root_of es v = root_of es r"
  by (erule rtrancl_induct) (auto simp: root_of_edge)

lemma same_root_connected:
  assumes "forest n es" "root_of es u = root_of es v"
  shows "(u, v) \<in> connected es"
proof -
  have mono: "(set es)\<^sup>* \<subseteq> connected es" "((set es)\<inverse>)\<^sup>* \<subseteq> connected es"
    unfolding connected_def by (auto intro!: rtrancl_mono)
  have "(u, root_of es u) \<in> ((set es)\<inverse>)\<^sup>*" "(root_of es v, v) \<in> (set es)\<^sup>*"
    using root_of_facts [OF assms(1)] by (auto simp: rtrancl_converse)
  with mono assms(2) have "(u, root_of es u) \<in> connected es" "(root_of es u, v) \<in> connected es" by auto
  then show ?thesis unfolding connected_def by (rule rtrancl_trans)
qed

text \<open>What the graph library documents: the two edge iterators list the edges of a node, and the labels
  of the union-find name one representative per connected set.\<close>

definition graph_laws :: "petgraph \<Rightarrow> nat \<Rightarrow> edges \<Rightarrow> bool" where
  "graph_laws pg n es =
     ((\<forall>v. mset (pg_neighbors pg es v) = mset (map snd (filter (\<lambda>e. fst e = v) es)))
      \<and> (\<forall>v. mset (pg_incoming pg es v) = mset (map fst (filter (\<lambda>e. snd e = v) es)))
      \<and> length (pg_labeling pg n es) = n
      \<and> (\<forall>u < n. pg_labeling pg n es ! u < n \<and> (u, pg_labeling pg n es ! u) \<in> connected es)
      \<and> (\<forall>u < n. \<forall>v < n. (u, v) \<in> connected es \<longrightarrow> pg_labeling pg n es ! u = pg_labeling pg n es ! v))"

definition petgraph_laws :: "petgraph \<Rightarrow> bool" where
  "petgraph_laws pg = (\<forall>n es. forest n es \<longrightarrow> graph_laws pg n es)"

lemma filter_target:
  assumes "forest n es"
  shows "map fst (filter (\<lambda>e. snd e = v) es) = (case parent_of es v of Some u \<Rightarrow> [u] | None \<Rightarrow> [])"
  using assms
proof (induction es)
  case (Cons e es)
  then have f: "forest n es" and new: "snd e \<notin> snd ` set es" by (auto simp: forest_def)
  have "filter (\<lambda>x. snd x = snd e) es = []" using new unfolding filter_empty_conv by (metis imageI)
  with Cons.IH [OF f] show ?case by (cases e) (auto simp: parent_of_def)
qed (simp add: parent_of_def)

lemma climb_root:
  assumes "forest n es" "graph_laws pg n es"
  shows "climb pg es v = Some (root_of es v)"
proof (induction v rule: less_induct)
  case (less v)
  have inc: "mset (pg_incoming pg es v) = mset (case parent_of es v of Some u \<Rightarrow> [u] | None \<Rightarrow> [])"
    using assms(2) filter_target [OF assms(1)] by (simp add: graph_laws_def)
  show ?case
  proof (cases "parent_of es v")
    case None
    with inc show ?thesis by (simp add: climb.simps [of pg es v] root_of_parent(2) [OF assms(1)])
  next
    case (Some u)
    with inc have "pg_incoming pg es v = [u]" by simp
    with Some less [of u] parent_of_less [OF assms(1) Some] show ?thesis
      by (simp add: climb.simps [of pg es v] root_of_parent(1) [OF assms(1)])
  qed
qed

lemma sorted_remdups_adj_distinct: "sorted xs \<Longrightarrow> distinct (remdups_adj xs)" for xs :: "nat list"
  by (induction xs rule: remdups_adj.induct) force+

lemma find_roots_spec:
  assumes "forest n es" "graph_laws pg n es"
  obtains rs where "find_roots pg n es = Some rs" "distinct rs" "set rs = {v. v < n \<and> parent_of es v = None}"
proof -
  let ?lab = "pg_labeling pg n es"
  let ?ls = "remdups_adj (sort ?lab)"
  have run: "find_roots pg n es = Some (map (root_of es) ?ls)"
    by (auto simp: find_roots_def opt_list_Some_iff list_all2_conv_all_nth climb_root [OF assms])
  have len: "length ?lab = n" and lab: "\<And>u. u < n \<Longrightarrow> ?lab ! u < n \<and> (u, ?lab ! u) \<in> connected es"
    and eq: "\<And>u v. u < n \<Longrightarrow> v < n \<Longrightarrow> (u, v) \<in> connected es \<Longrightarrow> ?lab ! u = ?lab ! v"
    using assms(2) by (auto simp: graph_laws_def)
  have set: "set ?ls = set ?lab" by simp
  have self: "?lab ! l = l \<and> l < n" if l: "l \<in> set ?lab" for l
  proof -
    from l len obtain u where "u < n" "l = ?lab ! u" by (auto simp: in_set_conv_nth)
    with lab eq show ?thesis by metis
  qed
  have "inj_on (root_of es) (set ?ls)"
    unfolding set using self eq same_root_connected [OF assms(1)] by (metis (no_types, lifting) inj_onI)
  moreover have "distinct ?ls" by (simp add: sorted_remdups_adj_distinct)
  ultimately have dist: "distinct (map (root_of es) ?ls)" by (simp add: distinct_map)
  have "root_of es ` set ?lab = {v. v < n \<and> parent_of es v = None}"
  proof (intro set_eqI iffI)
    fix r
    assume "r \<in> root_of es ` set ?lab"
    then show "r \<in> {v. v < n \<and> parent_of es v = None}"
      using root_of_facts [OF assms(1)] self by (auto intro: le_less_trans)
  next
    fix r
    assume r: "r \<in> {v. v < n \<and> parent_of es v = None}"
    then have "root_of es (?lab ! r) = r"
      using root_of_connected [OF assms(1)] lab [of r] root_of_parent(2) [OF assms(1), of r] by auto
    moreover have "?lab ! r \<in> set ?lab" using r len by auto
    ultimately show "r \<in> root_of es ` set ?lab" by force
  qed
  with run dist show ?thesis by (intro that [OF run dist]) (simp add: set)
qed

section \<open>The edges of a schedule\<close>

text \<open>Node \<open>j\<close> is the nearest earlier transaction that \<open>i\<close> depends on.\<close>

definition nearest :: "transaction_refs list \<Rightarrow> nat \<Rightarrow> nat \<Rightarrow> bool" where
  "nearest refs j i = (j < i \<and> i < length refs \<and> depends_on (refs ! i) (refs ! j)
     \<and> list_all (\<lambda>k. \<not> depends_on (refs ! i) (refs ! k)) [Suc j..<i])"

abbreviation queue_of :: "transaction_refs list \<Rightarrow> (transaction_refs \<times> nat) list" where
  "queue_of refs \<equiv> rev (zip refs [0..<length refs])"

lemma queue_of_snoc: "queue_of (refs @ [r]) = (r, length refs) # queue_of refs"
  by simp

lemma find_queue:
  "(case find (\<lambda>(r1, ix1). P r1) (queue_of refs) of
      Some (r1, j) \<Rightarrow> j < length refs \<and> r1 = refs ! j \<and> P (refs ! j) \<and> (\<forall>k. j < k \<longrightarrow> k < length refs \<longrightarrow> \<not> P (refs ! k))
    | None \<Rightarrow> \<forall>k < length refs. \<not> P (refs ! k))"
proof (induction refs rule: rev_induct)
  case (snoc r refs)
  show ?case
  proof (cases "P r")
    case False
    have "(\<not> P ((refs @ [r]) ! k)) = (k < length refs \<longrightarrow> \<not> P (refs ! k))" if "k < length (refs @ [r])" for k
      using that False by (cases "k = length refs") (auto simp: nth_append)
    then show ?thesis using snoc False unfolding queue_of_snoc
      by (auto simp: nth_append split: option.splits)
  qed (auto simp: nth_append)
qed simp

lemma nearest_snoc:
  "i < length refs \<Longrightarrow> nearest (refs @ [r]) j i \<longleftrightarrow> nearest refs j i"
  by (auto simp: nearest_def list_all_iff nth_append)

lemma link_queue_spec:
  "forest (length refs) (link_queue (queue_of refs))
   \<and> (\<forall>j i. (j, i) \<in> set (link_queue (queue_of refs)) \<longleftrightarrow> nearest refs j i)"
proof (induction refs rule: rev_induct)
  case Nil
  then show ?case by (simp add: forest_def nearest_def)
next
  case (snoc r refs)
  let ?es = "link_queue (queue_of refs)"
  have f: "forest (length refs) ?es" and set: "\<And>j i. (j, i) \<in> set ?es \<longleftrightarrow> nearest refs j i" using snoc by auto
  have grow: "forest (Suc (length refs)) ?es" using f by (auto simp: forest_def list_all_iff)
  have bound: "i < length refs" if "(j, i) \<in> set ?es" for j i using forest_edge [OF f that] by simp
  have old: "nearest (refs @ [r]) j i \<longleftrightarrow> (j, i) \<in> set ?es" if "i \<noteq> length refs" for j i
  proof (cases "i < length refs")
    case False
    with that show ?thesis using bound [of j i] by (auto simp: nearest_def)
  qed (simp add: set nearest_snoc)
  note q = find_queue [where P = "depends_on r" and refs = refs]
  show ?case
  proof (cases "find (\<lambda>(r1, ix1). depends_on r r1) (queue_of refs)")
    case None
    with q have "\<not> nearest (refs @ [r]) j (length refs)" for j by (auto simp: nearest_def nth_append)
    then have "(j, i) \<in> set ?es \<longleftrightarrow> nearest (refs @ [r]) j i" for j i
      using old [of i j] bound [of j i] by (cases "i = length refs") auto
    with grow None show ?thesis unfolding queue_of_snoc by simp
  next
    case (Some p)
    obtain r1 j where p: "p = (r1, j)" by (cases p)
    with Some q have j: "j < length refs" "depends_on r (refs ! j)"
      and later: "\<And>k. j < k \<Longrightarrow> k < length refs \<Longrightarrow> \<not> depends_on r (refs ! k)" by auto
    have "nearest (refs @ [r]) j' (length refs) \<longleftrightarrow> j' = j" for j'
      using j later by (cases j' j rule: linorder_cases) (auto simp: nearest_def nth_append list_all_iff)
    then have "(j', i) \<in> set ((j, length refs) # ?es) \<longleftrightarrow> nearest (refs @ [r]) j' i" for j' i
      using old [of i j'] bound [of j' i] by (cases "i = length refs") auto
    moreover have "forest (length (refs @ [r])) ((j, length refs) # ?es)"
      using grow j(1) bound by (fastforce simp: forest_def)
    ultimately show ?thesis unfolding queue_of_snoc using Some p by simp
  qed
qed

section \<open>Breadth-first search\<close>

lemma visit_succs_spec:
  assumes "\<And>s. s \<in> set ss \<Longrightarrow> s < length disc"
  shows "\<exists>new disc'. visit_succs ss level st disc = Some (st @ map (\<lambda>w. (w, Suc level)) new, disc')
    \<and> distinct new \<and> set new = {w \<in> set ss. \<not> disc ! w} \<and> length disc' = length disc
    \<and> (\<forall>v < length disc. disc' ! v \<longleftrightarrow> disc ! v \<or> v \<in> set ss)"
  using assms
proof (induction ss arbitrary: st disc)
  case (Cons s ss)
  have s: "s < length disc" using Cons.prems by simp
  show ?case
  proof (cases "disc ! s")
    case True
    from Cons.IH [of disc st] Cons.prems obtain new disc' where
      run: "visit_succs ss level st disc = Some (st @ map (\<lambda>w. (w, Suc level)) new, disc')"
      and new: "distinct new" "set new = {w \<in> set ss. \<not> disc ! w}" "length disc' = length disc"
        "\<forall>v < length disc. disc' ! v \<longleftrightarrow> disc ! v \<or> v \<in> set ss" by auto
    have "set new = {w \<in> set (s # ss). \<not> disc ! w}" using new(2) True by auto
    moreover have "\<forall>v < length disc. disc' ! v \<longleftrightarrow> disc ! v \<or> v \<in> set (s # ss)" using new(4) True by auto
    moreover have "visit_succs (s # ss) level st disc = Some (st @ map (\<lambda>w. (w, Suc level)) new, disc')"
      using True s run by simp
    ultimately show ?thesis using new(1,3) by blast
  next
    case False
    let ?d = "disc[s := True]"
    from Cons.IH [of ?d "st @ [(s, Suc level)]"] Cons.prems obtain new disc' where
      "visit_succs ss level (st @ [(s, Suc level)]) ?d = Some ((st @ [(s, Suc level)]) @ map (\<lambda>w. (w, Suc level)) new, disc')"
      and new: "distinct new" "set new = {w \<in> set ss. \<not> ?d ! w}" "length disc' = length disc"
        "\<forall>v < length disc. disc' ! v \<longleftrightarrow> ?d ! v \<or> v \<in> set ss" by auto
    then have "visit_succs (s # ss) level st disc = Some (st @ map (\<lambda>w. (w, Suc level)) (s # new), disc')"
      using False s by simp
    moreover have d: "?d ! v \<longleftrightarrow> v = s \<or> disc ! v" for v using s by (cases "v = s") auto
    have "distinct (s # new)" "set (s # new) = {w \<in> set (s # ss). \<not> disc ! w}"
      "\<forall>v < length disc. disc' ! v \<longleftrightarrow> disc ! v \<or> v \<in> set (s # ss)"
      using new False unfolding d by auto
    ultimately show ?thesis using new(3) by blast
  qed
qed simp

text \<open>What the search knows: \<open>vis\<close> are the nodes handed out so far and \<open>S\<close> those still on the stack.\<close>

definition bfs_core :: "nat \<Rightarrow> edges \<Rightarrow> nat \<Rightarrow> nat list \<Rightarrow> nat list \<Rightarrow> bool list \<Rightarrow> bool" where
  "bfs_core n es r vis S disc =
     (length disc = n \<and> distinct (vis @ S) \<and> (\<forall>v < n. disc ! v \<longleftrightarrow> v \<in> set (vis @ S))
      \<and> (\<forall>v \<in> set (vis @ S). v < n \<and> root_of es v = r \<and> (\<forall>u. parent_of es v = Some u \<longrightarrow> u \<in> set (vis @ S)))
      \<and> r \<in> set (vis @ S)
      \<and> (\<forall>v \<in> set vis. \<forall>w. (v, w) \<in> set es \<longrightarrow> w \<in> set (vis @ S)))"

definition bfs_levels :: "edges \<Rightarrow> nat \<Rightarrow> (nat \<times> nat) list \<Rightarrow> bool" where
  "bfs_levels es cur st = ((\<forall>(v, l) \<in> set st. l = depth es v \<and> cur \<le> l \<and> l \<le> Suc cur) \<and> sorted (map snd st))"

lemma core_expand:
  assumes "forest n es" "bfs_core n es r vis (v # S) disc" "distinct new"
    "set new = {w. (v, w) \<in> set es \<and> \<not> disc ! w}" "length disc' = length disc"
    "\<forall>u < length disc. disc' ! u \<longleftrightarrow> disc ! u \<or> (v, u) \<in> set es"
  shows "bfs_core n es r vis (v # S @ new) disc' \<and> (\<forall>w. (v, w) \<in> set es \<longrightarrow> w \<in> set (vis @ v # S @ new))"
proof -
  note e = forest_edge [OF assms(1)] and p = parent_of_iff [OF assms(1)]
  have core: "length disc = n" "distinct (vis @ v # S)" "\<And>u. u < n \<Longrightarrow> disc ! u \<longleftrightarrow> u \<in> set (vis @ v # S)"
    "\<And>u. u \<in> set (vis @ v # S) \<Longrightarrow> u < n \<and> root_of es u = r \<and> (\<forall>x. parent_of es u = Some x \<longrightarrow> x \<in> set (vis @ v # S))"
    "r \<in> set (vis @ v # S)" "\<And>u w. u \<in> set vis \<Longrightarrow> (u, w) \<in> set es \<Longrightarrow> w \<in> set (vis @ v # S)"
    using assms(2) by (auto simp: bfs_core_def)
  have new: "w \<in> set new \<longleftrightarrow> (v, w) \<in> set es \<and> w \<notin> set (vis @ v # S)" for w
    using assms(4) core(3) [of w] e [of v w] by auto
  have succ: "w \<in> set (vis @ v # S @ new)" if "(v, w) \<in> set es" for w using that new by auto
  have fresh: "w < n \<and> root_of es w = r \<and> parent_of es w = Some v" if "w \<in> set new" for w
    using that new e root_of_edge [OF assms(1)] core(4) [of v] p by auto
  have "distinct (vis @ v # S @ new)" using core(2) assms(3) new by auto
  moreover have "\<forall>u < n. disc' ! u \<longleftrightarrow> u \<in> set (vis @ v # S @ new)"
    using assms(6) core(1,3) new succ by auto
  moreover have "\<forall>u \<in> set (vis @ v # S @ new). u < n \<and> root_of es u = r \<and> (\<forall>x. parent_of es u = Some x \<longrightarrow> x \<in> set (vis @ v # S @ new))"
    using core(4) fresh by auto
  ultimately show ?thesis using core(1,5,6) succ assms(5) by (auto simp: bfs_core_def)
qed

lemma core_move:
  assumes "bfs_core n es r vis (v # S) disc" "\<And>w. (v, w) \<in> set es \<Longrightarrow> w \<in> set (vis @ v # S)"
  shows "bfs_core n es r (vis @ [v]) S disc"
  using assms by (auto simp: bfs_core_def)

lemma levels_append:
  assumes "bfs_levels es cur st" "\<And>w. w \<in> set new \<Longrightarrow> depth es w = Suc cur"
  shows "bfs_levels es cur (st @ map (\<lambda>w. (w, Suc cur)) new)"
proof -
  have "sorted (map (\<lambda>x. Suc cur) new)" by (simp add: sorted_iff_nth_mono)
  with assms show ?thesis by (auto simp: bfs_levels_def sorted_append comp_def)
qed

lemma levels_tail: "bfs_levels es cur (p # st) \<Longrightarrow> bfs_levels es cur st"
  by (auto simp: bfs_levels_def)

lemma levels_raise:
  assumes "bfs_levels es cur ((v, Suc cur) # st)" "\<And>w. w \<in> set new \<Longrightarrow> depth es w = Suc (Suc cur)"
  shows "bfs_levels es (Suc cur) ((v, Suc cur) # st @ map (\<lambda>w. (w, Suc (Suc cur))) new)"
proof -
  have "bfs_levels es (Suc cur) ((v, Suc cur) # st)" using assms(1) by (fastforce simp: bfs_levels_def)
  from levels_append [OF this assms(2)] show ?thesis by simp
qed

definition successors :: "(nat \<Rightarrow> nat list) \<Rightarrow> edges \<Rightarrow> bool" where
  "successors nbr es = (\<forall>v. set (nbr v) = {w. (v, w) \<in> set es})"

lemma bfs_loop_spec:
  assumes "forest n es" "successors nbr es"
  shows "bfs_core n es r (vis @ row) (map fst st) disc \<Longrightarrow> bfs_levels es cur st \<Longrightarrow>
    \<exists>st' disc' more. bfs_loop nbr cur st disc row = Some (st', disc', row @ more)
      \<and> bfs_core n es r (vis @ row @ more) (map fst st') disc' \<and> bfs_levels es (Suc cur) st'
      \<and> (st' \<noteq> [] \<longrightarrow> snd (hd st') = Suc cur) \<and> (\<forall>v \<in> set more. depth es v = cur)
      \<and> (st \<noteq> [] \<and> snd (hd st) = cur \<longrightarrow> more \<noteq> [])"
proof (induction nbr\<equiv>nbr cur st disc row rule: bfs_loop.induct)
  case (1 cur disc row)
  then show ?case by (simp add: bfs_levels_def)
next
  case (2 cur v level st disc row)
  let ?S = "map fst st"
  have core: "bfs_core n es r (vis @ row) (v # ?S) disc" using "2.prems"(1) by simp
  have lv: "level = depth es v" "cur \<le> level" "level \<le> Suc cur" using "2.prems"(2) by (auto simp: bfs_levels_def)
  have nb: "set (nbr v) = {w. (v, w) \<in> set es}" using assms(2) by (simp add: successors_def)
  then have "\<And>s. s \<in> set (nbr v) \<Longrightarrow> s < length disc"
    using forest_edge [OF assms(1)] core by (auto simp: bfs_core_def)
  from visit_succs_spec [where ss = "nbr v", OF this, where level = level and st = st] nb obtain new disc' where
    vs: "visit_succs (nbr v) level st disc = Some (st @ map (\<lambda>w. (w, Suc level)) new, disc')"
    and new: "distinct new" "set new = {w. (v, w) \<in> set es \<and> \<not> disc ! w}" "length disc' = length disc"
      "\<forall>u < length disc. disc' ! u \<longleftrightarrow> disc ! u \<or> (v, u) \<in> set es" by auto
  note ex = core_expand [OF assms(1) core new]
  have dn: "depth es w = Suc level" if "w \<in> set new" for w
    using that new(2) depth_parent(1) [OF assms(1)] parent_of_iff [OF assms(1)] lv(1) by auto
  have S: "map fst (st @ map (\<lambda>w. (w, Suc level)) new) = ?S @ new" by (simp add: comp_def)
  show ?case
  proof (cases "level = cur")
    case True
    have c: "bfs_core n es r (vis @ row @ [v]) (map fst (st @ map (\<lambda>w. (w, Suc level)) new)) disc'"
      using core_move [of n es r "vis @ row" v "?S @ new" disc'] ex unfolding S by auto
    have l: "bfs_levels es cur (st @ map (\<lambda>w. (w, Suc level)) new)"
      using levels_append [OF levels_tail [OF "2.prems"(2)], of new] dn True by simp
    from "2.hyps" [OF vs refl True] c l obtain st2 disc2 more where
      "bfs_loop nbr cur (st @ map (\<lambda>w. (w, Suc level)) new) disc' (row @ [v]) = Some (st2, disc2, (row @ [v]) @ more)"
      and rest: "bfs_core n es r (vis @ (row @ [v]) @ more) (map fst st2) disc2" "bfs_levels es (Suc cur) st2"
        "st2 \<noteq> [] \<longrightarrow> snd (hd st2) = Suc cur" "\<forall>v \<in> set more. depth es v = cur" by auto
    with True vs have "bfs_loop nbr cur ((v, level) # st) disc row = Some (st2, disc2, row @ v # more)" by simp
    moreover have "\<forall>u \<in> set (v # more). depth es u = cur" using rest(4) lv True by auto
    ultimately show ?thesis using rest(1-3) by (intro exI [of _ st2] exI [of _ disc2] exI [of _ "v # more"]) simp
  next
    case False
    with lv have l: "level = Suc cur" by simp
    have "bfs_levels es (Suc cur) ((v, level) # st @ map (\<lambda>w. (w, Suc level)) new)"
      using levels_raise [of es cur v st new] "2.prems"(2) dn l by simp
    moreover have "bfs_core n es r (vis @ row) (map fst ((v, level) # st @ map (\<lambda>w. (w, Suc level)) new)) disc'"
      using ex by (simp add: comp_def)
    ultimately show ?thesis using vs False l
      by (intro exI [of _ "(v, level) # st @ map (\<lambda>w. (w, Suc level)) new"] exI [of _ disc'] exI [of _ "[]"]) simp
  qed
qed

section \<open>Running one tree\<close>

definition nodes_of :: "transaction list \<Rightarrow> nat set \<Rightarrow> node list" where
  "nodes_of txs V = map (\<lambda>v. syn_new (if v \<in> V then None else Some (txs ! v, v))) [0..<length txs]"

lemma nodes_of_length [simp]: "length (nodes_of txs V) = length txs"
  by (simp add: nodes_of_def)

lemma take_row_spec:
  "distinct row \<Longrightarrow> (\<And>v. v \<in> set row \<Longrightarrow> v < length txs \<and> v \<notin> V) \<Longrightarrow>
   take_row row (nodes_of txs V) = Some (map (\<lambda>v. (txs ! v, v)) row, nodes_of txs (V \<union> set row))"
proof (induction row arbitrary: V)
  case (Cons v vs)
  then have v: "v < length txs" "v \<notin> V" by auto
  have take: "syn_take (nodes_of txs V ! v) = Some (Some (txs ! v, v), syn_new None)"
    using v by (simp add: nodes_of_def syn_take_free syn_new_def)
  have "(nodes_of txs V)[v := syn_new None] = nodes_of txs (insert v V)"
    using v by (intro nth_equalityI) (auto simp: nodes_of_def nth_list_update)
  moreover have "take_row vs (nodes_of txs (insert v V)) = Some (map (\<lambda>v. (txs ! v, v)) vs, nodes_of txs (insert v V \<union> set vs))"
    using Cons.IH [of "insert v V"] Cons.prems by auto
  ultimately show ?case using v take by simp
qed simp

text \<open>Every result comes from executing its transaction on the state overlaid with the diffs of a prefix
  of the results, a prefix that contains the result of its parent.\<close>

definition justified_at ::
  "executor \<Rightarrow> state_view \<Rightarrow> transaction list \<Rightarrow> edges \<Rightarrow> (outcome \<times> nat) list \<Rightarrow> outcome \<Rightarrow> nat \<Rightarrow> (outcome \<times> nat) list \<Rightarrow> bool"
where
  "justified_at exec state txs es out res i pre =
     ((\<exists>post. out = pre @ post) \<and> i \<notin> snd ` set pre
      \<and> exec i (txs ! i) (overlayed_get state (diff_get (foldl accumulate diff_default pre))) = Some res
      \<and> (\<forall>u. parent_of es i = Some u \<longrightarrow> u \<in> snd ` set pre))"

definition justified :: "executor \<Rightarrow> state_view \<Rightarrow> transaction list \<Rightarrow> edges \<Rightarrow> (outcome \<times> nat) list \<Rightarrow> bool" where
  "justified exec state txs es out = (\<forall>res i. (res, i) \<in> set out \<longrightarrow> (\<exists>pre. justified_at exec state txs es out res i pre))"

lemma justified_at_extend: "justified_at exec state txs es out res i pre \<Longrightarrow> justified_at exec state txs es (out @ new) res i pre"
  by (auto simp: justified_at_def)

lemma justified_extend:
  assumes "justified exec state txs es out"
    "\<And>res i. (res, i) \<in> set new \<Longrightarrow> justified_at exec state txs es (out @ new) res i out"
  shows "justified exec state txs es (out @ new)"
  using assms(2) assms(1) [unfolded justified_def] justified_at_extend
  unfolding justified_def set_append by blast

definition exec_total :: "executor \<Rightarrow> transaction list \<Rightarrow> bool" where
  "exec_total exec txs = (\<forall>v < length txs. \<forall>s. exec v (txs ! v) s \<noteq> None)"

lemma run_row_spec:
  assumes "exec_total exec txs" "set row \<subseteq> {v. v < length txs}"
  shows "\<exists>rs. run_row exec s (map (\<lambda>v. (txs ! v, v)) row) = Some rs \<and> map snd rs = row
    \<and> (\<forall>res i. (res, i) \<in> set rs \<longrightarrow> exec i (txs ! i) s = Some res)"
proof -
  let ?rs = "map (\<lambda>v. (the (exec v (txs ! v) s), v)) row"
  have ex: "exec v (txs ! v) s = Some (the (exec v (txs ! v) s))" if "v \<in> set row" for v
    using assms that by (auto simp: exec_total_def)
  then have "run_row exec s (map (\<lambda>v. (txs ! v, v)) row) = Some ?rs"
    unfolding run_row_def opt_list_Some_iff by (auto simp: list_all2_conv_all_nth)
  moreover have "map snd ?rs = row" by (simp add: comp_def)
  moreover have "exec i (txs ! i) s = Some res" if "(res, i) \<in> set ?rs" for res i using that ex by auto
  ultimately show ?thesis by blast
qed

lemma core_complete:
  assumes "forest n es" "bfs_core n es r vis [] disc"
  shows "set vis = {v. v < n \<and> root_of es v = r}"
proof (intro set_eqI iffI)
  fix v
  assume "v \<in> {v. v < n \<and> root_of es v = r}"
  then have "(r, v) \<in> (set es)\<^sup>*" using root_of_facts [OF assms(1), of v] by simp
  moreover have "r \<in> set vis" using assms(2) unfolding bfs_core_def append_Nil2 by blast
  moreover have "w \<in> set vis" if "v \<in> set vis" "(v, w) \<in> set es" for v w
    using that assms(2) unfolding bfs_core_def append_Nil2 by blast
  ultimately show "v \<in> set vis" by (induction rule: rtrancl_induct) blast+
next
  fix v
  assume "v \<in> set vis"
  then show "v \<in> {v. v < n \<and> root_of es v = r}" using assms(2) unfolding bfs_core_def append_Nil2 mem_Collect_eq by blast
qed

lemma bfs_next_spec:
  assumes "forest n es" "successors nbr es" "bfs_core n es r vis (map fst st) disc" "bfs_levels es cur st"
    "st \<noteq> [] \<longrightarrow> snd (hd st) = cur"
  obtains st' disc' row where
    "bfs_next nbr \<lparr>bfs_stack = st, discovered = disc, bfs_row = cur\<rparr>
       = Some (if row = [] then None else Some row, \<lparr>bfs_stack = st', discovered = disc', bfs_row = Suc cur\<rparr>)"
    "bfs_core n es r (vis @ row) (map fst st') disc'" "bfs_levels es (Suc cur) st'"
    "st' \<noteq> [] \<longrightarrow> snd (hd st') = Suc cur" "\<forall>v \<in> set row. depth es v = cur" "row = [] \<longrightarrow> st = []"
proof -
  from bfs_loop_spec [OF assms(1,2), of r vis "[]" st disc cur] assms(3,4) obtain st' disc' more where
    "bfs_loop nbr cur st disc [] = Some (st', disc', more)"
    "bfs_core n es r (vis @ more) (map fst st') disc'" "bfs_levels es (Suc cur) st'"
    "st' \<noteq> [] \<longrightarrow> snd (hd st') = Suc cur" "\<forall>v \<in> set more. depth es v = cur" "st \<noteq> [] \<and> snd (hd st) = cur \<longrightarrow> more \<noteq> []"
    by auto
  with assms(5) show ?thesis by (intro that [of more st' disc']) (auto simp: bfs_next_def)
qed

lemma tree_rows_spec:
  assumes "forest (length txs) es" "successors nbr es"
    "exec_total exec txs"
    "\<And>v. v \<in> V0 \<Longrightarrow> root_of es v \<noteq> r"
  shows "bfs_core (length txs) es r vis (map fst st) disc \<Longrightarrow> bfs_levels es cur st \<Longrightarrow>
    (st \<noteq> [] \<longrightarrow> snd (hd st) = cur) \<Longrightarrow> (\<forall>v \<in> set vis. depth es v < cur) \<Longrightarrow> map snd out = vis \<Longrightarrow>
    justified exec state txs es out \<Longrightarrow>
    \<exists>out'. tree_rows exec state nbr \<lparr>bfs_stack = st, discovered = disc, bfs_row = cur\<rparr>
        (nodes_of txs (V0 \<union> set vis)) (foldl accumulate diff_default out) out = Some (out', nodes_of txs (V0 \<union> snd ` set out'))
      \<and> distinct (map snd out') \<and> snd ` set out' = {v. v < length txs \<and> root_of es v = r}
      \<and> justified exec state txs es out'"
proof (induction "length txs - length vis" arbitrary: vis st disc cur out rule: less_induct)
  case less
  note f = assms(1)
  obtain st' disc' row where
    nx: "bfs_next nbr \<lparr>bfs_stack = st, discovered = disc, bfs_row = cur\<rparr>
       = Some (if row = [] then None else Some row, \<lparr>bfs_stack = st', discovered = disc', bfs_row = Suc cur\<rparr>)"
    and core: "bfs_core (length txs) es r (vis @ row) (map fst st') disc'" and lev: "bfs_levels es (Suc cur) st'"
    and hd: "st' \<noteq> [] \<longrightarrow> snd (hd st') = Suc cur" and dep: "\<forall>v \<in> set row. depth es v = cur" and emp: "row = [] \<longrightarrow> st = []"
    using bfs_next_spec [OF f assms(2) less.prems(1-3)] by metis
  have vis: "snd ` set out = set vis" using less.prems(5) by (metis set_map)
  show ?case
  proof (cases "row = []")
    case True
    with emp less.prems(1) have c: "bfs_core (length txs) es r vis [] disc" by simp
    then have "distinct vis" by (simp add: bfs_core_def)
    with core_complete [OF f c] True nx less.prems(5,6) vis show ?thesis
      by (intro exI [of _ out]) (simp add: tree_rows.simps)
  next
    case False
    have row: "distinct row" "\<And>v. v \<in> set row \<Longrightarrow> v < length txs \<and> v \<notin> V0 \<union> set vis"
    proof -
      show "distinct row" using core unfolding bfs_core_def by simp
      fix v
      assume v: "v \<in> set row"
      with core have "v < length txs" "root_of es v = r" "v \<notin> set vis" unfolding bfs_core_def by auto
      with assms(4) show "v < length txs \<and> v \<notin> V0 \<union> set vis" by blast
    qed
    have par: "u \<in> set vis" if i: "i \<in> set row" and u: "parent_of es i = Some u" for i u
    proof -
      have "u \<in> set (vis @ row @ map fst st')" using core i u unfolding bfs_core_def by simp blast
      moreover have "depth es u < cur" using depth_parent(1) [OF f u] dep i by auto
      then have "u \<notin> set row" "u \<notin> set (map fst st')" using dep lev by (auto simp: bfs_levels_def)
      ultimately show ?thesis by auto
    qed
    let ?s = "overlayed_get state (diff_get (foldl accumulate diff_default out))"
    have sub: "set row \<subseteq> {v. v < length txs}" using row(2) by blast
    obtain rs where rs: "run_row exec ?s (map (\<lambda>v. (txs ! v, v)) row) = Some rs" "map snd rs = row"
      "\<And>res i. (res, i) \<in> set rs \<Longrightarrow> exec i (txs ! i) ?s = Some res"
      using run_row_spec [OF assms(3) sub, of ?s] by blast
    have snd: "i \<in> set row" if "(res, i) \<in> set rs" for res i using that rs(2) by (metis image_eqI set_map snd_conv)
    have j: "justified exec state txs es (out @ rs)"
    proof (rule justified_extend [OF less.prems(6)])
      fix res i
      assume ri: "(res, i) \<in> set rs"
      show "justified_at exec state txs es (out @ rs) res i out"
        using rs(3) [OF ri] row(2) [OF snd [OF ri]] par [OF snd [OF ri]] unfolding justified_at_def vis by blast
    qed
    have "length (vis @ row) \<le> length txs"
    proof -
      have "distinct (vis @ row)" "set (vis @ row) \<subseteq> {..<length txs}" using core unfolding bfs_core_def by auto
      then show ?thesis by (metis card_lessThan card_mono distinct_card finite_lessThan)
    qed
    then have m: "length txs - length (vis @ row) < length txs - length vis" using False by (cases row) auto
    have dep': "\<forall>v \<in> set (vis @ row). depth es v < Suc cur" using less.prems(4) dep by auto
    have "map snd (out @ rs) = vis @ row" using less.prems(5) rs(2) by simp
    from less.hyps [OF m core lev hd dep' this j]
    show ?thesis using nx False take_row_spec [OF row] rs(1)
      by (simp add: tree_rows.simps [of exec state nbr "\<lparr>bfs_stack = st, discovered = disc, bfs_row = cur\<rparr>"] Un_assoc)
  qed
qed

section \<open>Running the schedule\<close>

lemma tree_run_spec:
  assumes "forest (length txs) es" "graph_laws pg (length txs) es"
    "exec_total exec txs"
    "\<And>v. v \<in> V0 \<Longrightarrow> root_of es v \<noteq> r" "r < length txs" "parent_of es r = None"
  shows "\<exists>out. tree_run pg exec state es r (nodes_of txs V0) = Some (out, nodes_of txs (V0 \<union> snd ` set out))
    \<and> distinct (map snd out) \<and> snd ` set out = {v. v < length txs \<and> root_of es v = r} \<and> justified exec state txs es out"
proof -
  let ?n = "length txs"
  have "set (pg_neighbors pg es v) = {w. (v, w) \<in> set es}" for v
  proof -
    have "mset (pg_neighbors pg es v) = mset (map snd (filter (\<lambda>e. fst e = v) es))"
      using assms(2) by (simp add: graph_laws_def)
    then have "set (pg_neighbors pg es v) = set (map snd (filter (\<lambda>e. fst e = v) es))" by (metis set_mset_mset)
    then show ?thesis by force
  qed
  then have succ: "successors (pg_neighbors pg es) es" by (simp add: successors_def)
  have root: "root_of es r = r" "depth es r = 0"
    using root_of_parent(2) [OF assms(1,6)] depth_parent(2) [OF assms(1,6)] by auto
  let ?disc = "(replicate ?n False)[r := True]"
  have core: "bfs_core ?n es r [] (map fst [(r, 0)]) ?disc"
    using assms(5,6) root by (auto simp: bfs_core_def nth_list_update)
  have lev: "bfs_levels es 0 [(r, 0)]" using root by (simp add: bfs_levels_def)
  have new: "bfs_new ?n r = Some \<lparr>bfs_stack = [(r, 0)], discovered = ?disc, bfs_row = 0\<rparr>"
    using assms(5) by (simp add: bfs_new_def)
  have j: "justified exec state txs es []" by (simp add: justified_def)
  have "\<exists>out'. tree_rows exec state (pg_neighbors pg es) \<lparr>bfs_stack = [(r, 0)], discovered = ?disc, bfs_row = 0\<rparr>
        (nodes_of txs (V0 \<union> set [])) (foldl accumulate diff_default []) [] = Some (out', nodes_of txs (V0 \<union> snd ` set out'))
      \<and> distinct (map snd out') \<and> snd ` set out' = {v. v < length txs \<and> root_of es v = r}
      \<and> justified exec state txs es out'"
    by (rule tree_rows_spec [OF assms(1) succ assms(3,4) core lev _ _ _ j]) simp_all
  then show ?thesis by (simp add: tree_run_def new)
qed

text \<open>A result of the whole run is justified within the results of its own tree.\<close>

definition tree_justified_at ::
  "executor \<Rightarrow> state_view \<Rightarrow> transaction list \<Rightarrow> edges \<Rightarrow> (outcome \<times> nat) set \<Rightarrow> outcome \<Rightarrow> nat \<Rightarrow> (outcome \<times> nat) list \<Rightarrow> bool"
where
  "tree_justified_at exec state txs es results res i pre =
     (set pre \<subseteq> results \<and> i \<notin> snd ` set pre \<and> (\<forall>j \<in> snd ` set pre. root_of es j = root_of es i)
      \<and> exec i (txs ! i) (overlayed_get state (diff_get (foldl accumulate diff_default pre))) = Some res
      \<and> (\<forall>u. parent_of es i = Some u \<longrightarrow> u \<in> snd ` set pre))"

definition tree_justified :: "executor \<Rightarrow> state_view \<Rightarrow> transaction list \<Rightarrow> edges \<Rightarrow> (outcome \<times> nat) list \<Rightarrow> bool" where
  "tree_justified exec state txs es out =
     (\<forall>res i. (res, i) \<in> set out \<longrightarrow> (\<exists>pre. tree_justified_at exec state txs es (set out) res i pre))"

lemma tree_justified_at_mono:
  "tree_justified_at exec state txs es R res i pre \<Longrightarrow> R \<subseteq> R' \<Longrightarrow> tree_justified_at exec state txs es R' res i pre"
  by (auto simp: tree_justified_at_def)

lemma tree_justified_append:
  assumes "tree_justified exec state txs es xs" "tree_justified exec state txs es ys"
  shows "tree_justified exec state txs es (xs @ ys)"
proof -
  have "\<exists>pre. tree_justified_at exec state txs es (set xs \<union> set ys) res i pre" if "(res, i) \<in> set xs" for res i
    using assms(1) that tree_justified_at_mono [OF _ Un_upper1] unfolding tree_justified_def by blast
  moreover have "\<exists>pre. tree_justified_at exec state txs es (set xs \<union> set ys) res i pre" if "(res, i) \<in> set ys" for res i
    using assms(2) that tree_justified_at_mono [OF _ Un_upper2] unfolding tree_justified_def by blast
  ultimately show ?thesis unfolding tree_justified_def set_append by blast
qed

lemma justified_tree:
  assumes "justified exec state txs es out" "snd ` set out \<subseteq> {v. root_of es v = r}"
  shows "tree_justified exec state txs es out"
  unfolding tree_justified_def
proof (intro allI impI)
  fix res i
  assume i: "(res, i) \<in> set out"
  with assms(1) obtain pre where pre: "justified_at exec state txs es out res i pre" unfolding justified_def by blast
  then have sub: "set pre \<subseteq> set out" by (auto simp: justified_at_def)
  have "root_of es i = r" using assms(2) i by force
  moreover have "\<forall>j \<in> snd ` set pre. root_of es j = r" using assms(2) sub by auto
  ultimately have "tree_justified_at exec state txs es (set out) res i pre"
    using pre sub unfolding justified_at_def tree_justified_at_def by simp
  then show "\<exists>pre. tree_justified_at exec state txs es (set out) res i pre" ..
qed

lemma run_trees_spec:
  assumes "forest (length txs) es" "graph_laws pg (length txs) es"
    "exec_total exec txs"
  shows "distinct rs \<Longrightarrow> (\<And>r. r \<in> set rs \<Longrightarrow> r < length txs \<and> parent_of es r = None) \<Longrightarrow>
    (\<And>v. v \<in> V0 \<Longrightarrow> root_of es v \<notin> set rs) \<Longrightarrow>
    \<exists>out. run_trees pg exec state es rs (nodes_of txs V0) = Some out \<and> distinct (map snd out)
      \<and> snd ` set out = {v. v < length txs \<and> root_of es v \<in> set rs} \<and> tree_justified exec state txs es out"
proof (induction rs arbitrary: V0)
  case Nil
  then show ?case by (simp add: tree_justified_def)
next
  case (Cons r rs)
  have V0: "\<And>v. v \<in> V0 \<Longrightarrow> root_of es v \<noteq> r" using Cons.prems(3) by fastforce
  have r: "r < length txs" "parent_of es r = None" "r \<notin> set rs" "distinct rs" using Cons.prems(1,2) by auto
  from tree_run_spec [OF assms V0 r(1,2), where state = state] obtain out where
    out: "tree_run pg exec state es r (nodes_of txs V0) = Some (out, nodes_of txs (V0 \<union> snd ` set out))"
    "distinct (map snd out)" "snd ` set out = {v. v < length txs \<and> root_of es v = r}" "justified exec state txs es out" by blast
  have "\<And>v. v \<in> V0 \<union> snd ` set out \<Longrightarrow> root_of es v \<notin> set rs" using Cons.prems(3) out(3) r(3) by fastforce
  moreover have "\<And>x. x \<in> set rs \<Longrightarrow> x < length txs \<and> parent_of es x = None" using Cons.prems(2) by simp
  ultimately obtain more where
    more: "run_trees pg exec state es rs (nodes_of txs (V0 \<union> snd ` set out)) = Some more" "distinct (map snd more)"
    "snd ` set more = {v. v < length txs \<and> root_of es v \<in> set rs}" "tree_justified exec state txs es more"
    using Cons.IH [OF r(4), of "V0 \<union> snd ` set out"] by blast
  have "distinct (map snd (out @ more))" using out(2,3) more(2,3) r(3) by auto
  moreover have "snd ` set (out @ more) = {v. v < length txs \<and> root_of es v \<in> set (r # rs)}" using out(3) more(3) by auto
  moreover have "tree_justified exec state txs es out" using justified_tree [OF out(4), of r] out(3) by blast
  ultimately show ?case using out(1) more(1,4) tree_justified_append by auto
qed

lemma sort_results:
  fixes out :: "('a \<times> nat) list"
  assumes "distinct (map snd out)" "snd ` set out = {v. v < n}"
  shows "map snd (sort_key snd out) = [0..<n]"
proof (rule sorted_distinct_set_unique)
  show "sorted (map snd (sort_key snd out))" by simp
  have "mset (map snd (sort_key snd out)) = mset (map snd out)" by simp
  then show "distinct (map snd (sort_key snd out))" using assms(1) mset_eq_imp_distinct_iff by blast
  show "set (map snd (sort_key snd out)) = set [0..<n]" using assms(2) by auto
qed auto

lemma schedule_run_spec:
  assumes "forest (length txs) es" "graph_laws pg (length txs) es"
    "exec_total exec txs"
    "find_roots pg (length txs) es = Some rs"
  shows "\<exists>out. schedule_run pg exec state \<lparr>graph_nodes = nodes_of txs {}, graph_edges = es, roots = rs\<rparr> = Some (map fst (sort_key snd out))
    \<and> map snd (sort_key snd out) = [0..<length txs] \<and> tree_justified exec state txs es out"
proof -
  from find_roots_spec [OF assms(1,2)] assms(4) have rs: "distinct rs" "set rs = {v. v < length txs \<and> parent_of es v = None}"
    by (metis option.inject)+
  have "\<exists>out. run_trees pg exec state es rs (nodes_of txs {}) = Some out \<and> distinct (map snd out)
      \<and> snd ` set out = {v. v < length txs \<and> root_of es v \<in> set rs} \<and> tree_justified exec state txs es out"
    by (rule run_trees_spec [OF assms(1-3) rs(1)]) (use rs(2) in auto)
  then obtain out where out: "run_trees pg exec state es rs (nodes_of txs {}) = Some out" "distinct (map snd out)"
      "snd ` set out = {v. v < length txs \<and> root_of es v \<in> set rs}" "tree_justified exec state txs es out" by blast
  have "root_of es v \<in> set rs" if "v < length txs" for v
    using root_of_facts [OF assms(1), of v] that rs(2) by auto
  then have "snd ` set out = {v. v < length txs}" using out(3) by auto
  from sort_results [OF out(2) this] out(1,4) show ?thesis by (auto simp: schedule_run_def)
qed

lemma note_proposals_total: "list_all valid_address as \<Longrightarrow> note_proposals state ws as rs \<noteq> None"
proof (induction as arbitrary: rs)
  case (Cons a as)
  then have "valid_address a" by simp
  then obtain ups where "ancestors a = Some ups" by (rule valid_ancestors)
  with Cons show ?case by (auto simp: Let_def split: option.splits)
qed simp

lemma refs_total: "list_all valid_proposals txs \<Longrightarrow> \<exists>refs. opt_list (refs_new state) txs = Some refs"
proof -
  assume "list_all valid_proposals txs"
  then have "\<forall>tx \<in> set txs. refs_new state tx \<noteq> None"
    by (auto simp: list_all_iff valid_proposals_def refs_new_def Let_def note_proposals_total)
  then show ?thesis by (metis not_None_eq opt_list_None_iff)
qed

lemma schedule_total:
  assumes "petgraph_laws pg" "opt_list (refs_new state) txs = Some refs"
  shows "\<exists>s. schedule_new pg state txs = Some s"
proof -
  let ?es = "link_queue (queue_of refs)"
  have len: "length refs = length txs" using opt_list_length [OF assms(2)] .
  have f: "forest (length txs) ?es" using link_queue_spec [of refs] len by auto
  have g: "graph_laws pg (length txs) ?es" using assms(1) f by (auto simp: petgraph_laws_def)
  obtain rs where "find_roots pg (length txs) ?es = Some rs" using find_roots_spec [OF f g] .
  with assms(2) len show ?thesis by (simp add: schedule_new_def)
qed

lemma execute_many_spec:
  assumes "petgraph_laws pg" "exec_total exec txs" "opt_list (refs_new state) txs = Some refs"
  shows "\<exists>results. execute_many pg exec state txs = Some results \<and> length results = length txs
    \<and> (\<forall>i < length txs. \<exists>pre. (\<forall>(r, j) \<in> set pre. j < length txs \<and> j \<noteq> i \<and> results ! j = r
          \<and> root_of (link_queue (queue_of refs)) j = root_of (link_queue (queue_of refs)) i)
        \<and> exec i (txs ! i) (overlayed_get state (diff_get (foldl accumulate diff_default pre))) = Some (results ! i)
        \<and> (\<forall>j. nearest refs j i \<longrightarrow> j \<in> snd ` set pre))"
proof -
  let ?es = "link_queue (queue_of refs)"
  have len: "length refs = length txs" using opt_list_length [OF assms(3)] .
  have f: "forest (length txs) ?es" and near: "\<And>j i. (j, i) \<in> set ?es \<longleftrightarrow> nearest refs j i"
    using link_queue_spec [of refs] len by auto
  have g: "graph_laws pg (length txs) ?es" using assms(1) f by (auto simp: petgraph_laws_def)
  obtain rs where rs: "find_roots pg (length txs) ?es = Some rs" using find_roots_spec [OF f g] .
  from schedule_run_spec [OF f g assms(2) rs] obtain out where
    run: "schedule_run pg exec state \<lparr>graph_nodes = nodes_of txs {}, graph_edges = ?es, roots = rs\<rparr> = Some (map fst (sort_key snd out))"
    and ix: "map snd (sort_key snd out) = [0..<length txs]" and tj: "tree_justified exec state txs ?es out" by blast
  let ?res = "map fst (sort_key snd out)"
  have nodes: "map (\<lambda>(tx, ix). syn_new (Some (tx, ix))) (zip txs [0..<length txs]) = nodes_of txs {}"
    by (intro nth_equalityI) (auto simp: nodes_of_def)
  have n: "length ?res = length txs" using arg_cong [OF ix, of length] by simp
  have at: "(r, j) \<in> set out \<longleftrightarrow> j < length txs \<and> ?res ! j = r" for r j
  proof -
    have nth: "sort_key snd out ! k = (?res ! k, k)" if "k < length txs" for k
      using that n arg_cong [OF ix, of "\<lambda>xs. xs ! k"] by (simp add: prod_eq_iff)
    have "(r, j) \<in> set out \<longleftrightarrow> (\<exists>k < length txs. sort_key snd out ! k = (r, j))"
      using n set_sort [of snd out] by (metis in_set_conv_nth length_map)
    also have "\<dots> \<longleftrightarrow> j < length txs \<and> ?res ! j = r" using nth by auto
    finally show ?thesis .
  qed
  have "\<exists>pre. (\<forall>(r, j) \<in> set pre. j < length txs \<and> j \<noteq> i \<and> ?res ! j = r \<and> root_of ?es j = root_of ?es i)
      \<and> exec i (txs ! i) (overlayed_get state (diff_get (foldl accumulate diff_default pre))) = Some (?res ! i)
      \<and> (\<forall>j. nearest refs j i \<longrightarrow> j \<in> snd ` set pre)" if i: "i < length txs" for i
  proof -
    obtain pre where pre: "tree_justified_at exec state txs ?es (set out) (?res ! i) i pre"
      using tj at i unfolding tree_justified_def by blast
    have "j < length txs \<and> j \<noteq> i \<and> ?res ! j = r \<and> root_of ?es j = root_of ?es i" if rj: "(r, j) \<in> set pre" for r j
    proof -
      have "(r, j) \<in> set out" "j \<in> snd ` set pre" using rj pre unfolding tree_justified_at_def by force+
      then show ?thesis using at [of r j] pre unfolding tree_justified_at_def by blast
    qed
    then have "\<forall>(r, j) \<in> set pre. j < length txs \<and> j \<noteq> i \<and> ?res ! j = r \<and> root_of ?es j = root_of ?es i" by blast
    moreover have "j \<in> snd ` set pre" if "nearest refs j i" for j
      using pre parent_of_iff [OF f, of i j] near [of j i] that unfolding tree_justified_at_def by simp
    ultimately show ?thesis using pre unfolding tree_justified_at_def by blast
  qed
  moreover have "execute_many pg exec state txs = Some ?res"
    using run rs len assms(3) by (simp add: execute_many_def schedule_new_def nodes)
  ultimately show ?thesis using n by blast
qed

lemma execute_many_results:
  assumes "petgraph_laws pg" "exec_total exec txs" "opt_list (refs_new state) txs = Some refs"
  shows "\<exists>results. execute_many pg exec state txs = Some results \<and> length results = length txs
    \<and> (\<forall>i < length txs. \<exists>s. exec i (txs ! i) s = Some (results ! i))"
  by (rule exE [OF execute_many_spec [OF assms]]) meson

lemma overlay_default [simp]: "overlayed_get state (diff_get diff_default) = state"
  by (rule ext) (simp add: overlayed_get_def diff_get_def diff_default_def)

definition block_executor ::
  "('m, 'i, 'f, 's) wasm_env \<Rightarrow> hash_env \<Rightarrow> (nat \<Rightarrow> collected \<Rightarrow> collected) \<Rightarrow> (nat \<Rightarrow> nat list) \<Rightarrow> (nat \<Rightarrow> nat \<Rightarrow> nat \<Rightarrow> nat)
   \<Rightarrow> state_view \<Rightarrow> executor"
where
  "block_executor w env order sched split cache ix tx state =
     execute w env (order ix) (sched ix) (split ix) tx state cache"

lemma block_executor_total:
  "bs58_alphanumeric w \<Longrightarrow> list_all valid_proposals txs \<Longrightarrow> exec_total (block_executor w env order sched split cache) txs"
  using execute_total by (fastforce simp: exec_total_def block_executor_def list_all_length)

section \<open>A reference graph library\<close>

definition plain_petgraph :: petgraph where
  "plain_petgraph = \<lparr>pg_neighbors = (\<lambda>es v. map snd (filter (\<lambda>e. fst e = v) es)),
     pg_incoming = (\<lambda>es v. map fst (filter (\<lambda>e. snd e = v) es)),
     pg_labeling = (\<lambda>n es. map (root_of es) [0..<n])\<rparr>"

lemma plain_petgraph_laws: "petgraph_laws plain_petgraph"
proof -
  have "graph_laws plain_petgraph n es" if f: "forest n es" for n es
  proof -
    have "root_of es u < n \<and> (u, root_of es u) \<in> connected es" if "u < n" for u
      using root_of_facts [OF f, of u] that same_root_connected [OF f, of u "root_of es u"] root_of_parent(2) [OF f, of "root_of es u"]
      by auto
    then show ?thesis using root_of_connected [OF f] by (auto simp: graph_laws_def plain_petgraph_def)
  qed
  then show ?thesis by (simp add: petgraph_laws_def)
qed

definition write_tx :: "string \<Rightarrow> transaction" where
  "write_tx p = transaction_new [] [(Address p, ReplaceState [7])]"

lemma sample_refs:
  "opt_list (refs_new sample_state) [write_tx ''/a'', write_tx ''/b'']
     = Some [\<lparr>reads = [], writes = [Address ''/a'']\<rparr>, \<lparr>reads = [], writes = [Address ''/b'']\<rparr>]"
proof -
  have ok: "valid_segments [''a'']" "valid_segments [''b'']" by code_simp+
  have anc: "ancestors (Address ''/a'') = Some []" "ancestors (Address ''/b'') = Some []"
    using ok [THEN ancestors_join] by (simp_all add: join_path_def)
  show ?thesis
    by (simp add: refs_new_def write_tx_def transaction_new_def bt_keys_def sample_expansions anc
        sample_account_def note_predicate_def Let_def List.insert_def)
qed

lemma sample_txs_valid: "list_all valid_proposals [write_tx ''/a'', write_tx ''/b'']"
  by code_simp

section \<open>Properties\<close>

text \<open>C25. The dependency graph is a forest: an edge goes from each transaction's nearest earlier
  transaction it depends on, and from no other, so every transaction has at most one predecessor and
  edges follow block order.\<close>

theorem schedule_edges_nearest:
  assumes "schedule_new pg state txs = Some s" "opt_list (refs_new state) txs = Some refs"
  shows "forest (length txs) (graph_edges s) \<and> ((j, i) \<in> set (graph_edges s) \<longleftrightarrow> nearest refs j i)"
proof -
  have "length refs = length txs" using opt_list_length [OF assms(2)] .
  moreover from this have "graph_edges s = link_queue (queue_of refs)"
    using assms by (auto simp: schedule_new_def Let_def)
  ultimately show ?thesis using link_queue_spec [of refs] by auto
qed

theorem schedule_edges_nearest_witness:
  "\<exists>s. schedule_new plain_petgraph sample_state [write_tx ''/a'', write_tx ''/b''] = Some s \<and> forest 2 (graph_edges s)"
proof -
  obtain s where "schedule_new plain_petgraph sample_state [write_tx ''/a'', write_tx ''/b''] = Some s"
    using schedule_total [OF plain_petgraph_laws sample_refs] by blast
  with schedule_edges_nearest [OF this sample_refs] show ?thesis by (simp add: numeral_2_eq_2 del: opt_list.simps)
qed

text \<open>C3. \<open>execute_many\<close> returns one result per transaction, in the order of the block, each the result
  of executing that transaction on the base state overlaid with the diffs of other transactions of
  the block, among them its nearest dependency: no transaction is lost, run twice or panics.\<close>

theorem execute_many_complete:
  assumes "petgraph_laws pg" "bs58_alphanumeric w" "list_all valid_proposals txs"
  shows "\<exists>refs results. opt_list (refs_new state) txs = Some refs
    \<and> execute_many pg (block_executor w env order sched split cache) state txs = Some results \<and> length results = length txs
    \<and> (\<forall>i < length txs. \<exists>pre. (\<forall>(r, j) \<in> set pre. j < length txs \<and> j \<noteq> i \<and> results ! j = r)
        \<and> execute w env (order i) (sched i) (split i) (txs ! i)
            (overlayed_get state (diff_get (foldl accumulate diff_default pre))) cache = Some (results ! i)
        \<and> (\<forall>j. nearest refs j i \<longrightarrow> j \<in> snd ` set pre))"
proof -
  obtain refs where refs: "opt_list (refs_new state) txs = Some refs" using refs_total [OF assms(3)] by blast
  from execute_many_spec [OF assms(1) block_executor_total [OF assms(2,3)] refs, of env order sched split cache]
  obtain results where r: "execute_many pg (block_executor w env order sched split cache) state txs = Some results"
    "length results = length txs"
    "\<And>i. i < length txs \<Longrightarrow> \<exists>pre. (\<forall>(r, j) \<in> set pre. j < length txs \<and> j \<noteq> i \<and> results ! j = r)
        \<and> execute w env (order i) (sched i) (split i) (txs ! i)
            (overlayed_get state (diff_get (foldl accumulate diff_default pre))) cache = Some (results ! i)
        \<and> (\<forall>j. nearest refs j i \<longrightarrow> j \<in> snd ` set pre)"
    unfolding block_executor_def by fast
  with refs show ?thesis by blast
qed

theorem execute_many_complete_witness:
  "\<exists>results. execute_many plain_petgraph (block_executor sample_wasm sample_env (\<lambda>_ out. out) (\<lambda>_. []) (\<lambda>_ _ _. 0) (\<lambda>_. None))
     sample_state [write_tx ''/a'', write_tx ''/b''] = Some results \<and> length results = 2"
  using execute_many_complete [OF plain_petgraph_laws sample_wasm_ok sample_txs_valid] by fastforce

text \<open>C20. When no transaction of a block depends on an earlier one, every transaction is executed on the
  base state itself: the parallel run gives what executing each of them alone would give.\<close>

theorem execute_many_independent:
  assumes "petgraph_laws pg" "bs58_alphanumeric w" "list_all valid_proposals txs"
    "opt_list (refs_new state) txs = Some refs"
    "\<And>i j. j < i \<Longrightarrow> i < length txs \<Longrightarrow> \<not> depends_on (refs ! i) (refs ! j)"
  shows "\<exists>results. execute_many pg (block_executor w env order sched split cache) state txs = Some results
    \<and> list_all2 (\<lambda>i r. execute w env (order i) (sched i) (split i) (txs ! i) state cache = Some r) [0..<length txs] results"
proof -
  have len: "length refs = length txs" using opt_list_length [OF assms(4)] .
  have "\<not> nearest refs j i" for j i using assms(5) len by (auto simp: nearest_def)
  then have es: "link_queue (queue_of refs) = []" using link_queue_spec [of refs] by (metis list.set_intros(1) neq_Nil_conv surj_pair)
  have root: "root_of [] v = v" for v by (simp add: root_of.simps parent_of_def)
  from execute_many_spec [OF assms(1) block_executor_total [OF assms(2,3)] assms(4), of env order sched split cache]
  obtain results where r: "execute_many pg (block_executor w env order sched split cache) state txs = Some results"
    "length results = length txs" and all: "\<forall>i < length txs. \<exists>pre. (\<forall>(r, j) \<in> set pre. j \<noteq> i \<and> j = i)
        \<and> execute w env (order i) (sched i) (split i) (txs ! i)
            (overlayed_get state (diff_get (foldl accumulate diff_default pre))) cache = Some (results ! i)"
    unfolding block_executor_def es root by fast
  have "execute w env (order i) (sched i) (split i) (txs ! i) state cache = Some (results ! i)" if "i < length txs" for i
  proof -
    from all that obtain pre where "\<forall>(r, j) \<in> set pre. j \<noteq> i \<and> j = i"
      "execute w env (order i) (sched i) (split i) (txs ! i) (overlayed_get state (diff_get (foldl accumulate diff_default pre))) cache = Some (results ! i)"
      by blast
    moreover from this(1) have "pre = []" by (cases pre) auto
    ultimately show ?thesis by simp
  qed
  with r show ?thesis by (auto simp: list_all2_conv_all_nth)
qed

theorem execute_many_independent_witness:
  "\<exists>results. execute_many plain_petgraph (block_executor sample_wasm sample_env (\<lambda>_ out. out) (\<lambda>_. []) (\<lambda>_ _ _. 0) (\<lambda>_. None))
     sample_state [write_tx ''/a'', write_tx ''/b''] = Some results
     \<and> execute sample_wasm sample_env (\<lambda>out. out) [] (\<lambda>_ _. 0) (write_tx ''/b'') sample_state (\<lambda>_. None) = Some (results ! 1)"
proof -
  let ?refs = "[\<lparr>reads = [], writes = [Address ''/a'']\<rparr>, \<lparr>reads = [], writes = [Address ''/b'']\<rparr>]"
  have "\<not> depends_on (?refs ! i) (?refs ! j)" if "j < i" "i < length [write_tx ''/a'', write_tx ''/b'']" for i j
  proof -
    from that have "i = 1" "j = 0" by auto
    then show ?thesis by (simp add: depends_on_def)
  qed
  from execute_many_independent [OF plain_petgraph_laws sample_wasm_ok sample_txs_valid sample_refs this,
      of sample_env "\<lambda>_ out. out" "\<lambda>_. []" "\<lambda>_ _ _. 0" "\<lambda>_. None"]
  show ?thesis by (auto simp: list_all2_conv_all_nth numeral_nat)
qed


end
