(* ===== verification/Builder.thy ===== *)
theory Builder
  imports Schedule
begin

text \<open>
  Accumulating state from blocks: \<open>sdk/offchain/src/builder.rs\<close>, the mempool of the development node
  (\<open>sdk/devnode/src/mempool.rs\<close>) and its loop, and the watcher of \<open>sdk/offchain/src/watcher.rs\<close>.
  The two stores behind \<open>&mut dyn State\<close> are in-memory stores, as every caller passes.  \<open>None\<close> is a
  panic.  Serialising a compiled module belongs to the WebAssembly runtime and is the parameter
  \<open>ser\<close>; heights are 64-bit and wrap as in a release build.
\<close>

section \<open>The block state builder\<close>

datatype builder_error =
    InvalidBlockHeight u64 u64
  | InvalidBlockParent multihash multihash
  | NoInitialBlocks

record block_state_builder =
  history_len :: nat
  b_state :: memory_store
  codecache :: memory_store
  recent :: "block list"

definition builder_get :: "block_state_builder \<Rightarrow> address \<Rightarrow> account option" where
  "builder_get b a = memory_get (b_state b) a"

definition builder_new ::
  "nat \<Rightarrow> memory_store \<Rightarrow> memory_store \<Rightarrow> block list \<Rightarrow> builder_error + block_state_builder"
where
  "builder_new hl state cache blocks =
     (if blocks = [] then Inl NoInitialBlocks
      else Inr \<lparr>history_len = hl, b_state = state, codecache = cache, recent = blocks\<rparr>)"

definition builder_last :: "block_state_builder \<Rightarrow> block option" where
  "builder_last b = (case recent b of [] \<Rightarrow> None | blk # _ \<Rightarrow> Some blk)"

definition WASM_SIG :: bytes where
  "WASM_SIG = [0, 97, 115, 109]"

definition precompile_change ::
  "('m, 'i, 'f, 's) wasm_env \<Rightarrow> ('m \<Rightarrow> bytes option) \<Rightarrow> address \<times> account option \<Rightarrow> state_diff \<Rightarrow> state_diff option"
where
  "precompile_change w ser e out =
     (case snd e of
        None \<Rightarrow> Some out
      | Some change \<Rightarrow>
          if \<not> starts_with (acc_state change) WASM_SIG then Some out
          else case module_from_binary w (acc_state change) of
                 Inl _ \<Rightarrow> Some out
               | Inr compiled \<Rightarrow>
                   (case ser compiled of
                      None \<Rightarrow> Some out
                    | Some serialized \<Rightarrow>
                        (case address_new (predcache_path w (acc_state change)) of
                           Inl _ \<Rightarrow> None
                         | Inr key \<Rightarrow>
                             Some (snd (diff_set out key
                               \<lparr>acc_state = serialized,
                                acc_predicates = TId \<lparr>pred_code = CodeInline [], pred_params = []\<rparr>\<rparr>)))))"

fun precompile_all ::
  "('m, 'i, 'f, 's) wasm_env \<Rightarrow> ('m \<Rightarrow> bytes option) \<Rightarrow> (address \<times> account option) list \<Rightarrow> state_diff \<Rightarrow> state_diff option"
where
  "precompile_all w ser [] out = Some out"
| "precompile_all w ser (e # es) out =
     (case precompile_change w ser e out of None \<Rightarrow> None | Some out \<Rightarrow> precompile_all w ser es out)"

definition try_precompile_predicates ::
  "('m, 'i, 'f, 's) wasm_env \<Rightarrow> ('m \<Rightarrow> bytes option) \<Rightarrow> state_diff \<Rightarrow> state_diff option"
where
  "try_precompile_predicates w ser diff = precompile_all w ser (diff_iter diff) diff_default"

fun ok_diffs :: "outcome list \<Rightarrow> state_diff list" where
  "ok_diffs [] = []"
| "ok_diffs (Inr d # rs) = d # ok_diffs rs"
| "ok_diffs (Inl e # rs) = ok_diffs rs"

definition merge_results :: "outcome list \<Rightarrow> state_diff" where
  "merge_results results =
     (case ok_diffs results of
        [] \<Rightarrow> diff_default
      | d # ds \<Rightarrow> foldl diff_merge d ds)"

text \<open>The block executor is \<open>execute_many\<close> with the graph library and the scheduling choices fixed; it is
  given the state and the code cache.\<close>

type_synonym block_runner = "state_view \<Rightarrow> state_view \<Rightarrow> transaction list \<Rightarrow> outcome list option"

definition push_block :: "nat \<Rightarrow> block \<Rightarrow> block list \<Rightarrow> block list" where
  "push_block hl blk blocks =
     (let blocks = blk # blocks in if length blocks > hl then butlast blocks else blocks)"

definition builder_consume ::
  "('m, 'i, 'f, 's) wasm_env \<Rightarrow> ('m \<Rightarrow> bytes option) \<Rightarrow> hash_env \<Rightarrow> block_runner \<Rightarrow> block \<Rightarrow> block_state_builder
   \<Rightarrow> ((builder_error + unit) \<times> block_state_builder) option"
where
  "builder_consume w ser env run blk b =
     (case recent b of
        [] \<Rightarrow> None
      | front # older \<Rightarrow>
          (let (prev_hash, front) = block_hash env front;
               prev_height = height front;
               b = b\<lparr>recent := front # older\<rparr> in
           if prev_hash \<noteq> parent blk then Some (Inl (InvalidBlockParent (parent blk) prev_hash), b)
           else if prev_height + 1 \<noteq> height blk then Some (Inl (InvalidBlockHeight (height blk) (prev_height + 1)), b)
           else
             let b = b\<lparr>recent := push_block (history_len b) blk (recent b)\<rparr> in
             case run (memory_get (b_state b)) (memory_get (codecache b)) (block_transactions blk) of
               None \<Rightarrow> None
             | Some results \<Rightarrow>
                 (let statediff = merge_results results in
                  case try_precompile_predicates w ser statediff of
                    None \<Rightarrow> None
                  | Some compiled \<Rightarrow>
                      Some (Inr (), b\<lparr>codecache := memory_apply (codecache b) compiled,
                                     b_state := memory_apply (b_state b) statediff\<rparr>))))"

section \<open>The mempool\<close>

record mempool =
  pool_txs :: "transaction list"
  pool_blocks :: block_state_builder

definition mempool_new :: "block_state_builder \<Rightarrow> mempool" where
  "mempool_new b = \<lparr>pool_txs = [], pool_blocks = b\<rparr>"

definition mempool_consume :: "transaction \<Rightarrow> mempool \<Rightarrow> mempool" where
  "mempool_consume tx p = p\<lparr>pool_txs := pool_txs p @ [tx]\<rparr>"

definition mempool_produce ::
  "('m, 'i, 'f, 's) wasm_env \<Rightarrow> ('m \<Rightarrow> bytes option) \<Rightarrow> hash_env \<Rightarrow> block_runner \<Rightarrow> mempool \<Rightarrow> (block \<times> mempool) option"
where
  "mempool_produce w ser env run p =
     (case builder_last (pool_blocks p) of
        None \<Rightarrow> None
      | Some par \<Rightarrow>
          (let blk = block_new env par (pool_txs p) in
           case builder_consume w ser env run blk (pool_blocks p) of
             Some (Inr _, b) \<Rightarrow> Some (blk, \<lparr>pool_txs = [], pool_blocks = b\<rparr>)
           | _ \<Rightarrow> None))"

text \<open>The loop of the development node: a decoded transaction or a tick of the block timer.\<close>

datatype node_event = TxBytes "transaction option" | Tick

fun node_step ::
  "('m, 'i, 'f, 's) wasm_env \<Rightarrow> ('m \<Rightarrow> bytes option) \<Rightarrow> hash_env \<Rightarrow> block_runner \<Rightarrow> node_event \<Rightarrow> mempool \<Rightarrow> (block list \<times> mempool) option"
where
  "node_step w ser env run (TxBytes None) p = Some ([], p)"
| "node_step w ser env run (TxBytes (Some tx)) p = Some ([], mempool_consume tx p)"
| "node_step w ser env run Tick p = map_option (\<lambda>(blk, p). ([blk], p)) (mempool_produce w ser env run p)"

fun node_run ::
  "('m, 'i, 'f, 's) wasm_env \<Rightarrow> ('m \<Rightarrow> bytes option) \<Rightarrow> hash_env \<Rightarrow> block_runner \<Rightarrow> node_event list \<Rightarrow> mempool \<Rightarrow> (block list \<times> mempool) option"
where
  "node_run w ser env run [] p = Some ([], p)"
| "node_run w ser env run (e # es) p =
     (case node_step w ser env run e p of
        None \<Rightarrow> None
      | Some (out, p) \<Rightarrow> map_option (\<lambda>(more, p). (out @ more, p)) (node_run w ser env run es p))"

section \<open>The watcher\<close>

datatype watchlist_key =
    KIntent multihash
  | KTransaction multihash
  | KAccountChange address

datatype watchlist_value =
    VIntent transaction
  | VTransaction block
  | VAccountChange transaction

text \<open>A oneshot sender is a number; the watchlist maps keys to senders.\<close>

type_synonym watchlist = "watchlist_key \<rightharpoonup> nat"

definition signal :: "watchlist_key \<Rightarrow> watchlist_value \<Rightarrow> watchlist \<times> (nat \<times> watchlist_value) list \<Rightarrow> watchlist \<times> (nat \<times> watchlist_value) list" where
  "signal k v s =
     (case fst s k of
        Some sender \<Rightarrow> ((fst s)(k := None), snd s @ [(sender, v)])
      | None \<Rightarrow> s)"

definition signal_tx ::
  "hash_env \<Rightarrow> block \<Rightarrow> transaction \<Rightarrow> watchlist \<times> (nat \<times> watchlist_value) list \<Rightarrow> watchlist \<times> (nat \<times> watchlist_value) list"
where
  "signal_tx env blk tx s =
     fold (\<lambda>e. signal (KAccountChange (fst e)) (VAccountChange tx)) (tx_proposals tx)
       (fold (\<lambda>i. signal (KIntent (fst (intent_hash env i))) (VIntent tx)) (tx_intents tx)
         (signal (KTransaction (fst (transaction_hash env tx))) (VTransaction blk) s))"

record watcher =
  watchlist :: watchlist
  state_builder :: block_state_builder

definition watcher_block ::
  "('m, 'i, 'f, 's) wasm_env \<Rightarrow> ('m \<Rightarrow> bytes option) \<Rightarrow> hash_env \<Rightarrow> block_runner \<Rightarrow> block \<Rightarrow> watcher
   \<Rightarrow> ((nat \<times> watchlist_value) list \<times> watcher) option"
where
  "watcher_block w ser env run blk x =
     (let (wl, sent) = fold (signal_tx env blk) (block_transactions blk) (watchlist x, []) in
      map_option (\<lambda>(r, b). (sent, \<lparr>watchlist = wl, state_builder = b\<rparr>))
        (builder_consume w ser env run blk (state_builder x)))"

definition await_key :: "watchlist_key \<Rightarrow> nat \<Rightarrow> watcher \<Rightarrow> watcher" where
  "await_key k sender x = x\<lparr>watchlist := (watchlist x)(k \<mapsto> sender)\<rparr>"

definition await_intent :: "multihash \<Rightarrow> nat \<Rightarrow> watcher \<Rightarrow> watcher" where
  "await_intent h = await_key (KIntent h)"

definition await_transaction :: "multihash \<Rightarrow> nat \<Rightarrow> watcher \<Rightarrow> watcher" where
  "await_transaction h = await_key (KTransaction h)"

definition await_account_change :: "address \<Rightarrow> nat \<Rightarrow> watcher \<Rightarrow> watcher" where
  "await_account_change a = await_key (KAccountChange a)"

text \<open>What the awaiting side makes of the received value; \<open>None\<close> is the panic on a wrong variant.\<close>

fun receive_intent :: "watchlist_value \<Rightarrow> transaction option" where
  "receive_intent (VIntent tx) = Some tx"
| "receive_intent _ = None"

fun receive_transaction :: "watchlist_value \<Rightarrow> block option" where
  "receive_transaction (VTransaction blk) = Some blk"
| "receive_transaction _ = None"

fun receive_account_change :: "watchlist_value \<Rightarrow> transaction option" where
  "receive_account_change (VAccountChange tx) = Some tx"
| "receive_account_change _ = None"

section \<open>Chains of blocks\<close>

fun chained :: "hash_env \<Rightarrow> block list \<Rightarrow> bool" where
  "chained env (b # c # bs) =
     (parent b = fst (block_hash env c) \<and> height b = height c + 1 \<and> chained env (c # bs))"
| "chained env _ = True"

definition builder_wf :: "hash_env \<Rightarrow> block_state_builder \<Rightarrow> bool" where
  "builder_wf env b = (recent b \<noteq> [] \<and> chained env (recent b) \<and> length (recent b) \<le> history_len b)"

lemma block_hash_fields [simp]:
  "height (snd (block_hash env b)) = height b" "parent (snd (block_hash env b)) = parent b"
  "block_transactions (snd (block_hash env b)) = block_transactions b"
  by (simp_all add: block_hash_def Let_def)

lemma chained_hash: "chained env (b # bs) \<Longrightarrow> chained env (snd (block_hash env b) # bs)"
  by (cases bs) auto

lemma chained_butlast: "chained env bs \<Longrightarrow> chained env (butlast bs)"
proof (induction env bs rule: chained.induct)
  case (1 env b c bs)
  then show ?case by (cases bs) auto
qed auto

lemma chained_push:
  assumes "chained env (c # cs)" "parent b = fst (block_hash env c)" "height b = height c + 1"
  shows "chained env (push_block hl b (c # cs))"
proof -
  have "chained env (b # c # cs)" using assms by simp
  then show ?thesis using chained_butlast [of env "b # c # cs"] by (simp add: push_block_def Let_def)
qed

lemma push_block_length: "length bs \<le> hl \<Longrightarrow> 0 < hl \<Longrightarrow> length (push_block hl b bs) \<le> hl \<and> push_block hl b bs \<noteq> [] \<and> hd (push_block hl b bs) = b"
  by (cases bs) (auto simp: push_block_def Let_def)

section \<open>Diffs of a block\<close>

lemma ok_diffs_mem: "d \<in> set (ok_diffs rs) \<longleftrightarrow> Inr d \<in> set rs"
  by (induction rs rule: ok_diffs.induct) auto

lemma merge_results_effect:
  assumes "list_all diff_wf (ok_diffs results)"
  shows "diff_wf (merge_results results)"
    and "memory_get (memory_apply s (merge_results results)) = fold diff_effect (ok_diffs results) (memory_get s)"
proof -
  have "diff_wf (merge_results results) \<and>
    memory_get (memory_apply s (merge_results results)) = fold diff_effect (ok_diffs results) (memory_get s)"
  proof (cases "ok_diffs results")
    case Nil
    then have "merge_results results = diff_default" by (simp add: merge_results_def)
    then show ?thesis using mem_store.get_apply [OF diff_wf_default, of s] Nil by simp
  next
    case (Cons d ds)
    then have m: "merge_results results = foldl diff_merge d ds" by (simp add: merge_results_def)
    have wf: "diff_wf d" "list_all diff_wf ds" using assms Cons by auto
    show ?thesis unfolding m
      using mem_store.apply_merged [OF wf, of s] mem_store.get_apply_all [of "d # ds" s] wf
        mem_store.foldl_merge_effect [OF wf] Cons by simp
  qed
  then show "diff_wf (merge_results results)"
    and "memory_get (memory_apply s (merge_results results)) = fold diff_effect (ok_diffs results) (memory_get s)" by auto
qed

lemma execute_outputs: "execute w env order sched split tx state cache = Some (Inr d) \<Longrightarrow> outputs state tx = Inr d"
  by (auto simp: execute_def split: sum.splits option.splits)

definition vm_runner ::
  "petgraph \<Rightarrow> ('m, 'i, 'f, 's) wasm_env \<Rightarrow> hash_env \<Rightarrow> (nat \<Rightarrow> collected \<Rightarrow> collected) \<Rightarrow> (nat \<Rightarrow> nat list)
   \<Rightarrow> (nat \<Rightarrow> nat \<Rightarrow> nat \<Rightarrow> nat) \<Rightarrow> block_runner"
where
  "vm_runner pg w env order sched split state cache txs =
     execute_many pg (block_executor w env order sched split cache) state txs"

lemma vm_runner_ok:
  assumes "petgraph_laws pg" "bs58_alphanumeric w" "list_all valid_proposals txs"
  obtains results where "vm_runner pg w env order sched split state cache txs = Some results"
    "length results = length txs" "list_all diff_wf (ok_diffs results)"
proof -
  obtain refs where refs: "opt_list (refs_new state) txs = Some refs" using refs_total [OF assms(3)] by blast
  from execute_many_results [OF assms(1) block_executor_total [OF assms(2,3)] refs, of env order sched split cache]
  obtain results where r: "execute_many pg (block_executor w env order sched split cache) state txs = Some results"
    "length results = length txs"
    and ex: "\<forall>i < length txs. \<exists>s. block_executor w env order sched split cache i (txs ! i) s = Some (results ! i)" by blast
  have "diff_wf d" if "d \<in> set (ok_diffs results)" for d
  proof -
    from that have "Inr d \<in> set results" by (simp add: ok_diffs_mem)
    then obtain i where i: "i < length txs" "results ! i = Inr d" using r(2) by (auto simp: in_set_conv_nth)
    from ex i obtain s where "execute w env (order i) (sched i) (split i) (txs ! i) s cache = Some (Inr d)"
      by (auto simp: block_executor_def)
    then have "outputs s (txs ! i) = Inr d" by (rule execute_outputs)
    moreover have "bt_inv (tx_proposals (txs ! i))" using assms(3) i by (auto simp: list_all_length valid_proposals_def)
    ultimately show ?thesis by (rule outputs_Inr(1))
  qed
  with r show ?thesis using that by (auto simp: vm_runner_def list_all_iff)
qed

lemma precompile_total: "bs58_alphanumeric w \<Longrightarrow> \<exists>d. precompile_all w ser es out = Some d"
proof (induction es arbitrary: out)
  case (Cons e es)
  then have "precompile_change w ser e out \<noteq> None"
    by (auto simp: precompile_change_def predcache_path_valid split: option.splits sum.splits)
  with Cons show ?case by (auto split: option.splits)
qed simp

lemma consume_spec:
  assumes "petgraph_laws pg" "bs58_alphanumeric w" "builder_wf env b" "recent b = front # older"
    "list_all valid_proposals (block_transactions blk)"
    and run_def: "run = vm_runner pg w env order sched split"
  defines "fits \<equiv> parent blk = fst (block_hash env front) \<and> height blk = height front + 1"
  shows "\<exists>r b'. builder_consume w ser env run blk b = Some (r, b') \<and> builder_wf env b' \<and> (r = Inr () \<longleftrightarrow> fits)
    \<and> (\<not> fits \<longrightarrow> b_state b' = b_state b \<and> codecache b' = codecache b)
    \<and> (fits \<longrightarrow> builder_last b' = Some blk
        \<and> (\<exists>results. run (memory_get (b_state b)) (memory_get (codecache b)) (block_transactions blk) = Some results
            \<and> length results = length (block_transactions blk)
            \<and> memory_get (b_state b') = fold diff_effect (ok_diffs results) (memory_get (b_state b))))"
proof -
  let ?front = "snd (block_hash env front)"
  have wf: "chained env (?front # older)" "length (front # older) \<le> history_len b"
    using assms(3,4) chained_hash by (auto simp: builder_wf_def)
  obtain h f where hf: "block_hash env front = (h, f)" by (cases "block_hash env front")
  show ?thesis
  proof (cases fits)
    case False
    then show ?thesis using wf assms(4) hf
      by (auto simp: builder_consume_def builder_wf_def fits_def Let_def block_hash_fields [of env front, unfolded hf, simplified])
  next
    case True
    obtain results where res: "run (memory_get (b_state b)) (memory_get (codecache b)) (block_transactions blk) = Some results"
      "length results = length (block_transactions blk)" "list_all diff_wf (ok_diffs results)"
      unfolding run_def by (rule vm_runner_ok [OF assms(1,2,5)])
    obtain compiled where pre: "try_precompile_predicates w ser (merge_results results) = Some compiled"
      using precompile_total [OF assms(2)] unfolding try_precompile_predicates_def by blast
    have "chained env (push_block (history_len b) blk (?front # older))"
      using chained_push [OF wf(1), of blk] True by (simp add: fits_def)
    moreover note push_block_length [of "?front # older" "history_len b" blk]
    ultimately show ?thesis
      using True wf assms(4) hf res pre merge_results_effect(2) [OF res(3)]
      by (auto simp: builder_consume_def builder_wf_def builder_last_def fits_def Let_def
          block_hash_fields [of env front, unfolded hf, simplified] split: list.splits)
  qed
qed

lemma block_new_fits:
  "parent (block_new env par txs) = fst (block_hash env par) \<and> height (block_new env par txs) = height par + 1
   \<and> block_transactions (block_new env par txs) = txs"
  by (simp add: block_new_def)

lemma produce_spec:
  assumes "petgraph_laws pg" "bs58_alphanumeric w" "builder_wf env (pool_blocks p)" "list_all valid_proposals (pool_txs p)"
    and run_def: "run = vm_runner pg w env order sched split"
  shows "\<exists>par p'. builder_last (pool_blocks p) = Some par
    \<and> mempool_produce w ser env run p = Some (block_new env par (pool_txs p), p') \<and> pool_txs p' = []
    \<and> builder_wf env (pool_blocks p') \<and> builder_last (pool_blocks p') = Some (block_new env par (pool_txs p))"
proof -
  obtain par older where r: "recent (pool_blocks p) = par # older"
    using assms(3) by (cases "recent (pool_blocks p)") (auto simp: builder_wf_def)
  let ?blk = "block_new env par (pool_txs p)"
  have v: "list_all valid_proposals (block_transactions ?blk)" using assms(4) block_new_fits by simp
  from consume_spec [OF assms(1-3) r v run_def, of ser] obtain b' where
    c: "builder_consume w ser env run ?blk (pool_blocks p) = Some (Inr (), b')" and b: "builder_wf env b'" "builder_last b' = Some ?blk"
    using block_new_fits [of env par "pool_txs p"] by auto
  have l: "builder_last (pool_blocks p) = Some par" using r by (simp add: builder_last_def)
  have "mempool_produce w ser env run p = Some (?blk, \<lparr>pool_txs = [], pool_blocks = b'\<rparr>)"
    using l c by (simp add: mempool_produce_def Let_def)
  with l b show ?thesis by (intro exI [of _ par] exI [of _ "\<lparr>pool_txs = [], pool_blocks = b'\<rparr>"]) simp
qed

fun event_txs :: "node_event list \<Rightarrow> transaction list" where
  "event_txs [] = []"
| "event_txs (TxBytes (Some tx) # es) = tx # event_txs es"
| "event_txs (_ # es) = event_txs es"

text \<open>Blocks in the order they are produced, each built on the one before.\<close>

fun extends_chain :: "hash_env \<Rightarrow> block \<Rightarrow> block list \<Rightarrow> bool" where
  "extends_chain env par [] = True"
| "extends_chain env par (b # bs) =
     (parent b = fst (block_hash env par) \<and> height b = height par + 1 \<and> extends_chain env b bs)"

lemma extends_chain_hash:
  "fst (block_hash env par) = fst (block_hash env par') \<Longrightarrow> height par = height par' \<Longrightarrow>
   extends_chain env par bs = extends_chain env par' bs"
  by (cases bs) auto

lemma node_run_spec:
  assumes "petgraph_laws pg" "bs58_alphanumeric w" and run_def: "run = vm_runner pg w env order sched split"
  shows "builder_wf env (pool_blocks p) \<Longrightarrow> list_all valid_proposals (pool_txs p @ event_txs es) \<Longrightarrow>
    builder_last (pool_blocks p) = Some par \<Longrightarrow>
    \<exists>blocks p'. node_run w ser env run es p = Some (blocks, p') \<and> builder_wf env (pool_blocks p')
      \<and> extends_chain env par blocks
      \<and> concat (map block_transactions blocks) @ pool_txs p' = pool_txs p @ event_txs es"
proof (induction es arbitrary: p par)
  case (Cons e es)
  show ?case
  proof (cases e)
    case Tick
    from produce_spec [OF assms(1,2) Cons.prems(1) _ run_def, of ser] Cons.prems(2,3) obtain p1 where
      p1: "mempool_produce w ser env run p = Some (block_new env par (pool_txs p), p1)" "pool_txs p1 = []"
      "builder_wf env (pool_blocks p1)" "builder_last (pool_blocks p1) = Some (block_new env par (pool_txs p))" by auto
    from Cons.IH [OF p1(3) _ p1(4)] Cons.prems(2) p1(2) Tick obtain blocks p' where
      "node_run w ser env run es p1 = Some (blocks, p')" "builder_wf env (pool_blocks p')"
      "extends_chain env (block_new env par (pool_txs p)) blocks"
      "concat (map block_transactions blocks) @ pool_txs p' = event_txs es" by auto
    with p1(1) Tick block_new_fits [of env par "pool_txs p"] show ?thesis by auto
  next
    case (TxBytes otx)
    show ?thesis
    proof (cases otx)
      case None
      with Cons TxBytes show ?thesis by auto
    next
      case (Some tx)
      have "list_all valid_proposals (pool_txs (mempool_consume tx p) @ event_txs es)"
        using Cons.prems(2) TxBytes Some by (auto simp: mempool_consume_def)
      moreover have "pool_blocks (mempool_consume tx p) = pool_blocks p" by (simp add: mempool_consume_def)
      ultimately show ?thesis using Cons.IH [of "mempool_consume tx p" par] Cons.prems TxBytes Some
        by (auto simp: mempool_consume_def)
    qed
  qed
qed simp

lemma signal_fold_values:
  assumes "\<And>x. P (v x)"
  shows "\<forall>s \<in> set (snd acc). P (snd s) \<Longrightarrow> \<forall>s \<in> set (snd (fold (\<lambda>x. signal (k x) (v x)) xs acc)). P (snd s)"
  using assms
proof (induction xs arbitrary: acc)
  case (Cons x xs)
  have "\<forall>s \<in> set (snd (signal (k x) (v x) acc)). P (snd s)"
    using Cons.prems by (auto simp: signal_def split: option.splits)
  with Cons show ?case by simp
qed simp

definition fresh_builder :: block_state_builder where
  "fresh_builder = \<lparr>history_len = 64, b_state = memory_default, codecache = memory_default, recent = [block_zero []]\<rparr>"

lemma fresh_builder_wf: "builder_wf env fresh_builder" "builder_last fresh_builder = Some (block_zero [])"
  by (simp_all add: builder_wf_def fresh_builder_def builder_last_def)

section \<open>Properties\<close>

text \<open>C11. Consuming a block: with constructed addresses it never panics and keeps the stored blocks a
  linked chain within the history length.  It succeeds exactly when the block names the hash of the
  last block as its parent and the next height; otherwise the state and the code cache are
  untouched.  On success the block becomes the last one and the new state is the old one with the
  diffs of the successful transactions applied one after the other, in block order.\<close>

theorem block_consumed:
  assumes "petgraph_laws pg" "bs58_alphanumeric w" "builder_wf env b" "recent b = front # older"
    "list_all valid_proposals (block_transactions blk)"
  shows "\<exists>r b'. builder_consume w ser env (vm_runner pg w env order sched split) blk b = Some (r, b') \<and> builder_wf env b'
    \<and> (r = Inr () \<longleftrightarrow> parent blk = fst (block_hash env front) \<and> height blk = height front + 1)
    \<and> (r \<noteq> Inr () \<longrightarrow> b_state b' = b_state b \<and> codecache b' = codecache b)
    \<and> (r = Inr () \<longrightarrow> builder_last b' = Some blk
        \<and> (\<exists>results. vm_runner pg w env order sched split (memory_get (b_state b)) (memory_get (codecache b)) (block_transactions blk) = Some results
            \<and> length results = length (block_transactions blk)
            \<and> memory_get (b_state b') = fold diff_effect (ok_diffs results) (memory_get (b_state b))))"
proof -
  from consume_spec [OF assms refl, of ser order sched split] obtain r b' where
    "builder_consume w ser env (vm_runner pg w env order sched split) blk b = Some (r, b')" "builder_wf env b'"
    and iff: "r = Inr () \<longleftrightarrow> parent blk = fst (block_hash env front) \<and> height blk = height front + 1"
    and "\<not> (parent blk = fst (block_hash env front) \<and> height blk = height front + 1) \<longrightarrow> b_state b' = b_state b \<and> codecache b' = codecache b"
    "parent blk = fst (block_hash env front) \<and> height blk = height front + 1 \<longrightarrow> builder_last b' = Some blk
        \<and> (\<exists>results. vm_runner pg w env order sched split (memory_get (b_state b)) (memory_get (codecache b)) (block_transactions blk) = Some results
            \<and> length results = length (block_transactions blk)
            \<and> memory_get (b_state b') = fold diff_effect (ok_diffs results) (memory_get (b_state b)))" by blast
  then show ?thesis unfolding iff [symmetric] by (intro exI [of _ r] exI [of _ b']) simp
qed

theorem block_consumed_witness:
  "\<exists>b'. builder_consume sample_wasm (\<lambda>_. None) sample_env (vm_runner plain_petgraph sample_wasm sample_env (\<lambda>_ out. out) (\<lambda>_. []) (\<lambda>_ _ _. 0))
      (block_new sample_env (block_zero []) [write_tx ''/a'', write_tx ''/b'']) fresh_builder = Some (Inr (), b')
    \<and> builder_wf sample_env b'"
proof -
  let ?blk = "block_new sample_env (block_zero []) [write_tx ''/a'', write_tx ''/b'']"
  have r: "recent fresh_builder = block_zero [] # []" by (simp add: fresh_builder_def)
  have v: "list_all valid_proposals (block_transactions ?blk)" using sample_txs_valid by (simp add: block_new_def)
  from block_consumed [OF plain_petgraph_laws sample_wasm_ok fresh_builder_wf(1) r v]
  show ?thesis using block_new_fits [of sample_env "block_zero []"] by blast
qed

text \<open>C12. The development node: for any sequence of received transactions with constructed addresses and
  timer ticks, the loop never panics, the blocks it produces extend the chain one by one, and every
  transaction received ends up in exactly one block, in order of arrival, or still waits in the pool.\<close>

theorem node_run_no_loss:
  assumes "petgraph_laws pg" "bs58_alphanumeric w" "builder_wf env (pool_blocks p)"
    "builder_last (pool_blocks p) = Some par" "list_all valid_proposals (pool_txs p @ event_txs es)"
  shows "\<exists>blocks p'. node_run w ser env (vm_runner pg w env order sched split) es p = Some (blocks, p')
    \<and> extends_chain env par blocks
    \<and> concat (map block_transactions blocks) @ pool_txs p' = pool_txs p @ event_txs es"
  using node_run_spec [OF assms(1,2) refl assms(3,5,4)] by blast

theorem node_run_no_loss_witness:
  "\<exists>blocks p'. node_run sample_wasm (\<lambda>_. None) sample_env (vm_runner plain_petgraph sample_wasm sample_env (\<lambda>_ out. out) (\<lambda>_. []) (\<lambda>_ _ _. 0))
      [TxBytes (Some (write_tx ''/a'')), Tick, TxBytes None, TxBytes (Some (write_tx ''/b''))] (mempool_new fresh_builder) = Some (blocks, p')
    \<and> concat (map block_transactions blocks) @ pool_txs p' = [write_tx ''/a'', write_tx ''/b'']"
proof -
  have "builder_wf sample_env (pool_blocks (mempool_new fresh_builder))" "builder_last (pool_blocks (mempool_new fresh_builder)) = Some (block_zero [])"
    "list_all valid_proposals (pool_txs (mempool_new fresh_builder) @ event_txs
       [TxBytes (Some (write_tx ''/a'')), Tick, TxBytes None, TxBytes (Some (write_tx ''/b''))])"
    using sample_txs_valid by (simp_all add: mempool_new_def fresh_builder_wf)
  from node_run_no_loss [OF plain_petgraph_laws sample_wasm_ok this, of "\<lambda>_. None" "\<lambda>_ out. out" "\<lambda>_. []" "\<lambda>_ _ _. 0"]
  show ?thesis by (auto simp: mempool_new_def)
qed

section \<open>A remote panic\<close>

text \<open>A transaction as it may arrive from the network: deserialising an address does not validate it.\<close>

definition rogue_tx :: transaction where
  "rogue_tx = transaction_new [] [(Address ''x'', CreateAccount (sample_account []))]"

lemma rogue_execute:
  assumes "state (Address ''x'') = None"
  shows "execute w env order sched split rogue_tx state cache = None"
proof -
  let ?a = "Address ''x''"
  have nx: "ancestor_next ?a = None" by code_simp
  have o: "outputs state rogue_tx = Inr (snd (diff_set diff_default ?a (sample_account [])))"
    using assms by (simp add: outputs_def rogue_tx_def transaction_new_def output_change_cases)
  have c: "predicate_context_of env state rogue_tx = Inr \<lparr>ctx_calldata = bt_collect [], ctx_proposals = [(?a, XCreateAccount (sample_account []))]\<rparr>"
    by (simp add: predicate_context_of_def rogue_tx_def transaction_new_def expand_proposal_def expand_account_change_def)
  have "visit_account state ctx cd ?a out = Inr out" for ctx cd out
    using assms by (simp add: visit_account_def)
  then have "accounts_predicates order state ctx rogue_tx = None" for ctx
    using nx by (simp add: accounts_predicates_def rogue_tx_def transaction_new_def bt_keys_def for_ancestors.simps)
  with o c show ?thesis by (simp add: execute_def)
qed

lemma single_root: "find_roots plain_petgraph 1 [] = Some [0]"
proof -
  have f: "forest 1 []" by (simp add: forest_def)
  then have "graph_laws plain_petgraph 1 []" using plain_petgraph_laws by (auto simp: petgraph_laws_def)
  from find_roots_spec [OF f this] obtain rs where rs: "find_roots plain_petgraph 1 [] = Some rs" "distinct rs"
    "set rs = {v. v < 1 \<and> parent_of [] v = None}" .
  then have "set rs = {0}" by (auto simp: parent_of_def)
  with rs(2) have "rs = [0]" by (metis distinct.simps(2) empty_set insert_iff insert_not_empty list.exhaust list.set_intros(1) list.simps(15) singletonD)
  with rs(1) show ?thesis by simp
qed

lemma rogue_block:
  assumes "state (Address ''x'') = None"
  shows "vm_runner plain_petgraph w env order sched split state cache [rogue_tx] = None"
proof -
  have refs: "refs_new state rogue_tx = Some \<lparr>reads = [], writes = [Address ''x'']\<rparr>"
    using assms by (simp add: refs_new_def rogue_tx_def transaction_new_def bt_keys_def Let_def List.insert_def)
  have exec: "block_executor w env order sched split cache i rogue_tx (overlayed_get state (diff_get diff_default)) = None" for i
    using rogue_execute [where state = state, OF assms] by (simp add: block_executor_def)
  have "tree_run plain_petgraph (block_executor w env order sched split cache) state [] 0 [syn_new (Some (rogue_tx, 0))] = None"
    using exec by (simp add: tree_run_def bfs_new_def tree_rows.simps bfs_next_def plain_petgraph_def syn_take_free syn_new_def run_row_def)
  then show ?thesis
    using refs single_root by (simp add: vm_runner_def execute_many_def schedule_new_def schedule_run_def)
qed

text \<open>C39. A single received transaction can stop the node: an address that deserialised without a slash
  makes the ancestor iterator panic while the block is executed.\<close>

theorem node_remote_panic:
  "node_run w ser env (vm_runner plain_petgraph w env order sched split) [TxBytes (Some rogue_tx), Tick] (mempool_new fresh_builder) = None"
proof -
  have "memory_get memory_default (Address ''x'') = None" by (simp add: memory_get_def memory_default_def)
  note stuck = rogue_block [where state = "memory_get memory_default" and cache = "memory_get memory_default", OF this, of w env order sched split]
  obtain h f where hash: "block_hash env (block_zero []) = (h, f)" by (cases "block_hash env (block_zero [])")
  have "builder_consume w ser env (vm_runner plain_petgraph w env order sched split)
      (block_new env (block_zero []) [rogue_tx]) fresh_builder = None"
    using stuck hash hash [unfolded block_hash_def Let_def]
    by (auto simp: builder_consume_def fresh_builder_def block_new_def Let_def)
  then show ?thesis
    by (simp add: mempool_new_def mempool_consume_def mempool_produce_def fresh_builder_wf Let_def)
qed

section \<open>Signals of the watcher\<close>

definition tx_events :: "hash_env \<Rightarrow> block \<Rightarrow> transaction \<Rightarrow> (watchlist_key \<times> watchlist_value) list" where
  "tx_events env blk tx =
     (KTransaction (fst (transaction_hash env tx)), VTransaction blk)
     # map (\<lambda>i. (KIntent (fst (intent_hash env i)), VIntent tx)) (tx_intents tx)
     @ map (\<lambda>e. (KAccountChange (fst e), VAccountChange tx)) (tx_proposals tx)"

definition block_events :: "hash_env \<Rightarrow> block \<Rightarrow> (watchlist_key \<times> watchlist_value) list" where
  "block_events env blk = concat (map (tx_events env blk) (block_transactions blk))"

lemma signal_tx_events: "signal_tx env blk tx s = fold (\<lambda>(k, v). signal k v) (tx_events env blk tx) s"
  by (simp add: signal_tx_def tx_events_def fold_map comp_def)

lemma signal_block_events:
  "fold (signal_tx env blk) txs s = fold (\<lambda>(k, v). signal k v) (concat (map (tx_events env blk) txs)) s"
  by (induction txs arbitrary: s) (simp_all add: signal_tx_events)

lemma fold_signal:
  "fst (fold (\<lambda>(k, v). signal k v) kvs (wl, sent)) k = (if k \<in> fst ` set kvs then None else wl k)
   \<and> ((n, v) \<in> set (snd (fold (\<lambda>(k, v). signal k v) kvs (wl, sent))) \<longleftrightarrow>
      (n, v) \<in> set sent \<or> (\<exists>k. wl k = Some n \<and> map_of kvs k = Some v))"
proof (induction kvs arbitrary: wl sent)
  case (Cons kv kvs)
  obtain k0 v0 where kv: "kv = (k0, v0)" by (cases kv)
  show ?case
  proof (cases "wl k0")
    case None
    then have "signal k0 v0 (wl, sent) = (wl, sent)" by (simp add: signal_def)
    moreover have "(\<exists>k. wl k = Some n \<and> map_of (kv # kvs) k = Some v) \<longleftrightarrow> (\<exists>k. wl k = Some n \<and> map_of kvs k = Some v)"
      using None kv by (metis fst_conv map_of_Cons_code(2) option.distinct(1))
    ultimately show ?thesis using Cons.IH [of wl sent] None kv by (simp del: map_of.simps)
  next
    case (Some s)
    then have step: "signal k0 v0 (wl, sent) = (wl(k0 := None), sent @ [(s, v0)])" by (simp add: signal_def)
    define wl' where "wl' = wl(k0 := None)"
    have ex: "(\<exists>k. wl k = Some n \<and> map_of (kv # kvs) k = Some v) \<longleftrightarrow> n = s \<and> v = v0 \<or> (\<exists>k. wl' k = Some n \<and> map_of kvs k = Some v)"
      using Some kv by (auto simp: wl'_def)
    have keys: "fst ` set (kv # kvs) = insert k0 (fst ` set kvs)" "wl' k = (if k = k0 then None else wl k)" "wl' k0 = None"
      using kv by (simp_all add: wl'_def)
    have run: "fold (\<lambda>(k, v). signal k v) (kv # kvs) (wl, sent) = fold (\<lambda>(k, v). signal k v) kvs (wl', sent @ [(s, v0)])"
      using step kv by (simp add: wl'_def)
    have sends: "(n, v) \<in> set (sent @ [(s, v0)]) \<or> P \<longleftrightarrow> (n, v) \<in> set sent \<or> n = s \<and> v = v0 \<or> P" for P by auto
    show ?thesis unfolding run ex keys(1)
      using Cons.IH [of wl' "sent @ [(s, v0)]", unfolded sends] keys(2,3) by simp
  qed
qed simp

end
