(* ===== verification/Cache.thy ===== *)
theory Cache
  imports Prelude "HOL-Library.AList"
begin

text \<open>
  The collections of the network layer: \<open>network/src/cache.rs\<close>.  A \<open>HashMap<K, V>\<close> is an association
  list with distinct keys, updated with the library's \<open>AList\<close> operations; its iteration order is not
  specified and is a parameter of the code that iterates.  \<open>ExpiringMap\<close> stamps every value with the
  time of its insertion.  Time is a natural number of nanoseconds and every operation takes the
  current time; \<open>Instant::elapsed\<close> saturates at zero, as natural subtraction does.
\<close>

type_synonym instant = nat
type_synonym duration = nat
type_synonym ('k, 'v) hash_map = "('k \<times> 'v) list"

abbreviation hm_wf :: "('k, 'v) hash_map \<Rightarrow> bool" where
  "hm_wf m \<equiv> distinct (map fst m)"

text \<open>\<open>FromIterator\<close> of a hash map: a later pair replaces an earlier one with the same key.\<close>

definition hm_collect :: "('k \<times> 'v) list \<Rightarrow> ('k, 'v) hash_map" where
  "hm_collect kvs = fold (\<lambda>(k, v). AList.update k v) kvs []"

lemma hm_wf_update [wf_intros]: "hm_wf m \<Longrightarrow> hm_wf (AList.update k v m)"
  by (rule distinct_update)

lemma hm_wf_delete [wf_intros]: "hm_wf m \<Longrightarrow> hm_wf (AList.delete k m)"
  by (rule distinct_delete)

lemma length_update: "length (AList.update k v m) = (if k \<in> fst ` set m then length m else Suc (length m))"
  by (induction m) auto

lemma length_delete: "hm_wf m \<Longrightarrow> k \<in> fst ` set m \<Longrightarrow> Suc (length (AList.delete k m)) = length m"
proof (induction m)
  case (Cons e m)
  show ?case
  proof (cases "fst e = k")
    case True
    then have "k \<notin> fst ` set m" using Cons.prems(1) by auto
    then have "AList.delete k m = m" by (rule delete_id)
    with True show ?thesis by (cases e) (simp add: AList.delete_eq)
  next
    case False
    then show ?thesis using Cons by (cases e) (auto simp: AList.delete_eq)
  qed
qed simp

lemma keys_delete [simp]: "fst ` set (AList.delete k m) = fst ` set m - {k}"
  by (auto simp: AList.delete_eq)

lemma keys_update [simp]: "fst ` set (AList.update k v m) = insert k (fst ` set m)"
  by (simp add: dom_update)

lemma keys_map_of: "k \<in> fst ` set m \<longleftrightarrow> (\<exists>v. map_of m k = Some v)"
  by (metis domIff dom_map_of_conv_image_fst not_None_eq)

lemma fold_update_keys:
  "fst ` set (fold (\<lambda>(k, v). AList.update k v) kvs m) = fst ` set kvs \<union> fst ` set m"
  by (induction kvs arbitrary: m) (simp_all add: split_beta)

lemma fold_update_wf: "hm_wf m \<Longrightarrow> hm_wf (fold (\<lambda>(k, v). AList.update k v) kvs m)"
  by (induction kvs arbitrary: m) (auto intro: distinct_update)

lemma hm_collect_keys [simp]: "fst ` set (hm_collect kvs) = fst ` set kvs"
  by (simp add: hm_collect_def fold_update_keys)

lemma hm_collect_wf [wf_intros]: "hm_wf (hm_collect kvs)"
  by (simp add: hm_collect_def fold_update_wf)

lemma hm_collect_length: "length (hm_collect kvs) \<le> length kvs"
proof -
  have "length (hm_collect kvs) = card (fst ` set (hm_collect kvs))"
    using hm_collect_wf [of kvs] by (metis distinct_card length_map list.set_map)
  also have "\<dots> \<le> card (set kvs)" unfolding hm_collect_keys by (rule card_image_le) simp
  also have "\<dots> \<le> length kvs" by (rule card_length)
  finally show ?thesis .
qed

section \<open>Expiring map\<close>

record ('k, 'v) expiring_map =
  lifespan :: duration
  em_data :: "('k, 'v \<times> instant) hash_map"

definition elapsed :: "instant \<Rightarrow> instant \<Rightarrow> duration" where
  "elapsed now stamp = now - stamp"

definition em_new :: "duration \<Rightarrow> ('k, 'v) expiring_map" where
  "em_new ls = \<lparr>lifespan = ls, em_data = []\<rparr>"

definition em_len :: "('k, 'v) expiring_map \<Rightarrow> nat" where
  "em_len m = length (em_data m)"

definition em_insert :: "instant \<Rightarrow> 'k \<Rightarrow> 'v \<Rightarrow> ('k, 'v) expiring_map \<Rightarrow> 'v option \<times> ('k, 'v) expiring_map" where
  "em_insert now k v m =
     (let m' = m\<lparr>em_data := AList.update k (v, now) (em_data m)\<rparr> in
      case map_of (em_data m) k of
        Some (old, stamp) \<Rightarrow> if elapsed now stamp > lifespan m then (None, m') else (Some old, m')
      | None \<Rightarrow> (None, m'))"

definition em_is_empty :: "('k, 'v) expiring_map \<Rightarrow> bool" where
  "em_is_empty m = (em_data m = [])"

definition em_get :: "instant \<Rightarrow> 'k \<Rightarrow> ('k, 'v) expiring_map \<Rightarrow> 'v option" where
  "em_get now k m =
     (case map_of (em_data m) k of
        Some (v, stamp) \<Rightarrow> if elapsed now stamp > lifespan m then None else Some v
      | None \<Rightarrow> None)"

definition em_contains_key :: "instant \<Rightarrow> 'k \<Rightarrow> ('k, 'v) expiring_map \<Rightarrow> bool" where
  "em_contains_key now k m = (em_get now k m \<noteq> None)"

definition em_remove :: "instant \<Rightarrow> 'k \<Rightarrow> ('k, 'v) expiring_map \<Rightarrow> 'v option \<times> ('k, 'v) expiring_map" where
  "em_remove now k m =
     (let m' = m\<lparr>em_data := AList.delete k (em_data m)\<rparr> in
      case map_of (em_data m) k of
        Some (v, stamp) \<Rightarrow> if elapsed now stamp > lifespan m then (None, m') else (Some v, m')
      | None \<Rightarrow> (None, m'))"

definition em_prune_expired :: "instant \<Rightarrow> ('k, 'v) expiring_map \<Rightarrow> ('k, 'v) expiring_map" where
  "em_prune_expired now m = m\<lparr>em_data := filter (\<lambda>(k, v, stamp). elapsed now stamp < lifespan m) (em_data m)\<rparr>"

section \<open>Expiring set\<close>

type_synonym 'k expiring_set = "('k, unit) expiring_map"

text \<open>Unlike \<open>HashSet::insert\<close>, \<open>insert\<close> is true when an unexpired element was already there.\<close>

definition es_new :: "duration \<Rightarrow> 'k expiring_set" where
  "es_new ls = em_new ls"

definition es_len :: "'k expiring_set \<Rightarrow> nat" where
  "es_len s = em_len s"

definition es_is_empty :: "'k expiring_set \<Rightarrow> bool" where
  "es_is_empty s = em_is_empty s"

definition es_insert :: "instant \<Rightarrow> 'k \<Rightarrow> 'k expiring_set \<Rightarrow> bool \<times> 'k expiring_set" where
  "es_insert now k s = (let (old, s') = em_insert now k () s in (old \<noteq> None, s'))"

definition es_contains :: "instant \<Rightarrow> 'k \<Rightarrow> 'k expiring_set \<Rightarrow> bool" where
  "es_contains now k s = (em_get now k s \<noteq> None)"

definition es_remove :: "instant \<Rightarrow> 'k \<Rightarrow> 'k expiring_set \<Rightarrow> bool \<times> 'k expiring_set" where
  "es_remove now k s = (let (old, s') = em_remove now k s in (old \<noteq> None, s'))"

definition es_prune_expired :: "instant \<Rightarrow> 'k expiring_set \<Rightarrow> 'k expiring_set" where
  "es_prune_expired now s = em_prune_expired now s"

section \<open>The interface\<close>

text \<open>What the clients of an expiring collection rely on.  \<open>look\<close> is the unexpired value of a key at a
  given time, \<open>span\<close> the lifetime of an entry.\<close>

locale expiring_store =
  fixes span :: "'s \<Rightarrow> duration"
    and ok :: "'s \<Rightarrow> bool"
    and look :: "instant \<Rightarrow> 'k \<Rightarrow> 's \<Rightarrow> 'v option"
    and put :: "instant \<Rightarrow> 'k \<Rightarrow> 'v \<Rightarrow> 's \<Rightarrow> 'v option \<times> 's"
    and take_out :: "instant \<Rightarrow> 'k \<Rightarrow> 's \<Rightarrow> 'v option \<times> 's"
    and prune :: "instant \<Rightarrow> 's \<Rightarrow> 's"
  assumes put_old: "fst (put now k v s) = look now k s"
    and take_old: "fst (take_out now k s) = look now k s"
    and look_put_same: "look t k (snd (put now k v s)) = (if elapsed t now > span s then None else Some v)"
    and look_put_other: "k' \<noteq> k \<Longrightarrow> look t k' (snd (put now k v s)) = look t k' s"
    and look_take: "look t k' (snd (take_out now k s)) = (if k' = k then None else look t k' s)"
    and look_prune: "ok s \<Longrightarrow> 0 < span s \<Longrightarrow> now \<le> t \<Longrightarrow>
      look t k (prune now s) = (if look t k s \<noteq> None \<and> look (now + 1) k s = None then None else look t k s)"
    and ok_kept: "ok s \<Longrightarrow> ok (snd (put now k v s))" "ok s \<Longrightarrow> ok (snd (take_out now k s))" "ok s \<Longrightarrow> ok (prune now s)"
    and look_mono: "look t' k s = Some v \<Longrightarrow> t \<le> t' \<Longrightarrow> look t k s = Some v"
    and span_kept: "span (snd (put now k v s)) = span s" "span (snd (take_out now k s)) = span s" "span (prune now s) = span s"
begin

lemma put_again:
  assumes "t \<le> now + span s"
  shows "fst (put t k v' (snd (put now k v s))) = Some v"
  using assms by (simp add: put_old look_put_same elapsed_def)

lemma put_sequence:
  assumes "\<forall>(k', v', t') \<in> set kvs. k' \<noteq> k"
  shows "look t k (fold (\<lambda>(k', v', t') s. snd (put t' k' v' s)) kvs s) = look t k s"
  using assms by (induction kvs arbitrary: s) (auto simp: look_put_other)

lemma take_twice: "fst (take_out t k (snd (take_out now k s))) = None"
  by (simp add: take_old look_take)

end

lemma em_lookup_insert:
  "em_data (snd (em_insert now k v m)) = AList.update k (v, now) (em_data m)"
  "lifespan (snd (em_insert now k v m)) = lifespan m"
  by (auto simp: em_insert_def Let_def split: option.splits)

lemma em_lookup_remove:
  "em_data (snd (em_remove now k m)) = AList.delete k (em_data m)"
  "lifespan (snd (em_remove now k m)) = lifespan m"
  by (auto simp: em_remove_def Let_def split: option.splits)

lemma em_prune_simps [simp]:
  "em_data (em_prune_expired now m) = filter (\<lambda>(k, v, stamp). elapsed now stamp < lifespan m) (em_data m)"
  "lifespan (em_prune_expired now m) = lifespan m"
  by (simp_all add: em_prune_expired_def)

lemma map_of_filter_distinct:
  "hm_wf m \<Longrightarrow> map_of (filter P m) k = (case map_of m k of Some v \<Rightarrow> if P (k, v) then Some v else None | None \<Rightarrow> None)"
proof (induction m)
  case (Cons e m)
  have "map_of (filter P m) (fst e) = None"
    using Cons.prems by (auto simp: map_of_eq_None_iff)
  then show ?case using Cons by (cases e) auto
qed simp

lemma em_put_old: "fst (em_insert now k v m) = em_get now k m"
  by (auto simp: em_insert_def em_get_def Let_def split: option.splits)

lemma em_take_old: "fst (em_remove now k m) = em_get now k m"
  by (auto simp: em_remove_def em_get_def Let_def split: option.splits)

lemma em_get_pruned:
  assumes "hm_wf (em_data m)" "0 < lifespan m" "now \<le> t"
  shows "em_get t k (em_prune_expired now m) =
    (if em_get t k m \<noteq> None \<and> em_get (now + 1) k m = None then None else em_get t k m)"
  using assms
  by (auto simp: em_get_def map_of_filter_distinct elapsed_def split: option.splits)

interpretation em: expiring_store lifespan "\<lambda>m. hm_wf (em_data m)" em_get em_insert em_remove em_prune_expired
proof
  show "fst (em_insert now k v s) = em_get now k s" for now k v and s :: "('a, 'b) expiring_map"
    by (rule em_put_old)
  show "fst (em_remove now k s) = em_get now k s" for now k and s :: "('a, 'b) expiring_map"
    by (rule em_take_old)
  show "em_get t k (snd (em_insert now k v s)) = (if elapsed t now > lifespan s then None else Some v)"
    for t now k v and s :: "('a, 'b) expiring_map"
    by (simp add: em_get_def em_lookup_insert update_conv')
  show "k' \<noteq> k \<Longrightarrow> em_get t k' (snd (em_insert now k v s)) = em_get t k' s"
    for t k k' now v and s :: "('a, 'b) expiring_map"
    by (simp add: em_get_def em_lookup_insert update_conv' split: option.splits)
  show "em_get t k' (snd (em_remove now k s)) = (if k' = k then None else em_get t k' s)"
    for t k k' now and s :: "('a, 'b) expiring_map"
    by (simp add: em_get_def em_lookup_remove delete_conv' split: option.splits)
  show "hm_wf (em_data s) \<Longrightarrow> 0 < lifespan s \<Longrightarrow> now \<le> t \<Longrightarrow> em_get t k (em_prune_expired now s) =
      (if em_get t k s \<noteq> None \<and> em_get (now + 1) k s = None then None else em_get t k s)"
    for t k now and s :: "('a, 'b) expiring_map"
    by (rule em_get_pruned)
  show "em_get t' k s = Some v \<Longrightarrow> t \<le> t' \<Longrightarrow> em_get t k s = Some v" for t t' k v and s :: "('a, 'b) expiring_map"
    by (auto simp: em_get_def elapsed_def split: option.splits if_splits)
  show "hm_wf (em_data s) \<Longrightarrow> hm_wf (em_data (snd (em_insert now k v s)))" for now k v and s :: "('a, 'b) expiring_map"
    by (simp add: em_lookup_insert distinct_update)
  show "hm_wf (em_data s) \<Longrightarrow> hm_wf (em_data (snd (em_remove now k s)))" for now k and s :: "('a, 'b) expiring_map"
    by (simp add: em_lookup_remove distinct_delete)
  show "hm_wf (em_data s) \<Longrightarrow> hm_wf (em_data (em_prune_expired now s))" for now and s :: "('a, 'b) expiring_map"
    by (simp add: distinct_map_filter)
qed (auto simp: em_lookup_insert em_lookup_remove)

text \<open>The set operations in terms of membership at a time.\<close>

lemma es_insert_simps [store_simps]:
  "fst (es_insert now k s) = es_contains now k s"
  "es_contains t k' (snd (es_insert now k s)) = (if k' = k then elapsed t now \<le> lifespan s else es_contains t k' s)"
  "lifespan (snd (es_insert now k s)) = lifespan s"
  by (auto simp: es_insert_def es_contains_def split_beta em.put_old em.look_put_same em.look_put_other em.span_kept)

lemma es_remove_simps [store_simps]:
  "fst (es_remove now k s) = es_contains now k s"
  "es_contains t k' (snd (es_remove now k s)) = (k' \<noteq> k \<and> es_contains t k' s)"
  "lifespan (snd (es_remove now k s)) = lifespan s"
  by (auto simp: es_remove_def es_contains_def split_beta em.take_old em.look_take em.span_kept)

lemma es_contains_new [simp]: "\<not> es_contains now k (es_new ls)"
  by (simp add: es_contains_def es_new_def em_get_def em_new_def)

section \<open>Properties\<close>

text \<open>C36. The expiring map over time.  An inserted value is returned by \<open>get\<close> up to and including the
  moment its lifespan has passed, and by no later call; an insertion or a removal returns what \<open>get\<close>
  would have; an insertion restarts the lifespan; and pruning drops exactly the entries that have
  reached their lifespan, so at that moment it drops an entry \<open>get\<close> still returns.\<close>

theorem expiring_map_lifetime:
  assumes "hm_wf (em_data m)" "now \<le> t"
  shows "em_get t k (snd (em_insert now k v m)) = (if t \<le> now + lifespan m then Some v else None)
    \<and> fst (em_insert t k v' (snd (em_insert now k v m))) = (if t \<le> now + lifespan m then Some v else None)
    \<and> fst (em_remove t k (snd (em_insert now k v m))) = (if t \<le> now + lifespan m then Some v else None)
    \<and> em_get t k (em_prune_expired t (snd (em_insert now k v m))) = (if t < now + lifespan m then Some v else None)
    \<and> (k' \<noteq> k \<longrightarrow> em_get t k' (snd (em_insert now k v m)) = em_get t k' m)"
proof -
  have get: "em_get u k (snd (em_insert now k v m)) = (if u \<le> now + lifespan m then Some v else None)" if "now \<le> u" for u
    using that by (auto simp: em.look_put_same elapsed_def)
  have "hm_wf (em_data (snd (em_insert now k v m)))" using assms(1) by (rule em.ok_kept(1))
  then have "em_get t k (em_prune_expired t (snd (em_insert now k v m))) = (if t < now + lifespan m then Some v else None)"
    using assms(2) by (auto simp: em_get_def map_of_filter_distinct em_lookup_insert update_conv' elapsed_def)
  with get [OF assms(2)] show ?thesis
    by (simp add: em.put_old em.take_old em.look_put_other)
qed

theorem expiring_map_lifetime_witness:
  "em_get 15 ''k'' (snd (em_insert 5 ''k'' (1 :: nat) (em_new 10))) = Some 1
   \<and> em_get 15 ''k'' (em_prune_expired 15 (snd (em_insert 5 ''k'' (1 :: nat) (em_new 10)))) = None
   \<and> em_get 16 ''k'' (snd (em_insert 5 ''k'' (1 :: nat) (em_new 10))) = None"
proof -
  have wf: "hm_wf (em_data (em_new 10 :: (string, nat) expiring_map))" and ls: "lifespan (em_new 10 :: (string, nat) expiring_map) = 10"
    by (simp_all add: em_new_def)
  have "(5 :: nat) \<le> 15" "(5 :: nat) \<le> 16" by simp_all
  from expiring_map_lifetime [where k = "''k''" and v = 1 and k' = "''k''", OF wf this(1)]
    expiring_map_lifetime [where k = "''k''" and v = 1 and k' = "''k''", OF wf this(2)]
  show ?thesis using ls by auto
qed

end
