(* ===== verification/Wire.thy ===== *)
theory Wire
  imports Cache Complex_Main
begin

text \<open>
  The vocabulary of the peer-to-peer layer: peers and messages of \<open>network/src/wire.rs\<close>, the network
  wide settings of \<open>config.rs\<close>, the commands of \<open>network.rs\<close>, the events of \<open>behaviour.rs\<close>, and the
  address without its port of \<open>muxer.rs\<close>.

  A \<open>PeerId\<close> is the bytes of a multihash and a \<open>ConnectionId\<close> a number.  A \<open>Multiaddr\<close> is the list of
  its protocol components, of which only the two kinds of IP address are told apart.  A \<open>HashSet\<close> of
  addresses is the list of its elements in iteration order.  Two \<open>AddressablePeer\<close>s are equal when
  their identities are, so a \<open>HashSet\<close> of them is a list that is looked up by identity.
\<close>

section \<open>Addresses and peers\<close>

type_synonym peer_id = bytes
type_synonym connection_id = nat

datatype protocol = Ip4 u32 | Ip6 "128 word" | OtherProtocol string

type_synonym multiaddr = "protocol list"

datatype ip_address = V4 u32 | V6 "128 word"

definition ip_of :: "multiaddr \<Rightarrow> ip_address option" where
  "ip_of addr =
     (case addr of
        Ip4 a # _ \<Rightarrow> Some (V4 a)
      | Ip6 a # _ \<Rightarrow> Some (V6 a)
      | _ \<Rightarrow> None)"

record addressable_peer =
  peer_id :: peer_id
  addresses :: "multiaddr list"

definition peer_eq :: "addressable_peer \<Rightarrow> addressable_peer \<Rightarrow> bool" where
  "peer_eq p q = (peer_id p = peer_id q)"

definition peer_from_id :: "peer_id \<Rightarrow> addressable_peer" where
  "peer_from_id p = \<lparr>peer_id = p, addresses = []\<rparr>"

type_synonym peer_set = "addressable_peer list"

definition peer_set_get :: "peer_set \<Rightarrow> addressable_peer \<Rightarrow> addressable_peer option" where
  "peer_set_get ps q = find (\<lambda>p. peer_eq p q) ps"

text \<open>\<open>FromIterator\<close> of a hash set keeps the first of two equal elements.\<close>

fun peer_set_collect :: "addressable_peer list \<Rightarrow> peer_set" where
  "peer_set_collect [] = []"
| "peer_set_collect (p # ps) = p # filter (\<lambda>q. \<not> peer_eq p q) (peer_set_collect ps)"

lemma peer_set_get_None: "peer_set_get ps (peer_from_id k) = None \<longleftrightarrow> k \<notin> peer_id ` set ps"
  by (auto simp: peer_set_get_def peer_eq_def peer_from_id_def find_None_iff)

lemma peer_set_collect_ids: "peer_id ` set (peer_set_collect ps) = peer_id ` set ps"
proof (induction ps)
  case (Cons p ps)
  have "peer_id ` set (filter (\<lambda>q. \<not> peer_eq p q) qs) = peer_id ` set qs - {peer_id p}" for qs
    by (auto simp: peer_eq_def)
  with Cons show ?case by auto
qed simp

lemma peer_set_collect_subset: "set (peer_set_collect ps) \<subseteq> set ps"
  by (induction ps) auto

section \<open>Messages\<close>

datatype action =
    Join (join_node: addressable_peer)
  | ForwardJoin (hop: u16) (fj_node: addressable_peer)
  | Neighbour (nb_peer: addressable_peer) (high_priority: bool)
  | Shuffle (hop: u16) (origin: addressable_peer) (shuffle_peers: peer_set)
  | ShuffleReply (reply_peers: peer_set)
  | Gossip bytes

record message =
  msg_topic :: string
  msg_action :: action
  hash_cache :: "bytes option"

definition message_new :: "string \<Rightarrow> action \<Rightarrow> message" where
  "message_new topic act = \<lparr>msg_topic = topic, msg_action = act, hash_cache = None\<rparr>"

text \<open>\<open>Message::hash\<close> memoises the digest of the serialised topic and action; \<open>digest\<close> is that
  composition of serialisation and hash function.\<close>

definition message_hash :: "(string \<Rightarrow> action \<Rightarrow> bytes) \<Rightarrow> message \<Rightarrow> bytes \<times> message" where
  "message_hash digest msg =
     (case hash_cache msg of
        Some h \<Rightarrow> (h, msg)
      | None \<Rightarrow> (let h = digest (msg_topic msg) (msg_action msg) in (h, msg\<lparr>hash_cache := Some h\<rparr>)))"

lemma message_hash_fields [simp]:
  "msg_topic (snd (message_hash digest msg)) = msg_topic msg"
  "msg_action (snd (message_hash digest msg)) = msg_action msg"
  by (auto simp: message_hash_def Let_def split: option.splits)

section \<open>Events and commands\<close>

datatype connected_point = Dialer multiaddr | Listener multiaddr

datatype behaviour_event =
    LocalAddressDiscovered multiaddr
  | ConnectionEstablished addressable_peer connected_point connection_id
  | ConnectionClosed peer_id connection_id
  | MessageReceived peer_id connection_id message

datatype command =
    Connect multiaddr string
  | Disconnect peer_id connection_id
  | SendMessage peer_id connection_id message
  | BanPeer peer_id
  | InjectEvent behaviour_event

text \<open>Commands of \<open>runloop.rs\<close>, from the network object to the background thread.\<close>

datatype runloop_command =
    RConnect multiaddr
  | RDisconnect peer_id connection_id
  | RBanPeer peer_id
  | RSendMessage peer_id connection_id message

section \<open>Settings\<close>

text \<open>Floating point numbers are reals: the rounding of \<open>f64\<close> operations is not modelled.\<close>

record config =
  network_size :: nat
  active_view_constant :: nat
  active_view_starve_factor :: real
  passive_view_factor :: nat
  max_transmit_size :: nat
  shuffle_interval :: duration
  shuffle_probability :: real
  listen_addrs :: "multiaddr list"
  dedupe_interval :: "duration option"
  pending_timeout :: duration
  maintenance_tick_interval :: duration

text \<open>\<open>as usize\<close> saturates at both ends; the logarithm of zero is minus infinity, which saturates to
  zero.  The product of two \<open>usize\<close> wraps in a release build.\<close>

definition as_usize :: "int \<Rightarrow> nat" where
  "as_usize i = nat (min i (2 ^ 64 - 1))"

definition optimal_active_view_size :: "config \<Rightarrow> nat" where
  "optimal_active_view_size c =
     (if network_size c = 0 then 0
      else as_usize (round (log 2 (real (network_size c)) + real (active_view_constant c))))"

definition min_active_view_size :: "config \<Rightarrow> nat" where
  "min_active_view_size c = as_usize \<lceil>real (optimal_active_view_size c) * active_view_starve_factor c\<rceil>"

definition max_passive_view_size :: "config \<Rightarrow> nat" where
  "max_passive_view_size c = (optimal_active_view_size c * passive_view_factor c) mod 2 ^ 64"

definition random_walk_length :: "config \<Rightarrow> nat" where
  "random_walk_length c = (if network_size c = 0 then 0 else as_usize \<lceil>log 10 (real (network_size c))\<rceil>)"

definition shuffle_sample_size :: "config \<Rightarrow> nat" where
  "shuffle_sample_size c = max_passive_view_size c div 2"

definition default_config :: config where
  "default_config =
     \<lparr>network_size = 100, active_view_constant = 1, active_view_starve_factor = 75 / 100,
      passive_view_factor = 6, max_transmit_size = 1024 * 1024,
      shuffle_interval = 180 * 10 ^ 9, shuffle_probability = 3 / 10,
      listen_addrs = [[Ip4 0, OtherProtocol ''tcp/44668''], [Ip6 0, OtherProtocol ''tcp/44668'']],
      dedupe_interval = Some (5 * 10 ^ 9), pending_timeout = 15 * 10 ^ 9,
      maintenance_tick_interval = 5 * 10 ^ 9\<rparr>"

lemma log2_100: "13 / 2 < log 2 (100 :: real)" "log 2 (100 :: real) < 15 / 2"
proof -
  have pow: "log 2 ((2 :: real) ^ k) = k" for k by (rule log_pow_cancel) simp_all
  have sq: "log 2 ((100 :: real) ^ 2) = 2 * log 2 100" by (subst log_nat_power) simp_all
  have "log 2 ((2 :: real) ^ 13) < log 2 (100 ^ 2)" "log 2 (100 ^ 2) < log 2 ((2 :: real) ^ 15)"
    by (subst log_less_cancel_iff; simp)+
  then have "13 < 2 * log 2 (100 :: real)" "2 * log 2 (100 :: real) < 15" unfolding pow sq by simp_all
  then show "13 / 2 < log 2 (100 :: real)" "log 2 (100 :: real) < 15 / 2" by simp_all
qed

lemma round_eq: "real_of_int n - 1 / 2 \<le> x \<Longrightarrow> x < real_of_int n + 1 / 2 \<Longrightarrow> round x = n" for x :: real
  unfolding round_def by linarith

lemma default_optimal [simp]: "optimal_active_view_size default_config = 8"
proof -
  have "round (log 2 (100 :: real) + 1) = 8" using log2_100 by (intro round_eq) auto
  then show ?thesis by (simp add: optimal_active_view_size_def default_config_def as_usize_def)
qed

lemma default_walk [simp]: "random_walk_length default_config = 2"
proof -
  have "log 10 (100 :: real) = log 10 (10 ^ 2)" by simp
  also have "\<dots> = 2" by (subst log_nat_power) auto
  finally show ?thesis by (simp add: random_walk_length_def default_config_def as_usize_def)
qed

lemma default_sizes [simp]:
  "min_active_view_size default_config = 6"
  "max_passive_view_size default_config = 48"
  "shuffle_sample_size default_config = 24"
proof -
  have "\<lceil>real (optimal_active_view_size default_config) * active_view_starve_factor default_config\<rceil> = 6"
    unfolding default_optimal by (simp add: default_config_def)
  then show "min_active_view_size default_config = 6" by (simp add: min_active_view_size_def as_usize_def)
  show p: "max_passive_view_size default_config = 48"
    unfolding max_passive_view_size_def default_optimal by (simp add: default_config_def)
  show "shuffle_sample_size default_config = 24" by (simp add: shuffle_sample_size_def p)
qed

lemma as_usize_mono: "i \<le> j \<Longrightarrow> as_usize i \<le> as_usize j"
  by (auto simp: as_usize_def)

lemma as_usize_nat: "as_usize (int n) \<le> n"
  by (simp add: as_usize_def nat_le_iff)

lemma as_usize_bound: "as_usize i < 2 ^ 64"
  by (simp add: as_usize_def)

end
