(* ===== verification/Topic.thy ===== *)
theory Topic
  imports Wire "HOL-Library.Monad_Syntax"
begin

text \<open>
  The HyParView overlay of one topic: \<open>network/src/topic.rs\<close>.  \<open>topic_inner\<close> is \<open>TopicInner\<close>; every
  method is a function from the state to the state it leaves behind, \<open>None\<close> when an \<open>expect\<close> or
  \<open>panic!\<close> is reached.  What is sent on the command channel to the network layer is appended to
  \<open>cmdtx\<close>, what is handed to the listeners of the topic to \<open>outmsgs\<close>.  Logging and metrics are left
  out.

  Nondeterminism is the record \<open>world\<close>: the time of the call, the iteration order of hash maps, and the
  draws of the random number generator, one function per place that draws.  \<open>world_ok\<close> states what the
  libraries document: an order is a permutation, \<open>choose\<close> returns an element, \<open>choose_multiple\<close> a
  sample without replacement of the wanted size, or everything when there is less.
\<close>

section \<open>Nondeterminism\<close>

datatype rng_site =
    EvictPassive | EvictPassiveAgain | MakeSpace | HighPriority | StabilizeWith | Overconnected
  | ShuffleTarget | ShuffleSample | TrimShuffle | NewPassive

record world =
  now :: instant
  iter_order :: "peer_id list \<Rightarrow> peer_id list"
  rng_choose :: "rng_site \<Rightarrow> peer_id list \<Rightarrow> peer_id"
  rng_multiple :: "rng_site \<Rightarrow> nat \<Rightarrow> peer_id list \<Rightarrow> peer_id list"
  toss :: real

definition world_ok :: "world \<Rightarrow> bool" where
  "world_ok w \<longleftrightarrow>
     (\<forall>xs. mset (iter_order w xs) = mset xs)
     \<and> (\<forall>s xs. xs \<noteq> [] \<longrightarrow> rng_choose w s xs \<in> set xs)
     \<and> (\<forall>s n xs. mset (rng_multiple w s n xs) \<subseteq># mset xs \<and> length (rng_multiple w s n xs) = min n (length xs))"

definition pick :: "world \<Rightarrow> rng_site \<Rightarrow> peer_id list \<Rightarrow> peer_id option" where
  "pick w s xs = (if xs = [] then None else Some (rng_choose w s xs))"

section \<open>State\<close>

datatype topic_error = MessageTooLarge | NoConnectedPeers

record topic_config =
  topic_name :: string
  bootstrap :: "multiaddr list"

datatype topic_event =
    TMessageReceived peer_id message connection_id
  | TLocalAddressDiscovered multiaddr
  | TPeerConnected addressable_peer connection_id
  | TPeerDisconnected peer_id connection_id
  | TTick

record topic_inner =
  t_config :: topic_config
  network_config :: config
  last_shuffle :: instant
  this_node :: addressable_peer
  outmsgs :: "bytes list"
  cmdtx :: "command list"
  active_peers :: "(peer_id, connection_id \<times> multiaddr list) hash_map"
  passive_peers :: "(peer_id, multiaddr list) hash_map"
  pending_dials :: "ip_address expiring_set"
  pending_neighbours :: "peer_id expiring_set"
  pending_joins :: "peer_id expiring_set"
  pending_shuffle_replies :: "(peer_id, peer_set) expiring_map"
  pending_disconnects :: "peer_id expiring_set"

section \<open>Commands to the network layer\<close>

definition send_cmd :: "command \<Rightarrow> topic_inner \<Rightarrow> topic_inner" where
  "send_cmd c t = t\<lparr>cmdtx := cmdtx t @ [c]\<rparr>"

definition send_message :: "peer_id \<Rightarrow> connection_id \<Rightarrow> message \<Rightarrow> topic_inner \<Rightarrow> topic_inner" where
  "send_message p c msg = send_cmd (SendMessage p c msg)"

definition send_action :: "peer_id \<Rightarrow> connection_id \<Rightarrow> action \<Rightarrow> topic_inner \<Rightarrow> topic_inner" where
  "send_action p c act t = send_message p c (message_new (topic_name (t_config t)) act) t"

definition disconnect :: "world \<Rightarrow> peer_id \<Rightarrow> connection_id \<Rightarrow> topic_inner \<Rightarrow> topic_inner" where
  "disconnect w p c t =
     (let (already, pd) = es_insert (now w) p (pending_disconnects t);
          t = t\<lparr>pending_disconnects := pd\<rparr> in
      if \<not> already then send_cmd (Disconnect p c) t else t)"

definition dial_addr :: "world \<Rightarrow> multiaddr \<Rightarrow> topic_inner \<Rightarrow> topic_inner" where
  "dial_addr w addr t =
     (case ip_of addr of
        None \<Rightarrow> t
      | Some sockaddr \<Rightarrow>
          (let (already, pd) = es_insert (now w) sockaddr (pending_dials t);
               t = t\<lparr>pending_dials := pd\<rparr> in
           if \<not> already then send_cmd (Connect addr (topic_name (t_config t))) t else t))"

definition is_pending_dial :: "world \<Rightarrow> addressable_peer \<Rightarrow> topic_inner \<Rightarrow> bool" where
  "is_pending_dial w p t =
     list_ex (\<lambda>addr. case ip_of addr of None \<Rightarrow> False | Some a \<Rightarrow> es_contains (now w) a (pending_dials t))
       (addresses p)"

text \<open>The loop \<open>for (peer, (connection, _)) in active_peers.iter()\<close> that sends one message to every
  peer that passes a test.\<close>

definition active_iter :: "world \<Rightarrow> topic_inner \<Rightarrow> (peer_id \<times> connection_id) list" where
  "active_iter w t =
     concat (map (\<lambda>p. case map_of (active_peers t) p of None \<Rightarrow> [] | Some (c, _) \<Rightarrow> [(p, c)])
       (iter_order w (map fst (active_peers t))))"

definition send_active :: "world \<Rightarrow> (peer_id \<Rightarrow> bool) \<Rightarrow> action \<Rightarrow> topic_inner \<Rightarrow> topic_inner" where
  "send_active w test act t =
     fold (\<lambda>(p, c) t. if test p then send_action p c act t else t) (active_iter w t) t"

section \<open>Views\<close>

definition is_active :: "topic_inner \<Rightarrow> peer_id \<Rightarrow> bool" where
  "is_active t p = (map_of (active_peers t) p \<noteq> None)"

definition active_view_starved :: "topic_inner \<Rightarrow> bool" where
  "active_view_starved t = (length (active_peers t) < min_active_view_size (network_config t))"

definition active_view_full :: "topic_inner \<Rightarrow> bool" where
  "active_view_full t = (length (active_peers t) \<ge> optimal_active_view_size (network_config t))"

definition active_view_overconnected :: "topic_inner \<Rightarrow> bool" where
  "active_view_overconnected t = (length (active_peers t) > optimal_active_view_size (network_config t))"

definition remove_from_passive_view :: "peer_id \<Rightarrow> topic_inner \<Rightarrow> topic_inner" where
  "remove_from_passive_view p t = t\<lparr>passive_peers := AList.delete p (passive_peers t)\<rparr>"

definition ban :: "peer_id \<Rightarrow> topic_inner \<Rightarrow> topic_inner" where
  "ban p t =
     send_cmd (BanPeer p)
       (remove_from_passive_view p (t\<lparr>active_peers := AList.delete p (active_peers t)\<rparr>))"

definition add_to_passive_view :: "world \<Rightarrow> rng_site \<Rightarrow> addressable_peer \<Rightarrow> topic_inner \<Rightarrow> topic_inner option" where
  "add_to_passive_view w site p t =
     (let known = map_of (passive_peers t) (peer_id p);
          t = t\<lparr>passive_peers := AList.update (peer_id p) (addresses p) (passive_peers t)\<rparr> in
      if known = None \<and> length (passive_peers t) > max_passive_view_size (network_config t)
      then do {
        random \<leftarrow> pick w site (map fst (passive_peers t));
        Some (remove_from_passive_view random t)
      }
      else Some t)"

definition add_to_active_view :: "addressable_peer \<Rightarrow> connection_id \<Rightarrow> topic_inner \<Rightarrow> topic_inner" where
  "add_to_active_view p c t =
     (if is_active t (peer_id p) then t
      else if peer_id p = peer_id (this_node t) then t
      else remove_from_passive_view (peer_id p)
             (t\<lparr>active_peers := AList.update (peer_id p) (c, addresses p) (active_peers t)\<rparr>))"

definition move_active_to_passive :: "world \<Rightarrow> peer_id \<Rightarrow> topic_inner \<Rightarrow> topic_inner option" where
  "move_active_to_passive w p t =
     (case map_of (active_peers t) p of
        None \<Rightarrow> Some t
      | Some (_, addrs) \<Rightarrow>
          add_to_passive_view w EvictPassive \<lparr>peer_id = p, addresses = addrs\<rparr>
            (t\<lparr>active_peers := AList.delete p (active_peers t)\<rparr>))"

definition try_neighbouring_with :: "world \<Rightarrow> addressable_peer \<Rightarrow> topic_inner \<Rightarrow> bool \<times> topic_inner" where
  "try_neighbouring_with w p t =
     (if is_active t (peer_id p) \<or> is_pending_dial w p t then (False, t)
      else
        let (already, pn) = es_insert (now w) (peer_id p) (pending_neighbours t);
            t = t\<lparr>pending_neighbours := pn\<rparr> in
        if \<not> already then (True, fold (dial_addr w) (addresses p) t) else (False, t))"

definition try_stabilize_active_view :: "world \<Rightarrow> topic_inner \<Rightarrow> topic_inner option" where
  "try_stabilize_active_view w t =
     (if active_view_starved t \<and> es_is_empty (pending_dials t) \<and> es_is_empty (pending_neighbours t)
      then
        (case pick w StabilizeWith (map fst (passive_peers t)) of
           Some p \<Rightarrow> do {
             addrs \<leftarrow> map_of (passive_peers t) p;
             Some (snd (try_neighbouring_with w \<lparr>peer_id = p, addresses = addrs\<rparr> t))
           }
         | None \<Rightarrow>
             if es_is_empty (pending_dials t) \<and> es_is_empty (pending_joins t)
             then Some (fold (dial_addr w) (bootstrap (t_config t)) t)
             else Some t)
      else if active_view_overconnected t \<and> es_is_empty (pending_disconnects t)
      then do {
        p \<leftarrow> pick w Overconnected (map fst (active_peers t));
        (c, _) \<leftarrow> map_of (active_peers t) p;
        Some (disconnect w p c t)
      }
      else Some t)"

section \<open>Message handlers\<close>

definition consume_join :: "world \<Rightarrow> peer_id \<Rightarrow> addressable_peer \<Rightarrow> connection_id \<Rightarrow> topic_inner \<Rightarrow> topic_inner option" where
  "consume_join w sender node connection t =
     (if sender \<noteq> peer_id node then Some (ban sender t)
      else if is_active t sender then Some t
      else
        let t = send_active w (\<lambda>_. True) (ForwardJoin 1 node) t;
            t = disconnect w sender connection t;
            t = (if \<not> active_view_full t then snd (try_neighbouring_with w node t) else t) in
        add_to_passive_view w EvictPassive node t)"

definition free_last_hop_slot :: "world \<Rightarrow> topic_inner \<Rightarrow> topic_inner option" where
  "free_last_hop_slot w t =
     do {
       random_id \<leftarrow> pick w MakeSpace (map fst (active_peers t));
       (rand_conn, addrs) \<leftarrow> map_of (active_peers t) random_id;
       add_to_passive_view w EvictPassiveAgain \<lparr>peer_id = random_id, addresses = addrs\<rparr>
         (disconnect w random_id rand_conn t)
     }"

definition accept_forward_join :: "world \<Rightarrow> peer_id \<Rightarrow> u16 \<Rightarrow> addressable_peer \<Rightarrow> topic_inner \<Rightarrow> topic_inner option" where
  "accept_forward_join w sender h node t =
     (if unat h \<ge> random_walk_length (network_config t)
      then
        (if \<not> es_contains (now w) (peer_id node) (pending_neighbours t)
         then do {
           t \<leftarrow> (if active_view_full t then free_last_hop_slot w t else Some t);
           Some (snd (try_neighbouring_with w node t))
         }
         else Some t)
      else
        let t = (if \<not> active_view_full t then snd (try_neighbouring_with w node t) else t) in
        Some (send_active w (\<lambda>p. p \<noteq> sender) (ForwardJoin (h + 1) node) t))"

definition consume_forward_join :: "world \<Rightarrow> peer_id \<Rightarrow> u16 \<Rightarrow> addressable_peer \<Rightarrow> topic_inner \<Rightarrow> topic_inner option" where
  "consume_forward_join w sender h node t =
     (if \<not> is_active t sender then Some t
      else if sender = peer_id node then Some t
      else if peer_id node = peer_id (this_node t) then Some t
      else do {
        t \<leftarrow> add_to_passive_view w EvictPassive node t;
        accept_forward_join w sender h node t
      })"

definition consume_neighbor :: "world \<Rightarrow> peer_id \<Rightarrow> addressable_peer \<Rightarrow> bool \<Rightarrow> connection_id \<Rightarrow> topic_inner \<Rightarrow> topic_inner option" where
  "consume_neighbor w sender p high connection t =
     (if is_active t sender then Some t
      else if sender \<noteq> peer_id p then Some (ban sender t)
      else do {
        t \<leftarrow> (if active_view_full t \<and> high
             then do {
               random_id \<leftarrow> pick w HighPriority (map fst (active_peers t));
               (rand_conn, _) \<leftarrow> map_of (active_peers t) random_id;
               Some (disconnect w random_id rand_conn t)
             }
             else Some t);
        if \<not> active_view_full t
        then Some (add_to_active_view p connection t)
        else Some (disconnect w sender connection t)
      })"

text \<open>The macro \<open>collect_peer_addrs!\<close>: passive view, then active view, then the message.\<close>

definition collect_peer_addrs :: "topic_inner \<Rightarrow> peer_set \<Rightarrow> peer_id \<Rightarrow> multiaddr list option" where
  "collect_peer_addrs t peers p =
     (case map_of (passive_peers t) p of
        Some addrs \<Rightarrow> Some addrs
      | None \<Rightarrow>
          (case map_of (active_peers t) p of
             Some (_, addrs) \<Rightarrow> Some addrs
           | None \<Rightarrow> map_option addresses (peer_set_get peers (peer_from_id p))))"

definition with_addrs :: "topic_inner \<Rightarrow> peer_set \<Rightarrow> peer_id \<Rightarrow> (peer_id \<times> multiaddr list) option" where
  "with_addrs t peers p = map_option (Pair p) (collect_peer_addrs t peers p)"

definition local_peer_ids :: "topic_inner \<Rightarrow> peer_id list" where
  "local_peer_ids t = remdups (map fst (active_peers t) @ map fst (passive_peers t))"

definition reply_to_shuffle :: "world \<Rightarrow> addressable_peer \<Rightarrow> peer_set \<Rightarrow> topic_inner \<Rightarrow> topic_inner" where
  "reply_to_shuffle w orig reply t =
     (case map_of (active_peers t) (peer_id orig) of
        Some (connection, _) \<Rightarrow> send_action (peer_id orig) connection (ShuffleReply reply) t
      | None \<Rightarrow>
          fold (dial_addr w) (addresses orig)
            (t\<lparr>pending_shuffle_replies := snd (em_insert (now w) (peer_id orig) reply (pending_shuffle_replies t))\<rparr>))"

definition consume_shuffle :: "world \<Rightarrow> peer_id \<Rightarrow> u16 \<Rightarrow> addressable_peer \<Rightarrow> peer_set \<Rightarrow> topic_inner \<Rightarrow> topic_inner option" where
  "consume_shuffle w sender h orig peers t =
     (if \<not> is_active t sender then Some t
      else
        let recv_peer_ids = remdups (rng_multiple w TrimShuffle (shuffle_sample_size (network_config t)) (map peer_id peers));
            local_ids = local_peer_ids t;
            resp_unique_peers = filter (\<lambda>p. p \<notin> set recv_peer_ids) local_ids;
            new_peers = filter (\<lambda>p. p \<notin> set local_ids) recv_peer_ids in
        do {
          reply \<leftarrow> opt_list (with_addrs t peers) resp_unique_peers;
          passive \<leftarrow> opt_list (with_addrs t peers)
            (rng_multiple w NewPassive (max_passive_view_size (network_config t)) (local_ids @ new_peers));
          let t = t\<lparr>passive_peers := hm_collect passive\<rparr>;
          let t = reply_to_shuffle w orig (map (\<lambda>(p, addrs). \<lparr>peer_id = p, addresses = addrs\<rparr>) reply) t;
          Some (if unat h < random_walk_length (network_config t)
                then send_active w (\<lambda>p. p \<noteq> sender) (Shuffle (h + 1) orig peers) t
                else t)
        })"

definition reply_addrs :: "topic_inner \<Rightarrow> peer_set \<Rightarrow> peer_id \<Rightarrow> (peer_id \<times> multiaddr list) option" where
  "reply_addrs t peers p =
     (case map_of (passive_peers t) p of
        Some addrs \<Rightarrow> Some (p, addrs)
      | None \<Rightarrow> map_option (\<lambda>q. (p, addresses q)) (peer_set_get peers (peer_from_id p)))"

definition consume_shuffle_reply :: "world \<Rightarrow> peer_id \<Rightarrow> peer_set \<Rightarrow> connection_id \<Rightarrow> topic_inner \<Rightarrow> topic_inner option" where
  "consume_shuffle_reply w sender peers connection t =
     (let keys = map fst (passive_peers t);
          new_peers = filter (\<lambda>p. p \<notin> peer_id ` set peers) keys in
      do {
        passive \<leftarrow> opt_list (reply_addrs t peers)
          (rng_multiple w NewPassive (max_passive_view_size (network_config t)) (keys @ new_peers));
        let t = t\<lparr>passive_peers := hm_collect passive\<rparr>;
        Some (if \<not> is_active t sender then disconnect w sender connection t else t)
      })"

definition consume_gossip :: "world \<Rightarrow> peer_id \<Rightarrow> bytes \<Rightarrow> connection_id \<Rightarrow> topic_inner \<Rightarrow> topic_inner" where
  "consume_gossip w sender msg connection t =
     (if \<not> is_active t sender then disconnect w sender connection t
      else
        let t = send_active w (\<lambda>p. p \<noteq> sender) (Gossip msg) t in
        t\<lparr>outmsgs := outmsgs t @ [msg]\<rparr>)"

definition initiate_shuffle :: "world \<Rightarrow> topic_inner \<Rightarrow> topic_inner option" where
  "initiate_shuffle w t =
     (let t = t\<lparr>last_shuffle := now w\<rparr> in
      if 1 - toss w > shuffle_probability (network_config t) then Some t
      else
        let peers_sample = rng_multiple w ShuffleSample (shuffle_sample_size (network_config t))
              (map fst (active_peers t) @ map fst (passive_peers t)) in
        case pick w ShuffleTarget (map fst (active_peers t)) of
          None \<Rightarrow> Some t
        | Some p \<Rightarrow>
            do {
              (c, _) \<leftarrow> map_of (active_peers t) p;
              peers \<leftarrow> opt_list (\<lambda>q. map_option (\<lambda>addrs. \<lparr>peer_id = q, addresses = addrs\<rparr>)
                         (case map_of (active_peers t) q of
                            Some (_, addrs) \<Rightarrow> Some addrs
                          | None \<Rightarrow> map_of (passive_peers t) q)) peers_sample;
              Some (send_action p c (Shuffle 1 (this_node t) (peer_set_collect peers)) t)
            })"

section \<open>Event handlers\<close>

definition handle_new_local_address :: "multiaddr \<Rightarrow> topic_inner \<Rightarrow> topic_inner" where
  "handle_new_local_address addr t =
     t\<lparr>this_node := (this_node t)\<lparr>addresses := List.insert addr (addresses (this_node t))\<rparr>\<rparr>"

definition handle_message_received :: "world \<Rightarrow> peer_id \<Rightarrow> message \<Rightarrow> connection_id \<Rightarrow> topic_inner \<Rightarrow> topic_inner option" where
  "handle_message_received w sender msg connection t =
     (if msg_topic msg \<noteq> topic_name (t_config t) then None
      else case msg_action msg of
        Join node \<Rightarrow> consume_join w sender node connection t
      | ForwardJoin h node \<Rightarrow> consume_forward_join w sender h node t
      | Neighbour p high \<Rightarrow> consume_neighbor w sender p high connection t
      | Shuffle h orig peers \<Rightarrow> consume_shuffle w sender h orig peers t
      | ShuffleReply peers \<Rightarrow> consume_shuffle_reply w sender peers connection t
      | Gossip b \<Rightarrow> Some (consume_gossip w sender b connection t))"

definition handle_pending_neighbours :: "world \<Rightarrow> addressable_peer \<Rightarrow> connection_id \<Rightarrow> topic_inner \<Rightarrow> topic_inner" where
  "handle_pending_neighbours w p connection t =
     (let (was, pn) = es_remove (now w) (peer_id p) (pending_neighbours t);
          t = t\<lparr>pending_neighbours := pn\<rparr> in
      if was then
        add_to_active_view p connection
          (send_action (peer_id p) connection (Neighbour (this_node t) (active_peers t = [])) t)
      else t)"

definition handle_pending_shuffle_replies :: "world \<Rightarrow> addressable_peer \<Rightarrow> connection_id \<Rightarrow> topic_inner \<Rightarrow> topic_inner" where
  "handle_pending_shuffle_replies w p connection t =
     (let (reply, ps) = em_remove (now w) (peer_id p) (pending_shuffle_replies t);
          t = t\<lparr>pending_shuffle_replies := ps\<rparr> in
      case reply of
        None \<Rightarrow> t
      | Some peers \<Rightarrow>
          (let t = send_action (peer_id p) connection (ShuffleReply peers) t in
           if \<not> is_active t (peer_id p) then disconnect w (peer_id p) connection t else t))"

definition handle_non_pending_connects :: "world \<Rightarrow> addressable_peer \<Rightarrow> connection_id \<Rightarrow> topic_inner \<Rightarrow> topic_inner" where
  "handle_non_pending_connects w p connection t =
     (if \<not> active_view_full t \<and> is_pending_dial w p t
         \<and> \<not> es_contains (now w) (peer_id p) (pending_joins t)
         \<and> \<not> es_contains (now w) (peer_id p) (pending_neighbours t)
         \<and> \<not> em_contains_key (now w) (peer_id p) (pending_shuffle_replies t)
      then
        let t = send_action (peer_id p) connection (Join (this_node t)) t in
        t\<lparr>pending_joins := snd (es_insert (now w) (peer_id p) (pending_joins t))\<rparr>
      else t)"

definition forget_dial :: "world \<Rightarrow> multiaddr \<Rightarrow> topic_inner \<Rightarrow> topic_inner" where
  "forget_dial w addr t =
     (case ip_of addr of
        None \<Rightarrow> t
      | Some a \<Rightarrow> t\<lparr>pending_dials := snd (es_remove (now w) a (pending_dials t))\<rparr>)"

definition handle_peer_connected :: "world \<Rightarrow> addressable_peer \<Rightarrow> connection_id \<Rightarrow> topic_inner \<Rightarrow> topic_inner" where
  "handle_peer_connected w p connection t =
     (let t = handle_non_pending_connects w p connection t;
          t = handle_pending_neighbours w p connection t;
          t = handle_pending_shuffle_replies w p connection t in
      fold (forget_dial w) (addresses p) t)"

definition handle_peer_disconnected :: "world \<Rightarrow> peer_id \<Rightarrow> topic_inner \<Rightarrow> topic_inner option" where
  "handle_peer_disconnected w p t =
     do {
       t \<leftarrow> move_active_to_passive w p t;
       Some (t\<lparr>pending_shuffle_replies := snd (em_remove (now w) p (pending_shuffle_replies t)),
               pending_disconnects := snd (es_remove (now w) p (pending_disconnects t))\<rparr>)
     }"

definition handle_tick :: "world \<Rightarrow> topic_inner \<Rightarrow> topic_inner option" where
  "handle_tick w t =
     (let t = t\<lparr>pending_dials := es_prune_expired (now w) (pending_dials t),
               pending_disconnects := es_prune_expired (now w) (pending_disconnects t),
               pending_joins := es_prune_expired (now w) (pending_joins t),
               pending_neighbours := es_prune_expired (now w) (pending_neighbours t),
               pending_shuffle_replies := em_prune_expired (now w) (pending_shuffle_replies t)\<rparr> in
      do {
        t \<leftarrow> (if elapsed (now w) (last_shuffle t) > shuffle_interval (network_config t)
             then initiate_shuffle w t else Some t);
        (if \<not> active_view_full t \<and> es_is_empty (pending_dials t) \<and> es_is_empty (pending_neighbours t)
         then try_stabilize_active_view w t else Some t)
      })"

section \<open>The topic\<close>

definition topic_new :: "world \<Rightarrow> topic_config \<Rightarrow> config \<Rightarrow> addressable_peer \<Rightarrow> topic_inner" where
  "topic_new w tc nc this =
     (let timeout = pending_timeout nc in
      \<lparr>t_config = tc, network_config = nc, last_shuffle = now w, this_node = this, outmsgs = [],
       cmdtx = map (\<lambda>addr. Connect addr (topic_name tc)) (bootstrap tc),
       active_peers = [], passive_peers = [],
       pending_dials = fold (\<lambda>addr s. case ip_of addr of None \<Rightarrow> s | Some a \<Rightarrow> snd (es_insert (now w) a s))
                         (bootstrap tc) (es_new timeout),
       pending_neighbours = es_new timeout, pending_joins = es_new timeout,
       pending_shuffle_replies = em_new timeout, pending_disconnects = es_new timeout\<rparr>)"

definition inject_event :: "world \<Rightarrow> topic_event \<Rightarrow> topic_inner \<Rightarrow> topic_inner option" where
  "inject_event w e t =
     (case e of
        TLocalAddressDiscovered addr \<Rightarrow> Some (handle_new_local_address addr t)
      | TPeerConnected p c \<Rightarrow> Some (handle_peer_connected w p c t)
      | TPeerDisconnected p c \<Rightarrow> handle_peer_disconnected w p t
      | TMessageReceived p msg c \<Rightarrow> handle_message_received w p msg c t
      | TTick \<Rightarrow> handle_tick w t)"

definition gossip :: "world \<Rightarrow> bytes \<Rightarrow> topic_inner \<Rightarrow> (topic_error + unit) \<times> topic_inner" where
  "gossip w content t =
     (if length content > max_transmit_size (network_config t) then (Inl MessageTooLarge, t)
      else if active_peers t = [] then (Inl NoConnectedPeers, t)
      else (Inr (), send_active w (\<lambda>_. True) (Gossip content) t))"

text \<open>The stream of received content: \<open>poll_next\<close> takes the oldest, \<open>None\<close> when it is pending.\<close>

definition topic_poll_next :: "topic_inner \<Rightarrow> (bytes \<times> topic_inner) option" where
  "topic_poll_next t = (case outmsgs t of [] \<Rightarrow> None | m # ms \<Rightarrow> Some (m, t\<lparr>outmsgs := ms\<rparr>))"

section \<open>Preservation\<close>

text \<open>What a handler may do to a topic is a preorder on its states; the locale carries a preorder over
  the loops of the handlers.\<close>

locale state_preorder =
  fixes rel :: "'s \<Rightarrow> 's \<Rightarrow> bool"
  assumes rel_refl: "rel t t"
    and rel_trans: "rel t u \<Longrightarrow> rel u v \<Longrightarrow> rel t v"
begin

lemma rel_fold:
  assumes "\<And>x u. x \<in> set xs \<Longrightarrow> rel t u \<Longrightarrow> rel u (f x u)"
  shows "rel t (fold f xs t)"
proof -
  have "rel t (fold f xs u)" if "rel t u" for u
    using assms that
  proof (induction xs arbitrary: u)
    case (Cons x xs)
    have "rel t (f x u)" using Cons.prems(1) [of x u] Cons.prems(2) rel_trans by auto
    moreover have "\<And>y v. y \<in> set xs \<Longrightarrow> rel t v \<Longrightarrow> rel v (f y v)" using Cons.prems(1) by simp
    ultimately show ?case using Cons.IH by simp
  qed simp
  then show ?thesis using rel_refl by blast
qed

end

text \<open>A message carries its topic's name and its hop count stays below the length of a random walk.\<close>

fun hop_ok :: "config \<Rightarrow> action \<Rightarrow> bool" where
  "hop_ok nc (ForwardJoin h _) = (unat h \<le> max 1 (random_walk_length nc))"
| "hop_ok nc (Shuffle h _ _) = (unat h \<le> max 1 (random_walk_length nc))"
| "hop_ok nc _ = True"

fun command_ok :: "topic_config \<Rightarrow> config \<Rightarrow> command \<Rightarrow> bool" where
  "command_ok tc nc (Connect _ n) = (n = topic_name tc)"
| "command_ok tc nc (SendMessage _ _ msg) = (msg_topic msg = topic_name tc \<and> hop_ok nc (msg_action msg))"
| "command_ok tc nc (InjectEvent _) = False"
| "command_ok tc nc _ = True"

definition views_ok :: "topic_inner \<Rightarrow> bool" where
  "views_ok t \<longleftrightarrow> hm_wf (active_peers t) \<and> hm_wf (passive_peers t)
     \<and> length (passive_peers t) \<le> max_passive_view_size (network_config t)
     \<and> peer_id (this_node t) \<notin> fst ` set (active_peers t)"

definition topic_inv :: "topic_inner \<Rightarrow> bool" where
  "topic_inv t \<longleftrightarrow> views_ok t \<and> list_all (command_ok (t_config t) (network_config t)) (cmdtx t)"

text \<open>\<open>quiet\<close>: the views stay, commands are only added; \<open>evolves\<close>: the invariant is kept.\<close>

definition quiet :: "topic_inner \<Rightarrow> topic_inner \<Rightarrow> bool" where
  "quiet t u \<longleftrightarrow> t_config u = t_config t \<and> network_config u = network_config t \<and> this_node u = this_node t
     \<and> active_peers u = active_peers t \<and> passive_peers u = passive_peers t \<and> outmsgs u = outmsgs t
     \<and> (\<exists>cs. cmdtx u = cmdtx t @ cs \<and> list_all (command_ok (t_config t) (network_config t)) cs)"

definition evolves :: "topic_inner \<Rightarrow> topic_inner \<Rightarrow> bool" where
  "evolves t u \<longleftrightarrow> t_config u = t_config t \<and> network_config u = network_config t
     \<and> peer_id (this_node u) = peer_id (this_node t) \<and> (topic_inv t \<longrightarrow> topic_inv u)"

interpretation quiet: state_preorder quiet
proof
  show "quiet t t" for t by (simp add: quiet_def)
  show "quiet t u \<Longrightarrow> quiet u v \<Longrightarrow> quiet t v" for t u v by (fastforce simp: quiet_def)
qed

interpretation evolves: state_preorder evolves
  by unfold_locales (auto simp: evolves_def)

lemma quiet_evolves: "quiet t u \<Longrightarrow> evolves t u"
  by (auto simp: quiet_def evolves_def topic_inv_def views_ok_def)

lemma quiet_fields:
  assumes "quiet t u"
  shows "t_config u = t_config t" "network_config u = network_config t" "this_node u = this_node t"
    "active_peers u = active_peers t" "passive_peers u = passive_peers t" "outmsgs u = outmsgs t"
  using assms by (simp_all add: quiet_def)

lemma quiet_tests:
  assumes "quiet t u"
  shows "is_active u p = is_active t p" "active_view_full u = active_view_full t"
    "active_view_starved u = active_view_starved t" "active_view_overconnected u = active_view_overconnected t"
  using quiet_fields [OF assms]
  by (simp_all add: is_active_def active_view_full_def active_view_starved_def active_view_overconnected_def)

lemma quiet_send_cmd: "command_ok (t_config t) (network_config t) c \<Longrightarrow> quiet t (send_cmd c t)"
  by (simp add: quiet_def send_cmd_def)

lemma quiet_send_action: "hop_ok (network_config t) act \<Longrightarrow> quiet t (send_action p c act t)"
  by (simp add: send_action_def send_message_def quiet_send_cmd message_new_def)

lemma quiet_pending:
  "quiet t (t\<lparr>pending_dials := d\<rparr>)" "quiet t (t\<lparr>pending_neighbours := n\<rparr>)" "quiet t (t\<lparr>pending_joins := j\<rparr>)"
  "quiet t (t\<lparr>pending_shuffle_replies := r\<rparr>)" "quiet t (t\<lparr>pending_disconnects := dc\<rparr>)" "quiet t (t\<lparr>last_shuffle := l\<rparr>)"
  by (simp_all add: quiet_def)

lemma quiet_disconnect: "quiet t (disconnect w p c t)"
  unfolding disconnect_def
  by (auto simp: Let_def split_beta intro!: quiet_pending quiet.rel_trans [OF quiet_pending(5) quiet_send_cmd])

lemma quiet_dial_addr: "quiet t (dial_addr w a t)"
  unfolding dial_addr_def
  by (auto simp: Let_def split_beta quiet.rel_refl split: option.splits
      intro!: quiet_pending quiet.rel_trans [OF quiet_pending(1) quiet_send_cmd])

lemma quiet_dials: "quiet t (fold (dial_addr w) addrs t)"
  by (rule quiet.rel_fold) (rule quiet_dial_addr)

lemma send_action_simps [simp]:
  "active_peers (send_action p c act t) = active_peers t" "t_config (send_action p c act t) = t_config t"
  "cmdtx (send_action p c act t) = cmdtx t @ [SendMessage p c (message_new (topic_name (t_config t)) act)]"
  by (simp_all add: send_action_def send_message_def send_cmd_def)

lemma send_action_eq:
  "send_action p c act t = t\<lparr>cmdtx := cmdtx t @ [SendMessage p c (message_new (topic_name (t_config t)) act)]\<rparr>"
  by (simp add: send_action_def send_message_def send_cmd_def)

lemma send_active_eq:
  "send_active w test act t = t\<lparr>cmdtx := cmdtx t @
     map (\<lambda>(p, c). SendMessage p c (message_new (topic_name (t_config t)) act)) (filter (\<lambda>(p, c). test p) (active_iter w t))\<rparr>"
proof -
  have "fold (\<lambda>(p, c) t. if test p then send_action p c act t else t) pcs t = t\<lparr>cmdtx := cmdtx t @
     map (\<lambda>(p, c). SendMessage p c (message_new (topic_name (t_config t)) act)) (filter (\<lambda>(p, c). test p) pcs)\<rparr>" for pcs t
    by (induction pcs arbitrary: t) (auto simp: send_action_eq)
  then show ?thesis by (simp add: send_active_def)
qed

lemma quiet_send_active: "hop_ok (network_config t) act \<Longrightarrow> quiet t (send_active w test act t)"
  by (auto simp: quiet_def send_active_eq list_all_iff message_new_def)

lemma active_iter_set:
  assumes "world_ok w"
  shows "set (active_iter w t) = {(p, c). \<exists>addrs. map_of (active_peers t) p = Some (c, addrs)}"
proof -
  have "set (iter_order w (map fst (active_peers t))) = fst ` set (active_peers t)"
    using assms unfolding world_ok_def by (metis list.set_map mset_eq_setD)
  then show ?thesis
    by (auto simp: active_iter_def split: option.splits dest!: sym [of "Some _"]) (metis fst_conv map_of_SomeD)
qed

lemma quiet_try_neighbouring: "quiet t (snd (try_neighbouring_with w p t))"
  unfolding try_neighbouring_with_def
  by (auto simp: Let_def split_beta quiet.rel_refl
      intro!: quiet_pending quiet.rel_trans [OF quiet_pending(2) quiet_dials])

lemma quiet_reply_to_shuffle: "quiet t (reply_to_shuffle w orig reply t)"
  unfolding reply_to_shuffle_def
  by (auto split: option.splits intro!: quiet_send_action quiet.rel_trans [OF quiet_pending(4) quiet_dials])

section \<open>No handler panics\<close>

definition safe :: "topic_inner \<Rightarrow> topic_inner option \<Rightarrow> bool" where
  "safe t r \<longleftrightarrow> (topic_inv t \<longrightarrow> (\<exists>u. r = Some u \<and> evolves t u))"

lemma safe_Some: "evolves t u \<Longrightarrow> safe t (Some u)"
  by (simp add: safe_def)

lemma safe_bind:
  assumes "safe t r" "\<And>u. r = Some u \<Longrightarrow> evolves t u \<Longrightarrow> topic_inv u \<Longrightarrow> safe u (f u)"
  shows "safe t (Option.bind r f)"
proof (cases "topic_inv t")
  case True
  then obtain u where u: "r = Some u" "evolves t u" "topic_inv u" using assms(1) by (auto simp: safe_def evolves_def)
  then obtain v where "f u = Some v" "evolves u v" using assms(2) by (auto simp: safe_def)
  with u show ?thesis by (auto simp: safe_def intro: evolves.rel_trans)
qed (simp add: safe_def)

lemma safe_after: "evolves t u \<Longrightarrow> safe u r \<Longrightarrow> safe t r"
  by (auto simp: safe_def evolves_def)

lemmas safe_quiet = safe_after [OF quiet_evolves]

lemma pick_ok:
  assumes "world_ok w" "xs \<noteq> []"
  obtains p where "pick w s xs = Some p" "p \<in> set xs"
  using assms by (simp add: pick_def world_ok_def)

lemma rng_multiple_ok:
  assumes "world_ok w"
  shows "set (rng_multiple w s n xs) \<subseteq> set xs" "length (rng_multiple w s n xs) \<le> n"
proof -
  have sub: "mset (rng_multiple w s n xs) \<subseteq># mset xs" using assms by (simp add: world_ok_def)
  show "set (rng_multiple w s n xs) \<subseteq> set xs" using set_mset_mono [OF sub] by simp
  show "length (rng_multiple w s n xs) \<le> n" using assms by (simp add: world_ok_def)
qed

lemma evolves_passive:
  assumes "hm_wf (passive_peers t) \<Longrightarrow> hm_wf ps"
    "length (passive_peers t) \<le> max_passive_view_size (network_config t) \<Longrightarrow> hm_wf (passive_peers t) \<Longrightarrow>
     length ps \<le> max_passive_view_size (network_config t)"
  shows "evolves t (t\<lparr>passive_peers := ps\<rparr>)"
  using assms by (simp add: evolves_def topic_inv_def views_ok_def)

lemma evolves_remove_passive: "evolves t (remove_from_passive_view p t)"
  unfolding remove_from_passive_view_def
  by (rule evolves_passive) (auto intro: hm_wf_delete order_trans [OF length_delete_le])

lemma evolves_remove_active: "evolves t (t\<lparr>active_peers := AList.delete p (active_peers t)\<rparr>)"
  by (auto simp: evolves_def topic_inv_def views_ok_def intro: hm_wf_delete)

lemma evolves_ban: "evolves t (ban p t)"
  unfolding ban_def
  by (rule evolves.rel_trans [OF evolves.rel_trans [OF evolves_remove_active evolves_remove_passive] quiet_evolves])
    (rule quiet_send_cmd, simp)

lemma evolves_add_to_active: "evolves t (add_to_active_view p c t)"
proof -
  have "evolves t (t\<lparr>active_peers := AList.update (peer_id p) (c, addresses p) (active_peers t)\<rparr>)"
    if "peer_id p \<noteq> peer_id (this_node t)"
    using that by (auto simp: evolves_def topic_inv_def views_ok_def intro: hm_wf_update)
  then show ?thesis
    by (auto simp: add_to_active_view_def evolves.rel_refl intro: evolves.rel_trans evolves_remove_passive)
qed

lemma safe_add_to_passive:
  assumes "world_ok w"
  shows "safe t (add_to_passive_view w s p t)"
proof -
  define ps where "ps = AList.update (peer_id p) (addresses p) (passive_peers t)"
  define u where "u = t\<lparr>passive_peers := ps\<rparr>"
  have ev: "evolves t u" if "peer_id p \<in> fst ` set (passive_peers t) \<or> length ps \<le> max_passive_view_size (network_config t)"
    unfolding u_def by (rule evolves_passive) (use that in \<open>auto simp: ps_def length_update hm_wf_update\<close>)
  have add: "add_to_passive_view w s p t =
      (if map_of (passive_peers t) (peer_id p) = None \<and> length ps > max_passive_view_size (network_config t)
       then Option.bind (pick w s (map fst ps)) (\<lambda>r. Some (remove_from_passive_view r u)) else Some u)"
    by (simp add: add_to_passive_view_def ps_def u_def Let_def)
  have ne: "ps \<noteq> []" by (simp add: ps_def)
  obtain r where r: "pick w s (map fst ps) = Some r" "r \<in> set (map fst ps)"
    using pick_ok [OF assms, of "map fst ps" s] ne by auto
  have rm: "evolves t (remove_from_passive_view r u)" if new: "peer_id p \<notin> fst ` set (passive_peers t)"
  proof -
    have "remove_from_passive_view r u = t\<lparr>passive_peers := AList.delete r ps\<rparr>"
      by (simp add: remove_from_passive_view_def u_def)
    moreover have "Suc (length (AList.delete r ps)) = length ps" if "hm_wf (passive_peers t)"
      using that r(2) by (intro length_delete) (auto simp: ps_def hm_wf_update)
    moreover have "length ps = Suc (length (passive_peers t))" using new by (simp add: ps_def length_update)
    ultimately show ?thesis by (auto intro!: evolves_passive hm_wf_delete simp: ps_def hm_wf_update)
  qed
  show ?thesis
  proof (cases "map_of (passive_peers t) (peer_id p) = None \<and> length ps > max_passive_view_size (network_config t)")
    case True
    then show ?thesis using rm r(1) unfolding add by (auto simp: map_of_eq_None_iff intro: safe_Some)
  next
    case False
    then have "peer_id p \<in> fst ` set (passive_peers t) \<or> length ps \<le> max_passive_view_size (network_config t)"
      by (auto simp: map_of_eq_None_iff)
    with False ev show ?thesis unfolding add by (auto intro: safe_Some)
  qed
qed

lemma safe_if: "(P \<Longrightarrow> safe t a) \<Longrightarrow> (\<not> P \<Longrightarrow> safe t b) \<Longrightarrow> safe t (if P then a else b)"
  by simp

lemmas safe_stay = safe_Some [OF evolves.rel_refl]
lemmas safe_quietly = safe_Some [OF quiet_evolves]

lemma safe_move_active:
  assumes "world_ok w"
  shows "safe t (move_active_to_passive w p t)"
proof (cases "map_of (active_peers t) p")
  case None
  then show ?thesis by (simp add: move_active_to_passive_def safe_stay)
next
  case (Some v)
  then show ?thesis
    using safe_after [OF evolves_remove_active safe_add_to_passive [OF assms]]
    by (cases v) (simp add: move_active_to_passive_def)
qed

text \<open>A draw from the active view that is then looked up there.\<close>

lemma pick_active:
  assumes "world_ok w" "active_peers t \<noteq> []"
  obtains p c addrs where "pick w s (map fst (active_peers t)) = Some p" "map_of (active_peers t) p = Some (c, addrs)"
proof -
  obtain p where p: "pick w s (map fst (active_peers t)) = Some p" "p \<in> fst ` set (active_peers t)"
    using pick_ok [OF assms(1), of "map fst (active_peers t)" s] assms(2) by auto
  then obtain v where "map_of (active_peers t) p = Some v" by (auto simp: keys_map_of)
  with p(1) that show ?thesis by (cases v) auto
qed

lemma safe_disconnect_random:
  assumes "world_ok w" "active_peers t \<noteq> []"
  shows "safe t (Option.bind (pick w s (map fst (active_peers t)))
    (\<lambda>p. Option.bind (map_of (active_peers t) p) (\<lambda>(c, _). Some (disconnect w p c t))))"
proof -
  obtain p c addrs where "pick w s (map fst (active_peers t)) = Some p" "map_of (active_peers t) p = Some (c, addrs)"
    using pick_active [OF assms] .
  then show ?thesis by (simp add: safe_Some quiet_evolves quiet_disconnect)
qed

lemma safe_stabilize:
  assumes "world_ok w"
  shows "safe t (try_stabilize_active_view w t)"
proof -
  have "safe t (Option.bind (map_of (passive_peers t) p)
      (\<lambda>addrs. Some (snd (try_neighbouring_with w \<lparr>peer_id = p, addresses = addrs\<rparr> t))))"
    if "pick w StabilizeWith (map fst (passive_peers t)) = Some p" for p
  proof -
    have "p \<in> fst ` set (passive_peers t)"
      using that pick_ok [OF assms, of "map fst (passive_peers t)" StabilizeWith] by (auto simp: pick_def split: if_splits)
    then obtain addrs where "map_of (passive_peers t) p = Some addrs" by (auto simp: keys_map_of)
    then show ?thesis by (simp add: safe_Some quiet_evolves quiet_try_neighbouring)
  qed
  moreover have "active_view_overconnected t \<Longrightarrow> active_peers t \<noteq> []" by (auto simp: active_view_overconnected_def)
  ultimately show ?thesis
    unfolding try_stabilize_active_view_def
    by (auto split: option.splits intro: safe_Some quiet_evolves quiet_dials quiet.rel_refl safe_disconnect_random [OF assms])
qed

lemma safe_join:
  assumes "world_ok w"
  shows "safe t (consume_join w sender node c t)"
proof -
  define t1 where "t1 = disconnect w sender c (send_active w (\<lambda>_. True) (ForwardJoin 1 node) t)"
  define t2 where "t2 = (if \<not> active_view_full t1 then snd (try_neighbouring_with w node t1) else t1)"
  have "quiet t t1" unfolding t1_def by (rule quiet.rel_trans [OF quiet_send_active quiet_disconnect]) simp
  moreover have "quiet t1 t2" unfolding t2_def by (simp add: quiet_try_neighbouring quiet.rel_refl)
  ultimately have "evolves t t2" by (blast intro: quiet_evolves quiet.rel_trans)
  then have "safe t (add_to_passive_view w EvictPassive node t2)" by (rule safe_after) (rule safe_add_to_passive [OF assms])
  then show ?thesis
    unfolding consume_join_def Let_def t2_def t1_def by (intro safe_if safe_Some evolves_ban evolves.rel_refl)
qed

lemma safe_free_slot:
  assumes "world_ok w" "active_peers t \<noteq> []"
  shows "safe t (free_last_hop_slot w t)"
proof -
  obtain p c addrs where "pick w MakeSpace (map fst (active_peers t)) = Some p" "map_of (active_peers t) p = Some (c, addrs)"
    using pick_active [OF assms] .
  then show ?thesis
    by (simp add: free_last_hop_slot_def safe_quiet [OF quiet_disconnect safe_add_to_passive [OF assms(1)]])
qed

lemma hop_step: "unat h < random_walk_length nc \<Longrightarrow> random_walk_length nc < 2 ^ 16 \<Longrightarrow> unat (h + 1 :: u16) = unat h + 1"
  by (subst unat_add_lem [THEN iffD1]) auto

lemma is_active_ne: "is_active t p \<Longrightarrow> active_peers t \<noteq> []"
  by (auto simp: is_active_def)

lemma add_to_passive_active: "add_to_passive_view w s p t = Some u \<Longrightarrow> active_peers u = active_peers t"
  by (auto simp: add_to_passive_view_def remove_from_passive_view_def Let_def split: if_splits bind_splits)

lemma safe_accept_forward_join:
  assumes "world_ok w" "random_walk_length (network_config t) < 2 ^ 16" "active_peers t \<noteq> []"
  shows "safe t (accept_forward_join w sender h node t)"
proof -
  have slot: "safe t (Option.bind (if active_view_full t then free_last_hop_slot w t else Some t)
                   (\<lambda>t. Some (snd (try_neighbouring_with w node t))))"
    by (rule safe_bind) (auto intro: safe_free_slot [OF assms(1,3)] safe_stay safe_quietly quiet_try_neighbouring)
  define v where "v = (if \<not> active_view_full t then snd (try_neighbouring_with w node t) else t)"
  have v: "quiet t v" by (simp add: v_def quiet_try_neighbouring quiet.rel_refl)
  have "quiet t (send_active w (\<lambda>p. p \<noteq> sender) (ForwardJoin (h + 1) node) v)"
    if "\<not> unat h \<ge> random_walk_length (network_config t)"
    using that assms(2) hop_step [of h "network_config t"] quiet_fields(2) [OF v]
    by (intro quiet.rel_trans [OF v quiet_send_active]) simp
  then show ?thesis
    unfolding accept_forward_join_def Let_def v_def [symmetric] by (intro safe_if slot safe_stay safe_quietly)
qed

lemma safe_forward_join:
  assumes "world_ok w" "random_walk_length (network_config t) < 2 ^ 16"
  shows "safe t (consume_forward_join w sender h node t)"
  unfolding consume_forward_join_def
  by (intro safe_if safe_stay safe_bind [OF safe_add_to_passive [OF assms(1)]] safe_accept_forward_join assms(1))
    (use assms(2) in \<open>auto simp: evolves_def is_active_def dest!: add_to_passive_active\<close>)

lemma safe_neighbor:
  assumes "world_ok w" "0 < optimal_active_view_size (network_config t)"
  shows "safe t (consume_neighbor w sender p high c t)"
proof -
  have "active_view_full t \<Longrightarrow> active_peers t \<noteq> []" using assms(2) by (auto simp: active_view_full_def)
  then have slot: "safe t (if active_view_full t \<and> high then Option.bind (pick w HighPriority (map fst (active_peers t)))
    (\<lambda>p. Option.bind (map_of (active_peers t) p) (\<lambda>(c, _). Some (disconnect w p c t))) else Some t)"
    by (auto intro: safe_disconnect_random [OF assms(1)] safe_Some evolves.rel_refl)
  show ?thesis
    unfolding consume_neighbor_def
    by (intro safe_if safe_bind [OF slot] safe_stay safe_Some [OF evolves_ban] safe_Some [OF evolves_add_to_active]
        safe_quietly [OF quiet_disconnect])
qed

lemma with_addrs_known:
  assumes "p \<in> set (local_peer_ids t) \<union> peer_id ` set peers"
  obtains addrs where "with_addrs t peers p = Some (p, addrs)"
proof (cases "collect_peer_addrs t peers p")
  case None
  then have "map_of (passive_peers t) p = None" "map_of (active_peers t) p = None" "peer_set_get peers (peer_from_id p) = None"
    by (auto simp: collect_peer_addrs_def split: option.splits prod.splits)
  then have False using assms by (auto simp: local_peer_ids_def map_of_eq_None_iff peer_set_get_None)
  then show ?thesis ..
next
  case (Some addrs)
  with that show ?thesis by (simp add: with_addrs_def)
qed

lemma opt_list_keys:
  assumes "\<And>x. x \<in> set xs \<Longrightarrow> \<exists>v. f x = Some (x, v)"
  obtains kvs where "opt_list f xs = Some kvs" "map fst kvs = xs"
proof -
  have "opt_list f xs \<noteq> None" by (auto simp: opt_list_None_iff dest!: assms)
  then obtain kvs where kvs: "opt_list f xs = Some kvs" by blast
  have "map fst kvs = xs"
    using kvs assms by (induction xs arbitrary: kvs) (auto split: option.splits, fastforce+)
  with kvs that show ?thesis by blast
qed

lemma new_passive:
  assumes "world_ok w" "\<And>x. x \<in> set xs \<Longrightarrow> \<exists>v. f x = Some (x, v)" "n = max_passive_view_size (network_config t)"
  obtains kvs where "opt_list f (rng_multiple w s n xs) = Some kvs" "evolves t (t\<lparr>passive_peers := hm_collect kvs\<rparr>)"
    "fst ` set (hm_collect kvs) \<subseteq> set xs"
proof -
  have "\<And>x. x \<in> set (rng_multiple w s n xs) \<Longrightarrow> \<exists>v. f x = Some (x, v)"
    using assms(2) rng_multiple_ok(1) [OF assms(1)] by blast
  then obtain kvs where kvs: "opt_list f (rng_multiple w s n xs) = Some kvs" "map fst kvs = rng_multiple w s n xs"
    by (rule opt_list_keys)
  then have "length kvs \<le> n" using rng_multiple_ok(2) [OF assms(1)] by (metis length_map)
  then have "length (hm_collect kvs) \<le> n" using hm_collect_length order_trans by blast
  then have "evolves t (t\<lparr>passive_peers := hm_collect kvs\<rparr>)"
    using assms(3) by (intro evolves_passive) (auto intro: hm_collect_wf)
  moreover have "fst ` set (hm_collect kvs) \<subseteq> set xs"
    using kvs(2) rng_multiple_ok(1) [OF assms(1), of s n xs] by (metis hm_collect_keys list.set_map)
  ultimately show ?thesis using kvs(1) that by blast
qed

lemma safe_shuffle:
  assumes "world_ok w" "random_walk_length (network_config t) < 2 ^ 16"
  shows "safe t (consume_shuffle w sender h orig peers t)"
proof -
  define recv where "recv = remdups (rng_multiple w TrimShuffle (shuffle_sample_size (network_config t)) (map peer_id peers))"
  define new where "new = filter (\<lambda>p. p \<notin> set (local_peer_ids t)) recv"
  have recv: "set recv \<subseteq> peer_id ` set peers"
    using rng_multiple_ok(1) [OF assms(1), of TrimShuffle _ "map peer_id peers"] by (simp add: recv_def)
  have known: "\<exists>v. with_addrs t peers p = Some (p, v)" if "p \<in> set (local_peer_ids t @ new)" for p
    using that recv with_addrs_known [of p t peers] by (auto simp: new_def)
  obtain reply where reply: "opt_list (with_addrs t peers) (filter (\<lambda>p. p \<notin> set recv) (local_peer_ids t)) = Some reply"
    using opt_list_keys [of "filter (\<lambda>p. p \<notin> set recv) (local_peer_ids t)" "with_addrs t peers"] known by auto
  obtain kvs where kvs: "opt_list (with_addrs t peers) (rng_multiple w NewPassive (max_passive_view_size (network_config t)) (local_peer_ids t @ new)) = Some kvs"
    "evolves t (t\<lparr>passive_peers := hm_collect kvs\<rparr>)"
    using new_passive [OF assms(1) known refl] by metis
  define u where "u = t\<lparr>passive_peers := hm_collect kvs\<rparr>"
  define v where "v = reply_to_shuffle w orig (map (\<lambda>(p, addrs). \<lparr>peer_id = p, addresses = addrs\<rparr>) reply) u"
  have v: "quiet u v" unfolding v_def by (rule quiet_reply_to_shuffle)
  then have nc: "network_config v = network_config t" by (simp add: quiet_def u_def)
  define r where "r = (if unat h < random_walk_length (network_config v)
                then send_active w (\<lambda>p. p \<noteq> sender) (Shuffle (h + 1) orig peers) v else v)"
  have "quiet v r"
    using assms(2) nc hop_step [of h "network_config t"] by (auto simp: r_def intro!: quiet_send_active quiet.rel_refl)
  with v kvs(2) have "evolves t r" unfolding u_def by (blast intro: evolves.rel_trans quiet_evolves)
  moreover have "is_active t sender \<Longrightarrow> consume_shuffle w sender h orig peers t = Some r"
    using reply kvs(1)
    by (simp add: consume_shuffle_def recv_def [symmetric] new_def [symmetric] u_def [symmetric] v_def [symmetric]
        Let_def r_def)
  ultimately show ?thesis by (cases "is_active t sender") (simp_all add: safe_Some, simp add: consume_shuffle_def safe_stay)
qed

lemma shuffle_reply_spec:
  assumes "world_ok w"
  obtains u v where "consume_shuffle_reply w sender peers c t = Some v" "evolves t u" "quiet u v"
    "active_peers u = active_peers t" "fst ` set (passive_peers u) \<subseteq> fst ` set (passive_peers t)"
proof -
  let ?new = "filter (\<lambda>p. p \<notin> peer_id ` set peers) (map fst (passive_peers t))"
  have known: "\<exists>v. reply_addrs t peers p = Some (p, v)" if "p \<in> set (map fst (passive_peers t) @ ?new)" for p
    using that by (fastforce simp: reply_addrs_def keys_map_of split: option.splits)
  obtain kvs where kvs: "opt_list (reply_addrs t peers) (rng_multiple w NewPassive (max_passive_view_size (network_config t))
      (map fst (passive_peers t) @ ?new)) = Some kvs"
    "evolves t (t\<lparr>passive_peers := hm_collect kvs\<rparr>)" "fst ` set (hm_collect kvs) \<subseteq> set (map fst (passive_peers t) @ ?new)"
    using new_passive [OF assms known refl] by metis
  define u where "u = t\<lparr>passive_peers := hm_collect kvs\<rparr>"
  define v where "v = (if \<not> is_active u sender then disconnect w sender c u else u)"
  have "quiet u v" by (simp add: v_def quiet_disconnect quiet.rel_refl)
  moreover have "consume_shuffle_reply w sender peers c t = Some v"
    using kvs(1) by (simp add: consume_shuffle_reply_def u_def v_def Let_def)
  moreover have "evolves t u" using kvs(2) by (simp add: u_def)
  moreover have "active_peers u = active_peers t" "fst ` set (passive_peers u) \<subseteq> fst ` set (passive_peers t)"
    using kvs(3) by (auto simp: u_def)
  ultimately show ?thesis using that by blast
qed

lemma safe_shuffle_reply: "world_ok w \<Longrightarrow> safe t (consume_shuffle_reply w sender peers c t)"
  by (rule shuffle_reply_spec [of w sender peers c t])
    (simp_all add: safe_Some [OF evolves.rel_trans [OF _ quiet_evolves]])

lemma evolves_outmsgs: "evolves t (t\<lparr>outmsgs := ms\<rparr>)"
  by (simp add: evolves_def topic_inv_def views_ok_def)

lemma evolves_gossip: "evolves t (consume_gossip w sender msg c t)"
proof -
  have "quiet t (send_active w (\<lambda>p. p \<noteq> sender) (Gossip msg) t)" by (rule quiet_send_active) simp
  from evolves.rel_trans [OF quiet_evolves [OF this] evolves_outmsgs] show ?thesis
    by (simp add: consume_gossip_def Let_def quiet_evolves quiet_disconnect)
qed

lemma opt_list_sample:
  assumes "world_ok w" "\<And>x. x \<in> set xs \<Longrightarrow> f x \<noteq> None"
  shows "\<exists>ys. opt_list f (rng_multiple w s n xs) = Some ys"
proof -
  have "\<not> (\<exists>x \<in> set (rng_multiple w s n xs). f x = None)"
    using assms(2) rng_multiple_ok(1) [OF assms(1), of s n xs] by blast
  then have "opt_list f (rng_multiple w s n xs) \<noteq> None" by (simp only: opt_list_None_iff not_False_eq_True)
  then show ?thesis by blast
qed

lemma safe_initiate_shuffle:
  assumes "world_ok w"
  shows "safe t (initiate_shuffle w t)"
proof -
  define u where "u = t\<lparr>last_shuffle := now w\<rparr>"
  let ?ids = "map fst (active_peers u) @ map fst (passive_peers u)"
  let ?f = "\<lambda>q. map_option (\<lambda>addrs. \<lparr>peer_id = q, addresses = addrs\<rparr>)
     (case map_of (active_peers u) q of Some (_, addrs) \<Rightarrow> Some addrs | None \<Rightarrow> map_of (passive_peers u) q)"
  have known: "?f q \<noteq> None" if "q \<in> set ?ids" for q
  proof (cases "map_of (active_peers u) q")
    case None
    then have "q \<in> fst ` set (passive_peers u)" using that by (auto simp: map_of_eq_None_iff)
    with None show ?thesis by (auto simp: keys_map_of)
  qed auto
  from opt_list_sample [where f = ?f, OF assms known] obtain peers where
    peers: "opt_list ?f (rng_multiple w ShuffleSample (shuffle_sample_size (network_config u)) ?ids) = Some peers" ..
  have sh: "safe u (Option.bind (map_of (active_peers u) p) (\<lambda>(c, _).
      Some (send_action p c (Shuffle 1 (this_node u) (peer_set_collect peers)) u)))"
    if picked: "pick w ShuffleTarget (map fst (active_peers u)) = Some p" for p
  proof -
    have "active_peers u \<noteq> []" using picked by (auto simp: pick_def)
    from pick_active [OF assms this, of ShuffleTarget] obtain c addrs where "map_of (active_peers u) p = Some (c, addrs)"
      using picked by (metis option.inject)
    then show ?thesis by (simp add: safe_quietly quiet_send_action)
  qed
  have "initiate_shuffle w t = (if 1 - toss w > shuffle_probability (network_config u) then Some u
      else case pick w ShuffleTarget (map fst (active_peers u)) of None \<Rightarrow> Some u
        | Some p \<Rightarrow> Option.bind (map_of (active_peers u) p) (\<lambda>(c, _).
            Some (send_action p c (Shuffle 1 (this_node u) (peer_set_collect peers)) u)))"
    using peers unfolding initiate_shuffle_def Let_def u_def [symmetric] by (simp cong: option.case_cong)
  moreover have "safe u \<dots>" using sh by (auto simp: safe_stay split: option.splits)
  ultimately have "safe u (initiate_shuffle w t)" by (simp only:)
  then show ?thesis by (rule safe_quiet [rotated]) (simp add: u_def quiet_pending)
qed

lemma evolves_local_address: "evolves t (handle_new_local_address addr t)"
  by (simp add: evolves_def handle_new_local_address_def topic_inv_def views_ok_def)

lemma quiet_non_pending: "quiet t (handle_non_pending_connects w p c t)"
  unfolding handle_non_pending_connects_def Let_def
  by (auto intro: quiet.rel_refl quiet.rel_trans [OF quiet_send_action quiet_pending(3)])

lemma evolves_pending_neighbours: "evolves t (handle_pending_neighbours w p c t)"
  unfolding handle_pending_neighbours_def Let_def split_beta
  by (auto intro!: quiet_evolves quiet_pending
      evolves.rel_trans [OF quiet_evolves [OF quiet.rel_trans [OF quiet_pending(2) quiet_send_action]] evolves_add_to_active])

lemma quiet_pending_replies: "quiet t (handle_pending_shuffle_replies w p c t)"
  unfolding handle_pending_shuffle_replies_def Let_def split_beta
  by (auto split: option.splits intro!: quiet_pending quiet.rel_trans [OF quiet_pending(4) quiet_send_action]
      quiet.rel_trans [OF quiet.rel_trans [OF quiet_pending(4) quiet_send_action] quiet_disconnect])

lemma quiet_forget_dials: "quiet t (fold (forget_dial w) addrs t)"
  by (rule quiet.rel_fold) (auto simp: forget_dial_def quiet.rel_refl quiet_pending split: option.splits)

lemma evolves_peer_connected: "evolves t (handle_peer_connected w p c t)"
  unfolding handle_peer_connected_def Let_def
  by (rule evolves.rel_trans [OF evolves.rel_trans [OF evolves.rel_trans [OF quiet_evolves [OF quiet_non_pending]
        evolves_pending_neighbours] quiet_evolves [OF quiet_pending_replies]] quiet_evolves [OF quiet_forget_dials]])

lemma safe_peer_disconnected: "world_ok w \<Longrightarrow> safe t (handle_peer_disconnected w p t)"
  unfolding handle_peer_disconnected_def
  by (rule safe_bind [OF safe_move_active], assumption)
    (simp add: safe_quietly quiet.rel_trans [OF quiet_pending(4) quiet_pending(5)])

definition pruned :: "world \<Rightarrow> topic_inner \<Rightarrow> topic_inner" where
  "pruned w t = t\<lparr>pending_dials := es_prune_expired (now w) (pending_dials t),
       pending_disconnects := es_prune_expired (now w) (pending_disconnects t),
       pending_joins := es_prune_expired (now w) (pending_joins t),
       pending_neighbours := es_prune_expired (now w) (pending_neighbours t),
       pending_shuffle_replies := em_prune_expired (now w) (pending_shuffle_replies t)\<rparr>"

lemma quiet_pruned: "quiet t (pruned w t)"
  by (simp add: pruned_def quiet_def)

lemma handle_tick_eq:
  "handle_tick w t = Option.bind
     (if elapsed (now w) (last_shuffle t) > shuffle_interval (network_config t) then initiate_shuffle w (pruned w t) else Some (pruned w t))
     (\<lambda>t. if \<not> active_view_full t \<and> es_is_empty (pending_dials t) \<and> es_is_empty (pending_neighbours t)
          then try_stabilize_active_view w t else Some t)"
  by (simp add: handle_tick_def pruned_def Let_def)

lemma safe_tick:
  assumes "world_ok w"
  shows "safe t (handle_tick w t)"
proof -
  have "safe (pruned w t) (if elapsed (now w) (last_shuffle t) > shuffle_interval (network_config t)
      then initiate_shuffle w (pruned w t) else Some (pruned w t))"
    by (intro safe_if safe_stay safe_initiate_shuffle assms)
  note first = safe_quiet [OF quiet_pruned this]
  show ?thesis
    unfolding handle_tick_eq by (intro safe_bind [OF first] safe_if safe_stay safe_stabilize assms)
qed

text \<open>The events of a run, each with the nondeterminism of its handler.\<close>

definition addressed :: "topic_inner \<Rightarrow> topic_event \<Rightarrow> bool" where
  "addressed t e = (case e of TMessageReceived _ msg _ \<Rightarrow> msg_topic msg = topic_name (t_config t) | _ \<Rightarrow> True)"

definition usable :: "config \<Rightarrow> bool" where
  "usable nc \<longleftrightarrow> network_size nc < 2 ^ 64 \<and> 0 < optimal_active_view_size nc"

lemma walk_bound: "network_size nc < 2 ^ 64 \<Longrightarrow> random_walk_length nc \<le> 20"
proof (cases "network_size nc = 0")
  case False
  assume "network_size nc < 2 ^ 64"
  then have "network_size nc \<le> 10 ^ 20" by simp
  then have "real (network_size nc) \<le> real (10 ^ 20)" by (simp only: of_nat_le_iff)
  then have "real (network_size nc) \<le> 10 ^ 20" by simp
  then have "log 10 (real (network_size nc)) \<le> log 10 (10 ^ 20)" using False by (subst log_le_cancel_iff) auto
  also have "\<dots> = 20" by (subst log_pow_cancel) auto
  finally have "\<lceil>log 10 (real (network_size nc))\<rceil> \<le> int 20" by linarith
  then show ?thesis
    using order_trans [OF as_usize_mono as_usize_nat] False by (simp add: random_walk_length_def)
qed (simp add: random_walk_length_def)

lemma safe_inject_event:
  assumes "world_ok w" "usable (network_config t)" "addressed t e"
  shows "safe t (inject_event w e t)"
proof (cases e)
  case (TMessageReceived p msg c)
  have "random_walk_length (network_config t) < 2 ^ 16" using assms(2) walk_bound [of "network_config t"] by (simp add: usable_def)
  with assms TMessageReceived show ?thesis
    by (cases "msg_action msg")
      (simp_all add: inject_event_def handle_message_received_def addressed_def usable_def safe_join safe_forward_join
        safe_neighbor safe_shuffle safe_shuffle_reply safe_Some evolves_gossip)
qed (simp_all add: inject_event_def safe_Some evolves_local_address evolves_peer_connected safe_peer_disconnected [OF assms(1)] safe_tick [OF assms(1)])

fun topic_run :: "(world \<times> topic_event) list \<Rightarrow> topic_inner \<Rightarrow> topic_inner option" where
  "topic_run [] t = Some t"
| "topic_run ((w, e) # es) t = Option.bind (inject_event w e t) (topic_run es)"

lemma safe_run:
  assumes "\<forall>(w, e) \<in> set es. world_ok w \<and> addressed t e" "usable (network_config t)"
  shows "safe t (topic_run es t)"
  using assms
proof (induction es arbitrary: t)
  case (Cons x es)
  obtain w e where x: "x = (w, e)" by (cases x)
  have "safe u (topic_run es u)" if "evolves t u" for u
    using that Cons.prems by (intro Cons.IH) (auto simp: addressed_def evolves_def split: topic_event.splits)
  with x Cons.prems show ?case by (auto intro!: safe_bind [OF safe_inject_event])
qed (simp add: safe_stay)

lemma topic_new_fields [simp]:
  "t_config (topic_new w tc nc this) = tc" "network_config (topic_new w tc nc this) = nc"
  "this_node (topic_new w tc nc this) = this"
  by (simp_all add: topic_new_def Let_def)

lemma topic_new_inv: "topic_inv (topic_new w tc nc this)"
  by (simp add: topic_inv_def views_ok_def topic_new_def Let_def list_all_iff)

end
