(* ===== verification/Overlay.thy ===== *)
theory Overlay
  imports Topic
begin

text \<open>
  What the overlay of a topic guarantees, and where it does not do what its comments say: properties of
  the handlers of \<open>network/src/topic.rs\<close>.
\<close>

section \<open>Sample world\<close>

definition sample_world :: "instant \<Rightarrow> world" where
  "sample_world n = \<lparr>now = n, iter_order = (\<lambda>xs. xs), rng_choose = (\<lambda>_ xs. hd xs),
     rng_multiple = (\<lambda>_ n xs. take n xs), toss = 0\<rparr>"

lemma sample_world_ok [simp]: "world_ok (sample_world n)"
proof -
  have "mset (take k xs) \<subseteq># mset xs" for k and xs :: "peer_id list"
    by (metis append_take_drop_id mset_append mset_subset_eq_add_left)
  then show ?thesis by (simp add: world_ok_def sample_world_def min.commute)
qed

definition sample_peer :: "byte \<Rightarrow> addressable_peer" where
  "sample_peer b = \<lparr>peer_id = [b], addresses = [[Ip4 (ucast b)]]\<rparr>"

definition sample_topic :: topic_inner where
  "sample_topic = topic_new (sample_world 0) \<lparr>topic_name = ''t'', bootstrap = []\<rparr> default_config (sample_peer 0)"

lemma default_usable [simp]: "usable default_config"
  unfolding usable_def default_optimal by (simp add: default_config_def)

lemma sample_topic_fields [simp]:
  "t_config sample_topic = \<lparr>topic_name = ''t'', bootstrap = []\<rparr>" "network_config sample_topic = default_config"
  "this_node sample_topic = sample_peer 0" "active_peers sample_topic = []" "passive_peers sample_topic = []"
  "cmdtx sample_topic = []" "outmsgs sample_topic = []" "pending_neighbours sample_topic = es_new (pending_timeout default_config)"
  "pending_dials sample_topic = es_new (pending_timeout default_config)" "last_shuffle sample_topic = 0"
  by (simp_all add: sample_topic_def topic_new_def sample_world_def Let_def)

section \<open>Properties\<close>



text \<open>C16. Dissemination: content from an active peer is delivered to the listeners once and forwarded to
  exactly the other active peers on their connections, each once; content from any other peer is
  neither delivered nor forwarded, and that peer is disconnected unless a disconnect is already
  pending.  The views stay as they are.\<close>

theorem gossip_forwarded:
  assumes "world_ok w" "hm_wf (active_peers t)"
  shows "let u = consume_gossip w sender msg c t in
    active_peers u = active_peers t \<and> passive_peers u = passive_peers t
    \<and> (if is_active t sender
       then outmsgs u = outmsgs t @ [msg]
         \<and> (\<exists>cs. cmdtx u = cmdtx t @ cs \<and> distinct cs
             \<and> set cs = {SendMessage p k (message_new (topic_name (t_config t)) (Gossip msg)) | p k addrs.
                          map_of (active_peers t) p = Some (k, addrs) \<and> p \<noteq> sender})
       else outmsgs u = outmsgs t
         \<and> cmdtx u = cmdtx t @ (if es_contains (now w) sender (pending_disconnects t) then [] else [Disconnect sender c]))"
proof (cases "is_active t sender")
  case True
  let ?send = "\<lambda>(p, k). SendMessage p k (message_new (topic_name (t_config t)) (Gossip msg))"
  let ?pcs = "filter (\<lambda>(p, k). p \<noteq> sender) (active_iter w t)"
  have "distinct (iter_order w (map fst (active_peers t)))"
    using assms by (metis mset_eq_imp_distinct_iff world_ok_def)
  moreover have "distinct (concat (map (\<lambda>p. case map_of (active_peers t) p of None \<Rightarrow> [] | Some (c, _) \<Rightarrow> [(p, c)]) ps))"
    if "distinct ps" for ps using that by (induction ps) (auto split: option.splits)
  ultimately have "distinct (active_iter w t)" by (simp add: active_iter_def)
  then have "distinct (map ?send ?pcs)" by (auto simp: distinct_map inj_on_def)
  moreover have "set (map ?send ?pcs) = {SendMessage p k (message_new (topic_name (t_config t)) (Gossip msg)) | p k addrs.
      map_of (active_peers t) p = Some (k, addrs) \<and> p \<noteq> sender}"
    using active_iter_set [OF assms(1), of t] by auto
  ultimately show ?thesis using True by (simp add: consume_gossip_def send_active_eq Let_def)
next
  case False
  then show ?thesis
    by (auto simp: consume_gossip_def disconnect_def send_cmd_def Let_def split_beta es_insert_simps)
qed

definition busy_topic :: topic_inner where
  "busy_topic = sample_topic\<lparr>active_peers := map (\<lambda>b. ([b], unat b, [[Ip4 (ucast b)]])) [1, 2, 3, 4, 5, 6, 7, 8]\<rparr>"

theorem gossip_forwarded_witness:
  "outmsgs (consume_gossip (sample_world 1) [1] [42] 1 busy_topic) = [[42]]
   \<and> SendMessage [2] 2 (message_new ''t'' (Gossip [42])) \<in> set (cmdtx (consume_gossip (sample_world 1) [1] [42] 1 busy_topic))"
proof -
  have wf: "hm_wf (active_peers busy_topic)" and ac: "is_active busy_topic [1]"
    and two: "map_of (active_peers busy_topic) [2] = Some (2, [[Ip4 2]])"
    by (simp_all add: busy_topic_def is_active_def)
  from gossip_forwarded [OF sample_world_ok wf, of 1 "[1]" "[42]" 1] ac two show ?thesis
    by (auto simp: Let_def busy_topic_def)
qed

text \<open>A shuffle reply teaches nothing: whatever peers it carries, the passive view afterwards holds only
  peers it held before, so the new peers of the reply are dropped, and known ones may be lost.\<close>

lemma shuffle_reply_learns_nothing:
  assumes "world_ok w"
  shows "\<exists>u. consume_shuffle_reply w sender peers c t = Some u
    \<and> fst ` set (passive_peers u) \<subseteq> fst ` set (passive_peers t) \<and> active_peers u = active_peers t"
proof -
  obtain u v where u: "consume_shuffle_reply w sender peers c t = Some v" "evolves t u" "quiet u v"
    "active_peers u = active_peers t" "fst ` set (passive_peers u) \<subseteq> fst ` set (passive_peers t)"
    by (rule shuffle_reply_spec [OF assms])
  then show ?thesis using quiet_fields(4,5) [OF u(3)] by auto
qed

lemma shuffle_reply_learns_nothing_example:
  "\<exists>u. consume_shuffle_reply (sample_world 1) [1] [sample_peer 9] 1 sample_topic = Some u \<and> passive_peers u = []"
  using shuffle_reply_learns_nothing [OF sample_world_ok, of 1 "[1]" "[sample_peer 9]" 1 sample_topic] by auto

text \<open>A high-priority neighbour request on a full active view frees no slot: a random active peer is
  told to disconnect, but it stays in the view, so the view is still full and the requesting peer is
  disconnected as well.\<close>

lemma high_priority_refused:
  assumes "world_ok w" "active_view_full t" "active_peers t \<noteq> []" "\<not> is_active t (peer_id p)"
  shows "\<exists>u victim k. consume_neighbor w (peer_id p) p True c t = Some u
    \<and> active_peers u = active_peers t \<and> passive_peers u = passive_peers t
    \<and> map_of (active_peers t) victim \<noteq> None
    \<and> cmdtx u = cmdtx t
        @ (if es_contains (now w) victim (pending_disconnects t) then [] else [Disconnect victim k])
        @ (if es_contains (now w) (peer_id p) (pending_disconnects t) then [] else [Disconnect (peer_id p) c])"
proof -
  obtain victim k addrs where v: "pick w HighPriority (map fst (active_peers t)) = Some victim"
    "map_of (active_peers t) victim = Some (k, addrs)"
    using pick_active [OF assms(1,3)] .
  define t1 where "t1 = disconnect w victim k t"
  have q: "quiet t t1" "quiet t1 (disconnect w (peer_id p) c t1)" by (simp_all add: t1_def quiet_disconnect)
  have "victim \<noteq> peer_id p" using v(2) assms(4) by (auto simp: is_active_def)
  then have "cmdtx (disconnect w (peer_id p) c t1) = cmdtx t
        @ (if es_contains (now w) victim (pending_disconnects t) then [] else [Disconnect victim k])
        @ (if es_contains (now w) (peer_id p) (pending_disconnects t) then [] else [Disconnect (peer_id p) c])"
    by (auto simp: t1_def disconnect_def send_cmd_def Let_def split_beta es_insert_simps)
  moreover have "consume_neighbor w (peer_id p) p True c t = Some (disconnect w (peer_id p) c t1)"
    using assms v quiet_tests(2) [OF q(1)] by (simp add: consume_neighbor_def t1_def [symmetric])
  moreover have "active_peers (disconnect w (peer_id p) c t1) = active_peers t" "passive_peers (disconnect w (peer_id p) c t1) = passive_peers t"
    using quiet_fields(4,5) [OF quiet.rel_trans [OF q]] by auto
  ultimately show ?thesis using v(2) by auto
qed

lemma high_priority_refused_example:
  "\<exists>u victim k. consume_neighbor (sample_world 1) [9] (sample_peer 9) True 9 busy_topic = Some u
    \<and> active_peers u = active_peers busy_topic \<and> cmdtx u = [Disconnect victim k, Disconnect [9] 9]"
proof -
  have f: "active_view_full busy_topic" "active_peers busy_topic \<noteq> []" "\<not> is_active busy_topic (peer_id (sample_peer 9))"
    by (simp_all add: busy_topic_def active_view_full_def is_active_def sample_peer_def)
  have "pending_disconnects busy_topic = es_new (pending_timeout default_config)" "cmdtx busy_topic = []"
    by (simp_all add: busy_topic_def sample_topic_def topic_new_def Let_def)
  with high_priority_refused [OF sample_world_ok f, of 1 9] show ?thesis by (auto simp: sample_peer_def)
qed

section \<open>Stabilisation of the active view\<close>

text \<open>\<open>calm\<close>: the active view stays and no disconnect is asked for.\<close>

definition calm :: "topic_inner \<Rightarrow> topic_inner \<Rightarrow> bool" where
  "calm t u \<longleftrightarrow> active_peers u = active_peers t \<and> network_config u = network_config t
     \<and> (\<exists>cs. cmdtx u = cmdtx t @ cs \<and> (\<forall>p c. Disconnect p c \<notin> set cs))"

interpretation calm: state_preorder calm
proof
  show "calm t t" for t by (simp add: calm_def)
  show "calm t u \<Longrightarrow> calm u v \<Longrightarrow> calm t v" for t u v by (fastforce simp: calm_def)
qed

lemma calm_send_cmd: "(\<And>p k. c \<noteq> Disconnect p k) \<Longrightarrow> calm t (send_cmd c t)"
  by (auto simp: calm_def send_cmd_def)

lemma calm_pending:
  "calm t (t\<lparr>pending_dials := d\<rparr>)" "calm t (t\<lparr>pending_neighbours := n\<rparr>)" "calm t (t\<lparr>last_shuffle := l\<rparr>)" "calm t (pruned w t)"
  by (simp_all add: calm_def pruned_def)

lemma calm_dial_addr: "calm t (dial_addr w a t)"
  unfolding dial_addr_def
  by (auto simp: Let_def split_beta calm.rel_refl split: option.splits
      intro!: calm_pending calm.rel_trans [OF calm_pending(1) calm_send_cmd])

lemma calm_dials: "calm t (fold (dial_addr w) addrs t)"
  by (rule calm.rel_fold) (rule calm_dial_addr)

lemma calm_try_neighbouring: "calm t (snd (try_neighbouring_with w p t))"
  unfolding try_neighbouring_with_def
  by (auto simp: Let_def split_beta calm.rel_refl intro!: calm_pending calm.rel_trans [OF calm_pending(2) calm_dials])

lemma calm_initiate_shuffle:
  assumes "initiate_shuffle w t = Some u"
  shows "calm t u"
proof -
  have "calm t (t\<lparr>last_shuffle := l\<rparr>)" "calm t (send_action p c act (t\<lparr>last_shuffle := l\<rparr>))" for l p c act
    by (simp_all add: calm_def send_action_def send_message_def send_cmd_def)
  then show ?thesis
    using assms unfolding initiate_shuffle_def Let_def by (auto split: if_splits option.splits bind_splits prod.splits)
qed

lemma calm_stabilize:
  assumes "\<not> active_view_full t" "try_stabilize_active_view w t = Some u"
  shows "calm t u"
proof -
  have "\<not> active_view_overconnected t" using assms(1) by (simp add: active_view_overconnected_def active_view_full_def)
  then show ?thesis
    using assms(2) unfolding try_stabilize_active_view_def
    by (auto simp: calm.rel_refl calm_dials calm_try_neighbouring split: if_splits option.splits bind_splits)
qed

text \<open>Maintenance never trims the active view: a tick asks for no disconnect and leaves the active view
  as it is, however far it is above its optimal size.  The branch for an overconnected node is behind
  the test that the view is not full.\<close>

lemma tick_never_disconnects:
  assumes "handle_tick w t = Some u"
  shows "active_peers u = active_peers t
    \<and> (\<exists>cs. cmdtx u = cmdtx t @ cs \<and> (\<forall>p c. Disconnect p c \<notin> set cs))"
proof -
  obtain v where v: "(if elapsed (now w) (last_shuffle t) > shuffle_interval (network_config t)
      then initiate_shuffle w (pruned w t) else Some (pruned w t)) = Some v"
    and u: "(if \<not> active_view_full v \<and> es_is_empty (pending_dials v) \<and> es_is_empty (pending_neighbours v)
          then try_stabilize_active_view w v else Some v) = Some u"
    using assms unfolding handle_tick_eq by (auto simp: bind_eq_Some_conv)
  have "calm (pruned w t) v" using v by (auto split: if_splits simp: calm.rel_refl calm_initiate_shuffle)
  moreover have "calm v u" using u by (auto split: if_splits simp: calm.rel_refl calm_stabilize)
  ultimately have "calm t u" by (blast intro: calm.rel_trans calm_pending)
  then show ?thesis by (simp add: calm_def)
qed

lemma tick_never_disconnects_example:
  "\<exists>u. handle_tick (sample_world 1) (busy_topic\<lparr>active_peers := ([99], 99, []) # active_peers busy_topic\<rparr>) = Some u
    \<and> length (active_peers u) = 9"
proof -
  let ?t = "busy_topic\<lparr>active_peers := ([99], 99, []) # active_peers busy_topic\<rparr>"
  have "topic_inv ?t" by (simp add: busy_topic_def topic_inv_def views_ok_def sample_peer_def)
  then obtain u where u: "handle_tick (sample_world 1) ?t = Some u"
    using safe_tick [OF sample_world_ok [of 1], of ?t] by (auto simp: safe_def)
  have "length (active_peers u) = 9" using tick_never_disconnects [OF u] by (simp add: busy_topic_def)
  with u show ?thesis by blast
qed

lemma es_empty_contains: "es_is_empty s \<Longrightarrow> \<not> es_contains n k s"
  by (simp add: es_is_empty_def em_is_empty_def es_contains_def em_get_def)

lemma dial_addr_fields [simp]:
  "pending_neighbours (dial_addr w a t) = pending_neighbours t" "active_peers (dial_addr w a t) = active_peers t"
  "this_node (dial_addr w a t) = this_node t" "t_config (dial_addr w a t) = t_config t"
  by (auto simp: dial_addr_def send_cmd_def Let_def split_beta split: option.splits)

lemma dials_fields [simp]:
  "pending_neighbours (fold (dial_addr w) as t) = pending_neighbours t" "active_peers (fold (dial_addr w) as t) = active_peers t"
  "this_node (fold (dial_addr w) as t) = this_node t" "t_config (fold (dial_addr w) as t) = t_config t"
  by (induction as arbitrary: t) auto

lemma dial_addr_cmds: "c \<in> set (cmdtx t) \<Longrightarrow> c \<in> set (cmdtx (fold (dial_addr w) as t))"
  using quiet_dials [of t w as] by (auto simp: quiet_def)

lemma dials_connect:
  assumes "a \<in> set as" "ip_of a = Some ip" "\<not> es_contains (now w) ip (pending_dials t)"
  shows "\<exists>b \<in> set as. ip_of b = Some ip \<and> Connect b (topic_name (t_config t)) \<in> set (cmdtx (fold (dial_addr w) as t))"
  using assms
proof (induction as arbitrary: t)
  case (Cons b as)
  show ?case
  proof (cases "ip_of b = Some ip")
    case True
    then have "Connect b (topic_name (t_config t)) \<in> set (cmdtx (dial_addr w b t))"
      using Cons.prems(3) by (simp add: dial_addr_def Let_def split_beta es_insert_simps send_cmd_def)
    with True dial_addr_cmds show ?thesis by fastforce
  next
    case False
    have "\<not> es_contains (now w) ip (pending_dials (dial_addr w b t))"
      using Cons.prems(3) False by (auto simp: dial_addr_def Let_def split_beta es_insert_simps send_cmd_def split: option.splits)
    with Cons.IH [of "dial_addr w b t"] Cons.prems(1,2) False show ?thesis by auto
  qed
qed simp

lemma non_pending_fields [simp]:
  "pending_neighbours (handle_non_pending_connects w p c t) = pending_neighbours t"
  "active_peers (handle_non_pending_connects w p c t) = active_peers t"
  "this_node (handle_non_pending_connects w p c t) = this_node t"
  by (simp_all add: handle_non_pending_connects_def Let_def send_action_eq)

text \<open>A peer that is waited for becomes active when the connection to it is established.\<close>

lemma connected_becomes_active:
  assumes "es_contains (now w) (peer_id p) (pending_neighbours t)" "peer_id p \<noteq> peer_id (this_node t)"
  shows "is_active (handle_peer_connected w p c t) (peer_id p)"
proof -
  let ?a = "handle_non_pending_connects w p c t"
  have "is_active (handle_pending_neighbours w p c ?a) (peer_id p)"
    using assms
    by (auto simp: handle_pending_neighbours_def Let_def split_beta es_remove_simps add_to_active_view_def send_action_eq
        is_active_def remove_from_passive_view_def update_conv')
  then show ?thesis
    using quiet_tests(1) [OF quiet.rel_trans [OF quiet_pending_replies quiet_forget_dials]]
    by (simp add: handle_peer_connected_def Let_def)
qed

lemma neighbouring_idle:
  assumes "\<not> is_active t (peer_id p)" "es_is_empty (pending_dials t)" "es_is_empty (pending_neighbours t)"
  shows "snd (try_neighbouring_with w p t) =
    fold (dial_addr w) (addresses p) (t\<lparr>pending_neighbours := snd (es_insert (now w) (peer_id p) (pending_neighbours t))\<rparr>)"
proof -
  have "\<not> is_pending_dial w p t"
    using assms(2) by (auto simp: is_pending_dial_def list_ex_iff es_empty_contains split: option.splits)
  then show ?thesis
    using assms by (simp add: try_neighbouring_with_def Let_def split_beta es_insert_simps es_empty_contains)
qed


lemma default_times [simp]:
  "shuffle_interval default_config = 180 * 10 ^ 9" "pending_timeout default_config = 15 * 10 ^ 9" "lifespan (es_new d) = d"
  by (simp_all add: default_config_def es_new_def em_new_def)


end
