(* ===== verification/Muxer.thy ===== *)
theory Muxer
  imports Wire
begin

text \<open>
  Which topic a connection belongs to: \<open>network/src/muxer.rs\<close>.  Nested hash maps are association lists, a
  \<open>HashSet\<close> of connections is a list.  The first entry in iteration order, which \<open>poll_dial\<close> takes, is
  given by the two arguments \<open>first_ip\<close> and \<open>first_topic\<close>.
\<close>

section \<open>State and operations\<close>

record muxer =
  assigned :: "(peer_id, (connection_id, string) hash_map) hash_map"
  unassigned :: "(peer_id, addressable_peer \<times> connection_id list) hash_map"
  requested_dials :: "(ip_address, (string, multiaddr) hash_map) hash_map"
  ongoing_dials :: "(ip_address, string) expiring_map"

definition muxer_new :: "config \<Rightarrow> muxer" where
  "muxer_new cfg = \<lparr>assigned = [], unassigned = [], requested_dials = [], ongoing_dials = em_new (pending_timeout cfg)\<rparr>"

definition register :: "addressable_peer \<Rightarrow> connection_id \<Rightarrow> muxer \<Rightarrow> muxer" where
  "register from c m =
     (case map_of (unassigned m) (peer_id from) of
        Some (p, conns) \<Rightarrow> m\<lparr>unassigned := AList.update (peer_id from) (p, List.insert c conns) (unassigned m)\<rparr>
      | None \<Rightarrow> m\<lparr>unassigned := AList.update (peer_id from) (from, [c]) (unassigned m)\<rparr>)"

definition mux_disconnect :: "peer_id \<Rightarrow> connection_id \<Rightarrow> muxer \<Rightarrow> muxer" where
  "mux_disconnect p c m =
     (case map_of (assigned m) p of
        Some conns \<Rightarrow>
          (let conns = AList.delete c conns in
           m\<lparr>assigned := (if conns = [] then AList.delete p (assigned m) else AList.update p conns (assigned m))\<rparr>)
      | None \<Rightarrow>
          (case map_of (unassigned m) p of
             Some (peer, conns) \<Rightarrow>
               (let conns = removeAll c conns in
                m\<lparr>unassigned := (if conns = [] then AList.delete p (unassigned m)
                                 else AList.update p (peer, conns) (unassigned m))\<rparr>)
           | None \<Rightarrow> m))"

definition put_dial :: "multiaddr \<Rightarrow> string \<Rightarrow> muxer \<Rightarrow> muxer" where
  "put_dial addr topic m =
     (case ip_of addr of
        None \<Rightarrow> m
      | Some ip \<Rightarrow>
          (case map_of (requested_dials m) ip of
             Some topics \<Rightarrow> m\<lparr>requested_dials := AList.update ip (AList.update topic addr topics) (requested_dials m)\<rparr>
           | None \<Rightarrow> m\<lparr>requested_dials := AList.update ip [(topic, addr)] (requested_dials m)\<rparr>))"

definition poll_dial :: "(ip_address list \<Rightarrow> ip_address) \<Rightarrow> (string list \<Rightarrow> string) \<Rightarrow> muxer \<Rightarrow> (string \<times> multiaddr) option" where
  "poll_dial first_ip first_topic m =
     (if requested_dials m = [] then None
      else case map_of (requested_dials m) (first_ip (map fst (requested_dials m))) of
             None \<Rightarrow> None
           | Some dial \<Rightarrow>
               if dial = [] then None
               else (let topic = first_topic (map fst dial) in map_option (Pair topic) (map_of dial topic)))"

definition next_dial :: "instant \<Rightarrow> multiaddr \<Rightarrow> string \<Rightarrow> muxer \<Rightarrow> bool \<times> muxer" where
  "next_dial now addr topic m =
     (case ip_of addr of
        None \<Rightarrow> (False, m)
      | Some ip \<Rightarrow>
          if em_contains_key now ip (ongoing_dials m) then (False, m)
          else case map_of (requested_dials m) ip of
                 None \<Rightarrow> (False, m)
               | Some requested \<Rightarrow>
                   if map_of requested topic = None then (False, m)
                   else
                     let requested = AList.delete topic requested in
                     (True, m\<lparr>requested_dials := (if requested = [] then AList.delete ip (requested_dials m)
                                                 else AList.update ip requested (requested_dials m)),
                              ongoing_dials := snd (em_insert now ip topic (ongoing_dials m))\<rparr>))"

definition assign_connection :: "peer_id \<Rightarrow> connection_id \<Rightarrow> string \<Rightarrow> muxer \<Rightarrow> muxer" where
  "assign_connection p c topic m =
     (case map_of (assigned m) p of
        Some conns \<Rightarrow> m\<lparr>assigned := AList.update p (AList.update c topic conns) (assigned m)\<rparr>
      | None \<Rightarrow> m\<lparr>assigned := AList.update p [(c, topic)] (assigned m)\<rparr>)"

fun match_dial_loop :: "instant \<Rightarrow> peer_id \<Rightarrow> connection_id \<Rightarrow> multiaddr list \<Rightarrow> muxer \<Rightarrow> string option \<times> muxer" where
  "match_dial_loop now p c [] m = (None, m)"
| "match_dial_loop now p c (addr # addrs) m =
     (case ip_of addr of
        None \<Rightarrow> match_dial_loop now p c addrs m
      | Some ip \<Rightarrow>
          (let (found, ongoing) = em_remove now ip (ongoing_dials m);
               m = m\<lparr>ongoing_dials := ongoing\<rparr> in
           case found of
             Some topic \<Rightarrow> (Some topic, assign_connection p c topic m)
           | None \<Rightarrow> match_dial_loop now p c addrs m))"

definition match_dial :: "instant \<Rightarrow> addressable_peer \<Rightarrow> connection_id \<Rightarrow> muxer \<Rightarrow> string option \<times> muxer" where
  "match_dial now peer c m = match_dial_loop now (peer_id peer) c (addresses peer) m"

definition assign :: "peer_id \<Rightarrow> connection_id \<Rightarrow> string \<Rightarrow> muxer \<Rightarrow> addressable_peer option \<times> muxer" where
  "assign p c topic m =
     (case map_of (unassigned m) p of
        Some (addrpeer, conns) \<Rightarrow>
          if c \<in> set conns then
            (let conns = removeAll c conns;
                 m = assign_connection p c topic m in
             (Some addrpeer,
              m\<lparr>unassigned := (if conns = [] then AList.delete p (unassigned m)
                               else AList.update p (addrpeer, conns) (unassigned m))\<rparr>))
          else (None, m)
      | None \<Rightarrow> (None, m))"

definition resolve_topic :: "peer_id \<Rightarrow> connection_id \<Rightarrow> muxer \<Rightarrow> string option" where
  "resolve_topic p c m = Option.bind (map_of (assigned m) p) (\<lambda>conns. map_of conns c)"

definition assigned_count :: "muxer \<Rightarrow> nat" where
  "assigned_count m = length (assigned m)"

definition unassigned_count :: "muxer \<Rightarrow> nat" where
  "unassigned_count m = length (unassigned m)"

definition mux_prune_expired :: "instant \<Rightarrow> muxer \<Rightarrow> muxer" where
  "mux_prune_expired now m = m\<lparr>ongoing_dials := em_prune_expired now (ongoing_dials m)\<rparr>"

section \<open>What the muxer tracks\<close>

definition waiting :: "peer_id \<Rightarrow> connection_id \<Rightarrow> muxer \<Rightarrow> bool" where
  "waiting p c m = (case map_of (unassigned m) p of Some (_, conns) \<Rightarrow> c \<in> set conns | None \<Rightarrow> False)"

definition tracked :: "peer_id \<Rightarrow> connection_id \<Rightarrow> muxer \<Rightarrow> bool" where
  "tracked p c m \<longleftrightarrow> resolve_topic p c m \<noteq> None \<or> waiting p c m"

text \<open>Topics a dial was requested for or is under way for.\<close>

definition dial_topics :: "muxer \<Rightarrow> string set" where
  "dial_topics m = (\<Union>(ip, ts) \<in> set (requested_dials m). fst ` set ts) \<union> (fst \<circ> snd) ` set (em_data (ongoing_dials m))"

definition assigned_topics :: "muxer \<Rightarrow> string set" where
  "assigned_topics m = {topic. \<exists>p c. resolve_topic p c m = Some topic}"

definition mux_topics :: "muxer \<Rightarrow> string set" where
  "mux_topics m = dial_topics m \<union> assigned_topics m"

lemma resolve_assign_connection [store_simps]:
  "resolve_topic p' c' (assign_connection p c topic m) = (if p' = p \<and> c' = c then Some topic else resolve_topic p' c' m)"
  by (auto simp: resolve_topic_def assign_connection_def update_conv' split: option.splits)

lemma assign_connection_fields [simp]:
  "unassigned (assign_connection p c topic m) = unassigned m" "requested_dials (assign_connection p c topic m) = requested_dials m"
  "ongoing_dials (assign_connection p c topic m) = ongoing_dials m"
  by (auto simp: assign_connection_def split: option.splits)

lemma resolve_update [simp]:
  "resolve_topic p c (m\<lparr>unassigned := u\<rparr>) = resolve_topic p c m" "resolve_topic p c (m\<lparr>ongoing_dials := og\<rparr>) = resolve_topic p c m"
  "resolve_topic p c (m\<lparr>requested_dials := r\<rparr>) = resolve_topic p c m"
  "waiting p c (m\<lparr>ongoing_dials := og\<rparr>) = waiting p c m" "waiting p c (m\<lparr>requested_dials := r\<rparr>) = waiting p c m"
  "waiting p c (m\<lparr>assigned := a\<rparr>) = waiting p c m"
  by (simp_all add: resolve_topic_def waiting_def)

lemma resolve_register [simp]: "resolve_topic p c (register from k m) = resolve_topic p c m"
  by (auto simp: resolve_topic_def register_def split: option.splits)

lemma waiting_register: "waiting p c (register from k m) \<longleftrightarrow> (p = peer_id from \<and> c = k) \<or> waiting p c m"
  by (auto simp: waiting_def register_def update_conv' split: option.splits)

lemma assign_cases:
  "assign p c topic m =
     (if waiting p c m then
        (Some (fst (the (map_of (unassigned m) p))),
         (assign_connection p c topic m)\<lparr>unassigned :=
            (let conns = removeAll c (snd (the (map_of (unassigned m) p))) in
             if conns = [] then AList.delete p (unassigned m)
             else AList.update p (fst (the (map_of (unassigned m) p)), conns) (unassigned m))\<rparr>)
      else (None, m))"
  by (auto simp: assign_def waiting_def Let_def split: option.splits)

lemma resolve_assign [store_simps]:
  "resolve_topic p' c' (snd (assign p c topic m)) =
     (if p' = p \<and> c' = c \<and> waiting p c m then Some topic else resolve_topic p' c' m)"
  by (simp add: assign_cases resolve_assign_connection)

lemma waiting_assign [store_simps]:
  "waiting p' c' (snd (assign p c topic m)) \<longleftrightarrow> waiting p' c' m \<and> \<not> (p' = p \<and> c' = c)"
proof (cases "waiting p c m")
  case True
  then obtain q conns where "map_of (unassigned m) p = Some (q, conns)" by (auto simp: waiting_def split: option.splits)
  with True show ?thesis
    by (auto simp: assign_cases waiting_def Let_def update_conv' delete_conv' split: option.splits if_splits)
      (metis removeAll.simps(1) set_removeAll empty_iff insertE list.set(1) Diff_iff empty_set insertI1 singletonD)+
next
  case False
  then show ?thesis by (auto simp: assign_cases)
qed

lemma resolve_disconnect [store_simps]:
  "resolve_topic p' c' (mux_disconnect p c m) = (if p' = p \<and> c' = c then None else resolve_topic p' c' m)"
proof (cases "map_of (assigned m) p")
  case None
  then show ?thesis by (auto simp: mux_disconnect_def resolve_topic_def Let_def split: option.splits)
next
  case (Some conns)
  have "map_of conns c' = None" if "AList.delete c conns = []" "c' \<noteq> c"
    using that by (metis map_of_delete map_of.simps(1))
  with Some show ?thesis
    by (auto simp: mux_disconnect_def resolve_topic_def Let_def update_conv' delete_conv')
qed

lemma waiting_disconnect [store_simps]:
  "waiting p' c' (mux_disconnect p c m) \<longleftrightarrow> waiting p' c' m \<and> \<not> (p' = p \<and> c' = c \<and> map_of (assigned m) p = None)"
proof (cases "map_of (assigned m) p")
  case None
  show ?thesis
  proof (cases "map_of (unassigned m) p")
    case None
    with \<open>map_of (assigned m) p = None\<close> show ?thesis by (auto simp: mux_disconnect_def waiting_def)
  next
    case (Some v)
    obtain q conns where v: "v = (q, conns)" by (cases v)
    have "c' \<notin> set conns" if "removeAll c conns = []" "c' \<noteq> c"
      using that by (metis Diff_iff empty_iff list.set(1) set_removeAll singletonD)
    with Some v \<open>map_of (assigned m) p = None\<close> show ?thesis
      by (auto simp: mux_disconnect_def waiting_def Let_def update_conv' delete_conv')
  qed
next
  case (Some conns)
  then show ?thesis by (simp add: mux_disconnect_def Let_def)
qed

lemma match_dial_loop_spec:
  "case match_dial_loop now p c addrs m of
     (None, m') \<Rightarrow> (\<forall>a \<in> set addrs. \<forall>ip. ip_of a = Some ip \<longrightarrow> em_get now ip (ongoing_dials m) = None)
       \<and> (\<forall>p' c'. resolve_topic p' c' m' = resolve_topic p' c' m) \<and> unassigned m' = unassigned m
       \<and> requested_dials m' = requested_dials m \<and> set (em_data (ongoing_dials m')) \<subseteq> set (em_data (ongoing_dials m))
   | (Some topic, m') \<Rightarrow> (\<exists>a \<in> set addrs. \<exists>ip. ip_of a = Some ip \<and> em_get now ip (ongoing_dials m) = Some topic)
       \<and> (\<forall>p' c'. resolve_topic p' c' m' = (if p' = p \<and> c' = c then Some topic else resolve_topic p' c' m))
       \<and> unassigned m' = unassigned m
       \<and> requested_dials m' = requested_dials m \<and> set (em_data (ongoing_dials m')) \<subseteq> set (em_data (ongoing_dials m))"
proof (induction addrs arbitrary: m)
  case (Cons a addrs)
  show ?case
  proof (cases "ip_of a")
    case None
    then show ?thesis using Cons [of m] by (auto split: prod.splits option.splits)
  next
    case (Some ip)
    let ?m = "m\<lparr>ongoing_dials := snd (em_remove now ip (ongoing_dials m))\<rparr>"
    have old: "fst (em_remove now ip (ongoing_dials m)) = em_get now ip (ongoing_dials m)" by (rule em.take_old)
    have sub: "set (em_data (ongoing_dials ?m)) \<subseteq> set (em_data (ongoing_dials m))"
      by (auto simp: em_lookup_remove AList.delete_eq)
    have look: "em_get now ip' (ongoing_dials ?m) = (if ip' = ip then None else em_get now ip' (ongoing_dials m))" for ip'
      by (simp add: em.look_take)
    show ?thesis
    proof (cases "em_get now ip (ongoing_dials m)")
      case None
      then have "match_dial_loop now p c (a # addrs) m = match_dial_loop now p c addrs ?m"
        using Some old by (simp add: Let_def split_beta)
      then show ?thesis using Cons [of ?m] Some None sub look
        by (auto split: prod.splits option.splits if_splits)
    next
      case (Some topic)
      then have "match_dial_loop now p c (a # addrs) m = (Some topic, assign_connection p c topic ?m)"
        using \<open>ip_of a = Some ip\<close> old by (simp add: Let_def split_beta)
      then show ?thesis using Some \<open>ip_of a = Some ip\<close> sub by (auto simp: resolve_assign_connection)
    qed
  qed
qed simp

section \<open>Topics of the muxer\<close>

lemma set_update_subset: "set (AList.update k v m) \<subseteq> insert (k, v) (set m)"
  by (induction m) auto

lemma set_delete_subset: "set (AList.delete k m) \<subseteq> set m"
  by (auto simp: AList.delete_eq)

definition requested_topics :: "muxer \<Rightarrow> string set" where
  "requested_topics m = (\<Union>(ip, ts) \<in> set (requested_dials m). fst ` set ts)"

definition ongoing_topics :: "muxer \<Rightarrow> string set" where
  "ongoing_topics m = (fst \<circ> snd) ` set (em_data (ongoing_dials m))"

lemma dial_topics_split: "dial_topics m = requested_topics m \<union> ongoing_topics m"
  by (simp add: dial_topics_def requested_topics_def ongoing_topics_def)

lemma requested_le: "requested_topics m \<subseteq> T \<longleftrightarrow> (\<forall>e \<in> set (requested_dials m). fst ` set (snd e) \<subseteq> T)"
  by (auto simp: requested_topics_def split_beta)

lemma requested_update:
  assumes "fst ` set ts \<subseteq> T" "requested_topics m \<subseteq> T"
  shows "requested_topics (m\<lparr>requested_dials := AList.update ip ts (requested_dials m)\<rparr>) \<subseteq> T"
  unfolding requested_le
proof
  fix e assume "e \<in> set (requested_dials (m\<lparr>requested_dials := AList.update ip ts (requested_dials m)\<rparr>))"
  then have "e = (ip, ts) \<or> e \<in> set (requested_dials m)"
    using set_update_subset [of ip ts "requested_dials m"] by auto
  then show "fst ` set (snd e) \<subseteq> T" by (rule disjE) (use assms in \<open>simp_all add: requested_le\<close>)
qed

lemma requested_mem: "map_of (requested_dials m) ip = Some ts \<Longrightarrow> fst ` set ts \<subseteq> requested_topics m"
  by (force simp: requested_topics_def dest: map_of_SomeD)

lemma ongoing_mem: "em_get now ip (ongoing_dials m) = Some topic \<Longrightarrow> topic \<in> ongoing_topics m"
  by (force simp: ongoing_topics_def em_get_def dest: map_of_SomeD split: option.splits if_splits)

lemma put_dial_topics: "dial_topics (put_dial addr topic m) \<subseteq> insert topic (dial_topics m)"
proof -
  have "requested_topics (put_dial addr topic m) \<subseteq> insert topic (requested_topics m)"
  proof (cases "ip_of addr")
    case (Some ip)
    show ?thesis
    proof (cases "map_of (requested_dials m) ip")
      case None
      then show ?thesis
        using Some requested_update [of "[(topic, addr)]" "insert topic (requested_topics m)" m ip] by (auto simp: put_dial_def)
    next
      case (Some ts)
      then show ?thesis
        using \<open>ip_of addr = Some ip\<close> requested_mem [OF Some]
          requested_update [of "AList.update topic addr ts" "insert topic (requested_topics m)" m ip]
        by (auto simp: put_dial_def)
    qed
  qed (auto simp: put_dial_def)
  moreover have "ongoing_topics (put_dial addr topic m) = ongoing_topics m"
    by (auto simp: put_dial_def ongoing_topics_def split: option.splits)
  ultimately show ?thesis by (auto simp: dial_topics_split)
qed

lemma next_dial_topics: "dial_topics (snd (next_dial now addr topic m)) \<subseteq> dial_topics m"
proof (cases "fst (next_dial now addr topic m)")
  case False
  then have "snd (next_dial now addr topic m) = m"
    by (auto simp: next_dial_def Let_def split: option.splits if_splits)
  then show ?thesis by simp
next
  case True
  then obtain ip ts where ip: "ip_of addr = Some ip" "map_of (requested_dials m) ip = Some ts" "topic \<in> fst ` set ts"
    by (auto simp: next_dial_def Let_def keys_map_of split: option.splits if_splits)
  let ?ts = "AList.delete topic ts"
  have eq: "snd (next_dial now addr topic m) = m\<lparr>requested_dials := (if ?ts = [] then AList.delete ip (requested_dials m)
        else AList.update ip ?ts (requested_dials m)), ongoing_dials := snd (em_insert now ip topic (ongoing_dials m))\<rparr>"
    using True ip by (auto simp: next_dial_def Let_def split: if_splits option.splits)
  have "fst ` set ?ts \<subseteq> requested_topics m" using requested_mem [OF ip(2)] by auto
  then have r: "requested_topics (snd (next_dial now addr topic m)) \<subseteq> requested_topics m"
    using requested_update [of ?ts "requested_topics m" m ip] set_delete_subset [of ip "requested_dials m"]
    unfolding eq by (auto simp: requested_topics_def)
  have "ongoing_topics (snd (next_dial now addr topic m)) \<subseteq> insert topic (ongoing_topics m)"
    unfolding eq using set_update_subset [of ip "(topic, now)" "em_data (ongoing_dials m)"]
    by (fastforce simp: ongoing_topics_def em_lookup_insert)
  with r requested_mem [OF ip(2)] ip(3) show ?thesis by (auto simp: dial_topics_split)
qed

lemma mux_topics_ops:
  "assigned_topics (put_dial addr topic m) = assigned_topics m"
  "assigned_topics (snd (next_dial now addr topic m)) = assigned_topics m"
  "mux_topics (register from c m) = mux_topics m"
  "mux_topics (mux_disconnect p c m) \<subseteq> mux_topics m"
  "mux_topics (snd (assign p c topic m)) \<subseteq> insert topic (mux_topics m)"
  "mux_topics (mux_prune_expired now m) \<subseteq> mux_topics m"
proof -
  show "assigned_topics (put_dial addr topic m) = assigned_topics m"
    by (auto simp: put_dial_def assigned_topics_def split: option.splits)
  show "assigned_topics (snd (next_dial now addr topic m)) = assigned_topics m"
    by (auto simp: next_dial_def assigned_topics_def Let_def resolve_topic_def split: option.splits)
  have "requested_dials (register from c m) = requested_dials m" "ongoing_dials (register from c m) = ongoing_dials m"
    by (auto simp: register_def split: option.splits)
  then show "mux_topics (register from c m) = mux_topics m"
    by (auto simp: mux_topics_def dial_topics_def assigned_topics_def)
  have "requested_dials (mux_disconnect p c m) = requested_dials m" "ongoing_dials (mux_disconnect p c m) = ongoing_dials m"
    by (auto simp: mux_disconnect_def Let_def split: option.splits)
  then show "mux_topics (mux_disconnect p c m) \<subseteq> mux_topics m"
    by (auto simp: mux_topics_def dial_topics_def assigned_topics_def resolve_disconnect split: if_splits)
  have "requested_dials (snd (assign p c topic m)) = requested_dials m" "ongoing_dials (snd (assign p c topic m)) = ongoing_dials m"
    by (auto simp: assign_cases Let_def)
  then show "mux_topics (snd (assign p c topic m)) \<subseteq> insert topic (mux_topics m)"
    by (auto simp: mux_topics_def dial_topics_def assigned_topics_def resolve_assign split: if_splits)
  show "mux_topics (mux_prune_expired now m) \<subseteq> mux_topics m"
    by (force simp: mux_topics_def dial_topics_def assigned_topics_def mux_prune_expired_def)
qed

lemma match_dial_topics:
  assumes "match_dial now peer c m = (found, m')"
  shows "mux_topics m' \<subseteq> mux_topics m" "found = Some topic \<Longrightarrow> topic \<in> mux_topics m"
    "tracked p k m \<Longrightarrow> tracked p k m'" "found \<noteq> None \<Longrightarrow> tracked (peer_id peer) c m'"
proof -
  note spec = match_dial_loop_spec [where now = now and p = "peer_id peer" and c = c and addrs = "addresses peer" and m = m,
    folded match_dial_def, unfolded assms]
  show found: "topic \<in> mux_topics m" if "found = Some topic" for topic
    using spec that ongoing_mem by (auto simp: mux_topics_def dial_topics_split)
  have "requested_dials m' = requested_dials m" "set (em_data (ongoing_dials m')) \<subseteq> set (em_data (ongoing_dials m))"
    using spec by (cases found; simp)+
  then have "dial_topics m' \<subseteq> dial_topics m" unfolding dial_topics_def by auto
  moreover have "assigned_topics m' \<subseteq> assigned_topics m \<union> set_option found"
    using spec by (cases found) (auto simp: assigned_topics_def split: if_splits)
  ultimately show "mux_topics m' \<subseteq> mux_topics m"
    using found by (cases found) (auto simp: mux_topics_def)
  show "tracked p k m \<Longrightarrow> tracked p k m'" "found \<noteq> None \<Longrightarrow> tracked (peer_id peer) c m'"
    using spec by (cases found; auto simp: tracked_def waiting_def)+
qed

section \<open>Properties\<close>

lemma next_dial_iff:
  "fst (next_dial now addr topic m) \<longleftrightarrow>
     (\<exists>ip ts. ip_of addr = Some ip \<and> em_get now ip (ongoing_dials m) = None
        \<and> map_of (requested_dials m) ip = Some ts \<and> map_of ts topic \<noteq> None)"
  by (auto simp: next_dial_def em_contains_key_def Let_def split: option.splits)

lemma next_dial_ongoing:
  "fst (next_dial now addr topic m) \<Longrightarrow> ip_of addr = Some ip \<Longrightarrow>
   ongoing_dials (snd (next_dial now addr topic m)) = snd (em_insert now ip topic (ongoing_dials m))"
  by (auto simp: next_dial_def Let_def split: option.splits if_splits)

text \<open>Dials to one IP address are made one at a time.  After a dial has started for a topic, and until it
  is completed or its timeout has passed, no dial to the same IP address starts, whatever its port and
  whichever topic asks; and a connection to a peer at that address in this time is attributed to the
  topic whose dial it was, after which it resolves to this topic.\<close>

lemma one_dial_per_ip:
  assumes "fst (next_dial now addr topic m)" "ip_of addr' = ip_of addr" "t \<le> now + lifespan (ongoing_dials m)"
  shows "\<not> fst (next_dial t addr' topic' (snd (next_dial now addr topic m)))
    \<and> fst (match_dial t \<lparr>peer_id = p, addresses = [addr']\<rparr> c (snd (next_dial now addr topic m))) = Some topic
    \<and> resolve_topic p c (snd (match_dial t \<lparr>peer_id = p, addresses = [addr']\<rparr> c (snd (next_dial now addr topic m)))) = Some topic"
proof -
  obtain ip where ip: "ip_of addr = Some ip" using assms(1) by (auto simp: next_dial_iff)
  let ?m = "snd (next_dial now addr topic m)"
  have live: "em_get t ip (ongoing_dials ?m) = Some topic"
    using next_dial_ongoing [OF assms(1) ip] assms(3) by (simp add: em.look_put_same elapsed_def)
  obtain found m' where m': "match_dial_loop t p c [addr'] ?m = (found, m')" by fastforce
  have "found = Some topic \<and> resolve_topic p c m' = Some topic"
    using match_dial_loop_spec [where now = t and p = p and c = c and addrs = "[addr']" and m = ?m] m' live ip assms(2)
    by (auto split: option.splits)
  then show ?thesis using live ip assms(2) m' by (simp add: next_dial_iff match_dial_def)
qed

definition dialing_muxer :: muxer where
  "dialing_muxer = put_dial [Ip4 1] ''t'' (muxer_new default_config)"

lemma one_dial_per_ip_example:
  "\<not> fst (next_dial 9 [Ip4 1, OtherProtocol ''tcp/2''] ''u'' (snd (next_dial 5 [Ip4 1] ''t'' dialing_muxer)))
   \<and> resolve_topic [1] 7 (snd (match_dial 9 \<lparr>peer_id = [1], addresses = [[Ip4 1, OtherProtocol ''tcp/2'']]\<rparr> 7
       (snd (next_dial 5 [Ip4 1] ''t'' dialing_muxer)))) = Some ''t''"
proof -
  have f: "fst (next_dial 5 [Ip4 1] ''t'' dialing_muxer)"
    by (simp add: next_dial_iff dialing_muxer_def put_dial_def muxer_new_def ip_of_def em_get_def em_new_def)
  have "ip_of [Ip4 1, OtherProtocol ''tcp/2''] = ip_of [Ip4 1]" by (simp add: ip_of_def)
  moreover have "9 \<le> 5 + lifespan (ongoing_dials dialing_muxer)"
    by (simp add: dialing_muxer_def put_dial_def muxer_new_def ip_of_def em_new_def default_config_def)
  ultimately show ?thesis using one_dial_per_ip [OF f] by blast
qed

text \<open>A closed connection can be left behind: when a peer has one connection assigned to a topic and a
  second one that has not spoken yet, closing the second removes nothing, so the muxer still takes it
  for open and counts its peer as unassigned.\<close>

lemma closed_connection_leaks:
  assumes "resolve_topic p k m \<noteq> None" "waiting p c m"
  shows "waiting p c (mux_disconnect p c m) \<and> map_of (unassigned (mux_disconnect p c m)) p = map_of (unassigned m) p"
  using assms by (auto simp: waiting_disconnect resolve_topic_def mux_disconnect_def Let_def split: option.splits)

lemma closed_connection_leaks_example:
  "waiting [1] 8 (mux_disconnect [1] 8
     (register (peer_from_id [1]) 8 (snd (assign [1] 7 ''t'' (register (peer_from_id [1]) 7 (muxer_new default_config))))))"
proof -
  let ?m = "register (peer_from_id [1]) 8 (snd (assign [1] 7 ''t'' (register (peer_from_id [1]) 7 (muxer_new default_config))))"
  have "resolve_topic [1] 7 ?m \<noteq> None" "waiting [1] 8 ?m"
    by (simp_all add: resolve_assign waiting_register peer_from_id_def)
  then show ?thesis using closed_connection_leaks [of "[1]" 7 ?m 8] by blast
qed

end
