(* ===== verification/Network.thy ===== *)
theory Network
  imports Overlay Muxer
begin

text \<open>
  The network object: \<open>network/src/network.rs\<close>.  It owns the topics, the muxer and the queue of commands
  that topics and the background thread send it, and routes between them.  Commands to the background
  thread are appended to \<open>runloop_out\<close>.  After a topic has handled an event, what it has sent is moved
  from its \<open>cmdtx\<close> to the end of the queue, which is the channel's other end.  \<open>None\<close> is a panic.

  The record \<open>net_env\<close> is the nondeterminism of one step: the time, the draws of each topic, the order
  in which hash maps are iterated, and the digest of a message.
\<close>

section \<open>State\<close>

datatype network_error = TopicAlreadyJoined string

record network =
  net_config :: config
  net_this :: addressable_peer
  runloop_out :: "runloop_command list"
  commands :: "command list"
  topics :: "(string, topic_inner) hash_map"
  mux :: muxer
  history :: "bytes expiring_set option"

record net_env =
  clock :: instant
  topic_world :: "string \<Rightarrow> world"
  topic_order :: "string list \<Rightarrow> string list"
  first_ip :: "ip_address list \<Rightarrow> ip_address"
  first_topic :: "string list \<Rightarrow> string"
  digest :: "string \<Rightarrow> action \<Rightarrow> bytes"

definition env_ok :: "net_env \<Rightarrow> bool" where
  "env_ok e \<longleftrightarrow> (\<forall>name. world_ok (topic_world e name)) \<and> (\<forall>xs. mset (topic_order e xs) = mset xs)"

section \<open>Operations\<close>

definition network_new :: "config \<Rightarrow> peer_id \<Rightarrow> network" where
  "network_new cfg p =
     \<lparr>net_config = cfg, net_this = \<lparr>peer_id = p, addresses = []\<rparr>, runloop_out = [], commands = [],
      topics = [], mux = muxer_new cfg, history = map_option es_new (dedupe_interval cfg)\<rparr>"

definition send_runloop :: "runloop_command \<Rightarrow> network \<Rightarrow> network" where
  "send_runloop c n = n\<lparr>runloop_out := runloop_out n @ [c]\<rparr>"

definition store_topic :: "string \<Rightarrow> topic_inner \<Rightarrow> network \<Rightarrow> network" where
  "store_topic name t n =
     n\<lparr>topics := AList.update name (t\<lparr>cmdtx := []\<rparr>) (topics n), commands := commands n @ cmdtx t\<rparr>"

definition join :: "net_env \<Rightarrow> topic_config \<Rightarrow> network \<Rightarrow> (network_error + unit) \<times> network" where
  "join e tc n =
     (if map_of (topics n) (topic_name tc) \<noteq> None then (Inl (TopicAlreadyJoined (topic_name tc)), n)
      else
        (Inr (),
         store_topic (topic_name tc)
           (topic_new (topic_world e (topic_name tc)) tc (net_config n) (net_this n)) n))"

definition inject_topic :: "net_env \<Rightarrow> string \<Rightarrow> topic_event \<Rightarrow> network \<Rightarrow> network option" where
  "inject_topic e name ev n =
     do {
       t \<leftarrow> map_of (topics n) name;
       t \<leftarrow> inject_event (topic_world e name) ev t;
       Some (store_topic name t n)
     }"

fun inject_topics :: "net_env \<Rightarrow> string list \<Rightarrow> topic_event \<Rightarrow> network \<Rightarrow> network option" where
  "inject_topics e [] ev n = Some n"
| "inject_topics e (name # names) ev n = Option.bind (inject_topic e name ev n) (inject_topics e names ev)"

definition all_topics :: "net_env \<Rightarrow> network \<Rightarrow> string list" where
  "all_topics e n = topic_order e (map fst (topics n))"

definition ban_peer :: "peer_id \<Rightarrow> network \<Rightarrow> network" where
  "ban_peer p = send_runloop (RBanPeer p)"

text \<open>\<open>if muxer.next_dial(..) { runloop.send_command(Connect) }\<close>\<close>

definition dial_next :: "net_env \<Rightarrow> multiaddr \<Rightarrow> string \<Rightarrow> network \<Rightarrow> bool \<times> network" where
  "dial_next e addr topic n =
     (let (ready, m) = next_dial (clock e) addr topic (mux n);
          n = n\<lparr>mux := m\<rparr> in
      if ready then (True, send_runloop (RConnect addr) n) else (False, n))"

definition begin_connect :: "net_env \<Rightarrow> multiaddr \<Rightarrow> string \<Rightarrow> network \<Rightarrow> network" where
  "begin_connect e addr topic n = snd (dial_next e addr topic (n\<lparr>mux := put_dial addr topic (mux n)\<rparr>))"

fun dial_first :: "net_env \<Rightarrow> multiaddr list \<Rightarrow> string \<Rightarrow> network \<Rightarrow> network" where
  "dial_first e [] topic n = n"
| "dial_first e (addr # addrs) topic n =
     (let (ready, n) = dial_next e addr topic n in if ready then n else dial_first e addrs topic n)"

definition complete_connect :: "net_env \<Rightarrow> addressable_peer \<Rightarrow> connection_id \<Rightarrow> connected_point \<Rightarrow> network \<Rightarrow> network option" where
  "complete_connect e p c endpoint n =
     (case endpoint of
        Dialer _ \<Rightarrow>
          (let (found, m) = match_dial (clock e) p c (mux n);
               n = n\<lparr>mux := m\<rparr> in
           case found of
             None \<Rightarrow> None
           | Some topic \<Rightarrow> inject_topic e topic (TPeerConnected p c) (dial_first e (addresses p) topic n))
      | Listener _ \<Rightarrow> Some (n\<lparr>mux := register p c (mux n)\<rparr>))"

definition begin_disconnect :: "peer_id \<Rightarrow> connection_id \<Rightarrow> network \<Rightarrow> network" where
  "begin_disconnect p c = send_runloop (RDisconnect p c)"

definition complete_disconnect :: "net_env \<Rightarrow> peer_id \<Rightarrow> connection_id \<Rightarrow> network \<Rightarrow> network option" where
  "complete_disconnect e p c n =
     do {
       n \<leftarrow> (case resolve_topic p c (mux n) of
              Some topic \<Rightarrow> inject_topic e topic (TPeerDisconnected p c) n
            | None \<Rightarrow> Some n);
       Some (n\<lparr>mux := mux_disconnect p c (mux n)\<rparr>)
     }"

definition append_local_address :: "net_env \<Rightarrow> multiaddr \<Rightarrow> network \<Rightarrow> network option" where
  "append_local_address e addr n =
     inject_topics e (all_topics e n) (TLocalAddressDiscovered addr)
       (n\<lparr>net_this := (net_this n)\<lparr>addresses := List.insert addr (addresses (net_this n))\<rparr>\<rparr>)"

definition seen_before :: "net_env \<Rightarrow> bytes \<Rightarrow> network \<Rightarrow> bool \<times> network" where
  "seen_before e h n =
     (case history n of
        None \<Rightarrow> (False, n)
      | Some hs \<Rightarrow> (let (dup, hs) = es_insert (clock e) h hs in (dup, n\<lparr>history := Some hs\<rparr>)))"

definition route_message :: "net_env \<Rightarrow> peer_id \<Rightarrow> connection_id \<Rightarrow> message \<Rightarrow> network \<Rightarrow> network option" where
  "route_message e from c msg n =
     (let (first, m) = assign from c (msg_topic msg) (mux n);
          n = n\<lparr>mux := m\<rparr> in
      do {
        n \<leftarrow> (case first of
               Some p \<Rightarrow> inject_topic e (msg_topic msg) (TPeerConnected p c) n
             | None \<Rightarrow> Some n);
        topic \<leftarrow> resolve_topic from c (mux n);
        if topic = msg_topic msg
        then inject_topic e (msg_topic msg) (TMessageReceived from msg c) n
        else Some (ban_peer from n)
      })"

definition accept_message :: "net_env \<Rightarrow> peer_id \<Rightarrow> connection_id \<Rightarrow> message \<Rightarrow> network \<Rightarrow> network option" where
  "accept_message e from c msg n =
     (if map_of (topics n) (msg_topic msg) = None then Some (send_runloop (RDisconnect from c) n)
      else
        let (h, msg) = message_hash (digest e) msg;
            (dup, n) = seen_before e h n in
        if dup then Some n else route_message e from c msg n)"

definition net_inject_event :: "net_env \<Rightarrow> behaviour_event \<Rightarrow> network \<Rightarrow> network option" where
  "net_inject_event e ev n =
     (case ev of
        MessageReceived from c msg \<Rightarrow> accept_message e from c msg n
      | LocalAddressDiscovered addr \<Rightarrow> append_local_address e addr n
      | ConnectionEstablished p endpoint c \<Rightarrow> complete_connect e p c endpoint n
      | ConnectionClosed p c \<Rightarrow> complete_disconnect e p c n)"

definition network_tick :: "net_env \<Rightarrow> network \<Rightarrow> network option" where
  "network_tick e n =
     do {
       n \<leftarrow> inject_topics e (all_topics e n) TTick n;
       let n = n\<lparr>mux := mux_prune_expired (clock e) (mux n),
                 history := map_option (es_prune_expired (clock e)) (history n)\<rparr>;
       Some (case poll_dial (first_ip e) (first_topic e) (mux n) of
               Some (topic, addr) \<Rightarrow> snd (dial_next e addr topic n)
             | None \<Rightarrow> n)
     }"

definition handle_command :: "net_env \<Rightarrow> command \<Rightarrow> network \<Rightarrow> network option" where
  "handle_command e cmd n =
     (case cmd of
        Connect addr topic \<Rightarrow> Some (begin_connect e addr topic n)
      | Disconnect p c \<Rightarrow> Some (begin_disconnect p c n)
      | SendMessage p c msg \<Rightarrow> Some (send_runloop (RSendMessage p c msg) n)
      | BanPeer p \<Rightarrow> Some (ban_peer p n)
      | InjectEvent ev \<Rightarrow> net_inject_event e ev n)"

text \<open>One poll of the network: the tick has priority, otherwise the oldest command is handled; with an
  empty queue the poll is pending and changes nothing.\<close>

definition poll_next :: "net_env \<Rightarrow> bool \<Rightarrow> network \<Rightarrow> network option" where
  "poll_next e tick_ready n =
     (if tick_ready then network_tick e n
      else case commands n of
             [] \<Rightarrow> Some n
           | cmd # rest \<Rightarrow> handle_command e cmd (n\<lparr>commands := rest\<rparr>))"

section \<open>Invariant\<close>

definition topic_stored :: "network \<Rightarrow> string \<Rightarrow> topic_inner \<Rightarrow> bool" where
  "topic_stored n name t \<longleftrightarrow> topic_name (t_config t) = name \<and> network_config t = net_config n \<and> topic_inv t"

definition net_inv :: "network \<Rightarrow> bool" where
  "net_inv n \<longleftrightarrow> usable (net_config n)
     \<and> (\<forall>name t. map_of (topics n) name = Some t \<longrightarrow> topic_stored n name t)
     \<and> mux_topics (mux n) \<subseteq> dom (map_of (topics n))
     \<and> (\<forall>addr topic. Connect addr topic \<in> set (commands n) \<longrightarrow> topic \<in> dom (map_of (topics n)))"

text \<open>A step that keeps the muxer, the settings and the set of joined topics, and only appends commands
  that are not events to the queue.\<close>

definition queues :: "network \<Rightarrow> network \<Rightarrow> bool" where
  "queues n n' \<longleftrightarrow> (\<exists>cs. commands n' = commands n @ cs \<and> (\<forall>ev. InjectEvent ev \<notin> set cs))"

interpretation queues: state_preorder queues
proof
  show "queues n n" for n by (simp add: queues_def)
  show "queues n n1 \<Longrightarrow> queues n1 n2 \<Longrightarrow> queues n n2" for n n1 n2 by (fastforce simp: queues_def)
qed

definition same_routing :: "network \<Rightarrow> network \<Rightarrow> bool" where
  "same_routing n n' \<longleftrightarrow> mux n' = mux n \<and> net_config n' = net_config n \<and> queues n n'
     \<and> dom (map_of (topics n')) = dom (map_of (topics n)) \<and> (net_inv n \<longrightarrow> net_inv n')"

interpretation same_routing: state_preorder same_routing
  by unfold_locales (auto simp: same_routing_def queues.rel_refl intro: queues.rel_trans)

lemma same_routing_runloop: "same_routing n (send_runloop c n)"
  by (simp add: same_routing_def send_runloop_def net_inv_def topic_stored_def queues_def)

lemma command_topic: "list_all (command_ok tc nc) cs \<Longrightarrow> Connect addr topic \<in> set cs \<Longrightarrow> topic = topic_name tc"
  by (auto simp: list_all_iff)

lemma topic_inv_drain: "topic_inv t \<Longrightarrow> topic_inv (t\<lparr>cmdtx := []\<rparr>)"
  by (simp add: topic_inv_def views_ok_def)

lemma store_topic_routing:
  assumes "topic_stored n name t" "name \<in> dom (map_of (topics n))"
  shows "same_routing n (store_topic name t n)"
proof -
  have stored: "topic_stored n name (t\<lparr>cmdtx := []\<rparr>)"
    using assms(1) topic_inv_drain by (simp add: topic_stored_def)
  have "topic = name" if "Connect addr topic \<in> set (cmdtx t)" for addr topic
    using assms(1) that by (auto simp: topic_stored_def topic_inv_def dest: command_topic)
  moreover have "queues n (store_topic name t n)"
    using assms(1) by (auto simp: queues_def store_topic_def topic_stored_def topic_inv_def list_all_iff)
  moreover note stored assms(2)
  ultimately show ?thesis
    by (auto simp: same_routing_def net_inv_def store_topic_def update_conv' topic_stored_def split: if_splits)
qed

lemma inject_topic_ok:
  assumes "env_ok e" "net_inv n" "name \<in> dom (map_of (topics n))"
    "\<And>p msg c. ev = TMessageReceived p msg c \<Longrightarrow> msg_topic msg = name"
  obtains n' where "inject_topic e name ev n = Some n'" "same_routing n n'"
proof -
  obtain t where t: "map_of (topics n) name = Some t" "topic_stored n name t"
    using assms(2,3) by (auto simp: net_inv_def)
  then have "addressed t ev" using assms(4) by (auto simp: addressed_def topic_stored_def split: topic_event.splits)
  moreover have "usable (network_config t)" using t(2) assms(2) by (simp add: net_inv_def topic_stored_def)
  ultimately have "safe t (inject_event (topic_world e name) ev t)"
    using assms(1) by (intro safe_inject_event) (simp_all add: env_ok_def)
  then obtain u where u: "inject_event (topic_world e name) ev t = Some u" "evolves t u"
    using t(2) by (auto simp: safe_def topic_stored_def)
  then have "topic_stored n name u" using t(2) by (auto simp: topic_stored_def evolves_def)
  from store_topic_routing [OF this assms(3)] that t(1) u(1) show ?thesis by (auto simp: inject_topic_def)
qed

section \<open>Steps of the network\<close>

text \<open>\<open>routes\<close>: the invariant is kept, no connection that is tracked is lost.\<close>

definition routes :: "network \<Rightarrow> network \<Rightarrow> bool" where
  "routes n n' \<longleftrightarrow> net_config n' = net_config n \<and> queues n n' \<and> dom (map_of (topics n')) = dom (map_of (topics n))
     \<and> (\<forall>p c. tracked p c (mux n) \<longrightarrow> tracked p c (mux n')) \<and> (net_inv n \<longrightarrow> net_inv n')"

interpretation routes: state_preorder routes
  by unfold_locales (auto simp: routes_def queues.rel_refl intro: queues.rel_trans)

lemma same_routing_routes: "same_routing n n' \<Longrightarrow> routes n n'"
  by (simp add: same_routing_def routes_def)

lemma routes_mux:
  assumes "mux_topics m \<subseteq> dom (map_of (topics n)) \<or> mux_topics m \<subseteq> mux_topics (mux n)"
    "\<And>p c. tracked p c (mux n) \<Longrightarrow> tracked p c m"
  shows "routes n (n\<lparr>mux := m\<rparr>)"
  using assms by (auto simp: routes_def net_inv_def topic_stored_def queues_def)

lemma tracked_next_dial [simp]: "tracked p c (snd (next_dial tm addr topic m)) = tracked p c m"
proof -
  have "assigned (snd (next_dial tm addr topic m)) = assigned m" "unassigned (snd (next_dial tm addr topic m)) = unassigned m"
    by (auto simp: next_dial_def Let_def split: option.splits)
  then show ?thesis by (simp add: tracked_def resolve_topic_def waiting_def)
qed

lemma tracked_put_dial [simp]: "tracked p c (put_dial addr topic m) = tracked p c m"
proof -
  have "assigned (put_dial addr topic m) = assigned m" "unassigned (put_dial addr topic m) = unassigned m"
    by (auto simp: put_dial_def split: option.splits)
  then show ?thesis by (simp add: tracked_def resolve_topic_def waiting_def)
qed

lemma routes_dial_next: "routes n (snd (dial_next e addr topic n))"
proof -
  have "mux_topics (snd (next_dial (clock e) addr topic (mux n))) \<subseteq> mux_topics (mux n)"
    using next_dial_topics [of "clock e" addr topic "mux n"] by (auto simp: mux_topics_def mux_topics_ops)
  then have "routes n (n\<lparr>mux := snd (next_dial (clock e) addr topic (mux n))\<rparr>)" by (intro routes_mux) simp_all
  then show ?thesis
    by (auto simp: dial_next_def Let_def split_beta intro: routes.rel_trans same_routing_routes same_routing_runloop)
qed

lemma routes_dial_first: "routes n (dial_first e addrs topic n)"
  by (induction addrs arbitrary: n)
    (auto simp: Let_def split_beta routes.rel_refl routes_dial_next intro: routes.rel_trans [OF routes_dial_next])

lemma routes_begin_connect:
  assumes "topic \<in> dom (map_of (topics n))"
  shows "routes n (begin_connect e addr topic n)"
proof -
  have "mux_topics (put_dial addr topic (mux n)) \<subseteq> insert topic (mux_topics (mux n))"
    using put_dial_topics [of addr topic "mux n"] by (auto simp: mux_topics_def mux_topics_ops)
  then have "routes n (n\<lparr>mux := put_dial addr topic (mux n)\<rparr>)"
    using assms by (auto simp: routes_def net_inv_def topic_stored_def queues_def)
  then show ?thesis unfolding begin_connect_def by (rule routes.rel_trans) (rule routes_dial_next)
qed

lemma inject_topics_ok:
  assumes "env_ok e" "net_inv n" "set names \<subseteq> dom (map_of (topics n))" "\<And>p msg c. ev \<noteq> TMessageReceived p msg c"
  obtains n' where "inject_topics e names ev n = Some n'" "routes n n'"
proof -
  have "\<exists>n'. inject_topics e names ev n = Some n' \<and> routes n n'"
    using assms(2,3)
  proof (induction names arbitrary: n)
    case Nil
    then show ?case by (simp add: routes.rel_refl)
  next
    case (Cons name names)
    obtain n1 where n1: "inject_topic e name ev n = Some n1" "same_routing n n1"
      using inject_topic_ok [OF assms(1) Cons.prems(1), of name ev] Cons.prems(2) assms(4) by auto
    then have "net_inv n1" "set names \<subseteq> dom (map_of (topics n1))" using Cons.prems by (auto simp: same_routing_def)
    from Cons.IH [OF this] obtain n2 where "inject_topics e names ev n1 = Some n2" "routes n1 n2" by blast
    with n1 show ?case by (auto intro: routes.rel_trans same_routing_routes)
  qed
  with that show ?thesis by blast
qed

lemma all_topics_dom: "env_ok e \<Longrightarrow> set (all_topics e n) = dom (map_of (topics n))"
  unfolding env_ok_def all_topics_def dom_map_of_conv_image_fst by (metis list.set_map mset_eq_setD)

lemma append_local_address_ok:
  assumes "env_ok e" "net_inv n"
  obtains n' where "append_local_address e addr n = Some n'" "routes n n'"
proof -
  let ?n = "n\<lparr>net_this := (net_this n)\<lparr>addresses := List.insert addr (addresses (net_this n))\<rparr>\<rparr>"
  have r: "routes n ?n" by (simp add: routes_def net_inv_def topic_stored_def queues_def)
  obtain n' where "inject_topics e (all_topics e n) (TLocalAddressDiscovered addr) ?n = Some n'" "routes ?n n'"
    by (rule inject_topics_ok [OF assms(1), of ?n "all_topics e n" "TLocalAddressDiscovered addr"])
      (use r assms in \<open>auto simp: routes_def all_topics_dom\<close>)
  with that r show ?thesis by (auto simp: append_local_address_def intro: routes.rel_trans)
qed

lemma network_tick_ok:
  assumes "env_ok e" "net_inv n"
  obtains n' where "network_tick e n = Some n'" "routes n n'"
proof -
  obtain n1 where n1: "inject_topics e (all_topics e n) TTick n = Some n1" "routes n n1"
    using inject_topics_ok [OF assms, of "all_topics e n" TTick] assms(1) by (auto simp: all_topics_dom)
  let ?n2 = "n1\<lparr>mux := mux_prune_expired (clock e) (mux n1), history := map_option (es_prune_expired (clock e)) (history n1)\<rparr>"
  have "tracked p c (mux_prune_expired (clock e) (mux n1)) = tracked p c (mux n1)" for p c
    by (simp add: tracked_def mux_prune_expired_def)
  then have "routes n1 ?n2"
    using mux_topics_ops(6) [of "clock e" "mux n1"] by (auto simp: routes_def net_inv_def topic_stored_def queues_def)
  then have "routes n (case poll_dial (first_ip e) (first_topic e) (mux ?n2) of
      Some (topic, addr) \<Rightarrow> snd (dial_next e addr topic ?n2) | None \<Rightarrow> ?n2)"
    using n1(2) routes_dial_next by (auto split: option.splits intro: routes.rel_trans)
  moreover have "network_tick e n = Some (case poll_dial (first_ip e) (first_topic e) (mux ?n2) of
      Some (topic, addr) \<Rightarrow> snd (dial_next e addr topic ?n2) | None \<Rightarrow> ?n2)"
    using n1(1) by (simp add: network_tick_def Let_def)
  ultimately show ?thesis using that by blast
qed

lemma complete_connect_listener: "complete_connect e p c (Listener a) n = Some (n\<lparr>mux := register p c (mux n)\<rparr>)"
  by (simp add: complete_connect_def)

lemma routes_register: "routes n (n\<lparr>mux := register p c (mux n)\<rparr>)"
  by (intro routes_mux) (auto simp: mux_topics_ops tracked_def waiting_register)

lemma complete_connect_dialer:
  assumes "env_ok e" "net_inv n"
    "a \<in> set (addresses p)" "ip_of a = Some ip" "em_get (clock e) ip (ongoing_dials (mux n)) \<noteq> None"
  obtains n' where "complete_connect e p c (Dialer b) n = Some n'" "routes n n'" "tracked (peer_id p) c (mux n')"
proof -
  obtain found m where m: "match_dial (clock e) p c (mux n) = (found, m)" by fastforce
  have "found \<noteq> None"
    using match_dial_loop_spec [where now = "clock e" and p = "peer_id p" and c = c and addrs = "addresses p" and m = "mux n"]
      m assms(3-5) by (auto simp: match_dial_def split: option.splits)
  then obtain topic where f: "found = Some topic" by blast
  note facts = match_dial_topics [OF m]
  have r1: "routes n (n\<lparr>mux := m\<rparr>)" using facts(1,3) by (intro routes_mux) auto
  let ?n1 = "dial_first e (addresses p) topic (n\<lparr>mux := m\<rparr>)"
  have r2: "routes (n\<lparr>mux := m\<rparr>) ?n1" by (rule routes_dial_first)
  have "topic \<in> dom (map_of (topics n))" using facts(2) [OF f] assms(2) by (auto simp: net_inv_def)
  then have "topic \<in> dom (map_of (topics ?n1))" "net_inv ?n1" using r1 r2 assms(2) by (auto simp: routes_def)
  then obtain n2 where n2: "inject_topic e topic (TPeerConnected p c) ?n1 = Some n2" "same_routing ?n1 n2"
    using inject_topic_ok [OF assms(1), of ?n1 topic "TPeerConnected p c"] by auto
  have "tracked (peer_id p) c m" using facts(4) f by simp
  then have "tracked (peer_id p) c (mux n2)" using r2 n2(2) by (auto simp: routes_def same_routing_def)
  moreover have "routes n n2" using r1 r2 same_routing_routes [OF n2(2)] by (blast intro: routes.rel_trans)
  moreover have "complete_connect e p c (Dialer b) n = Some n2" using m f n2(1) by (simp add: complete_connect_def Let_def)
  ultimately show ?thesis using that by blast
qed

lemma complete_disconnect_ok:
  assumes "env_ok e" "net_inv n"
  obtains n' where "complete_disconnect e p c n = Some n'" "net_inv n'" "queues n n'"
    "\<forall>p' c'. tracked p' c' (mux n) \<and> (p', c') \<noteq> (p, c) \<longrightarrow> tracked p' c' (mux n')"
proof -
  obtain n1 where n1: "(case resolve_topic p c (mux n) of
      Some topic \<Rightarrow> inject_topic e topic (TPeerDisconnected p c) n | None \<Rightarrow> Some n) = Some n1" "same_routing n n1"
  proof (cases "resolve_topic p c (mux n)")
    case None
    then show ?thesis using that same_routing.rel_refl by simp
  next
    case (Some topic)
    then have "topic \<in> mux_topics (mux n)" by (auto simp: mux_topics_def assigned_topics_def)
    then have "topic \<in> dom (map_of (topics n))" using assms(2) by (auto simp: net_inv_def)
    then show ?thesis using inject_topic_ok [OF assms, of topic "TPeerDisconnected p c"] Some that by auto
  qed
  let ?n2 = "n1\<lparr>mux := mux_disconnect p c (mux n1)\<rparr>"
  have inv: "net_inv n1" "mux n1 = mux n" "queues n n1" using n1(2) assms(2) by (auto simp: same_routing_def)
  then have "net_inv ?n2" using mux_topics_ops(4) [of p c "mux n1"] by (auto simp: net_inv_def topic_stored_def)
  moreover have "\<forall>p' c'. tracked p' c' (mux n) \<and> (p', c') \<noteq> (p, c) \<longrightarrow> tracked p' c' (mux ?n2)"
    using inv(2) by (auto simp: tracked_def resolve_disconnect waiting_disconnect)
  moreover have "complete_disconnect e p c n = Some ?n2" using n1(1) by (simp add: complete_disconnect_def)
  moreover have "queues n ?n2" using inv(3) by (simp add: queues_def)
  ultimately show ?thesis using that by blast
qed

lemma tracked_assign: "tracked p' c' (snd (assign p c topic m)) = tracked p' c' m"
  by (auto simp: tracked_def resolve_assign waiting_assign)

lemma route_message_ok:
  assumes "env_ok e" "net_inv n" "tracked from c (mux n)" "msg_topic msg \<in> dom (map_of (topics n))"
  obtains n' where "route_message e from c msg n = Some n'" "routes n n'"
proof -
  obtain first m where m: "assign from c (msg_topic msg) (mux n) = (first, m)" by fastforce
  then have m': "m = snd (assign from c (msg_topic msg) (mux n))" by simp
  have "mux_topics m \<subseteq> insert (msg_topic msg) (mux_topics (mux n))" unfolding m' by (rule mux_topics_ops)
  then have r1: "routes n (n\<lparr>mux := m\<rparr>)"
    using assms(4) by (auto simp: routes_def net_inv_def topic_stored_def queues_def m' tracked_assign)
  obtain n1 where n1: "(case first of Some p \<Rightarrow> inject_topic e (msg_topic msg) (TPeerConnected p c) (n\<lparr>mux := m\<rparr>)
      | None \<Rightarrow> Some (n\<lparr>mux := m\<rparr>)) = Some n1" "same_routing (n\<lparr>mux := m\<rparr>) n1"
  proof (cases first)
    case None
    then show ?thesis using that same_routing.rel_refl by simp
  next
    case (Some p)
    have "net_inv (n\<lparr>mux := m\<rparr>)" using r1 assms(2) by (simp add: routes_def)
    then show ?thesis
      using inject_topic_ok [OF assms(1), of "n\<lparr>mux := m\<rparr>" "msg_topic msg" "TPeerConnected p c"] assms(4) Some that by auto
  qed
  then have r: "routes n n1" using r1 same_routing_routes by (blast intro: routes.rel_trans)
  have "resolve_topic from c m \<noteq> None"
    using assms(3) by (auto simp: m' tracked_def resolve_assign)
  then obtain topic where topic: "resolve_topic from c (mux n1) = Some topic" using n1(2) by (auto simp: same_routing_def)
  show ?thesis
  proof (cases "topic = msg_topic msg")
    case True
    have inv: "net_inv n1" "msg_topic msg \<in> dom (map_of (topics n1))" using r assms(2,4) by (simp_all add: routes_def)
    obtain n2 where n2: "inject_topic e (msg_topic msg) (TMessageReceived from msg c) n1 = Some n2" "same_routing n1 n2"
      by (rule inject_topic_ok [OF assms(1) inv, of "TMessageReceived from msg c"]) (simp, erule that, assumption)
    have "route_message e from c msg n = Some n2"
      using m n1(1) topic True n2(1) by (simp add: route_message_def Let_def)
    with routes.rel_trans [OF r same_routing_routes [OF n2(2)]] that show ?thesis by blast
  next
    case False
    then have "route_message e from c msg n = Some (ban_peer from n1)"
      using m n1(1) topic by (simp add: route_message_def Let_def)
    moreover have "routes n1 (ban_peer from n1)" unfolding ban_peer_def by (rule same_routing_routes [OF same_routing_runloop])
    ultimately show ?thesis using routes.rel_trans [OF r] that by blast
  qed
qed

lemma routes_history: "routes n (n\<lparr>history := h\<rparr>)"
  by (simp add: routes_def net_inv_def topic_stored_def queues_def)

lemma seen_before_routes: "routes n (snd (seen_before e h n))"
  by (auto simp: seen_before_def Let_def split_beta routes.rel_refl routes_history split: option.splits)

lemma accept_message_ok:
  assumes "env_ok e" "net_inv n" "tracked from c (mux n)"
  obtains n' where "accept_message e from c msg n = Some n'" "routes n n'"
proof (cases "map_of (topics n) (msg_topic msg)")
  case None
  then show ?thesis using that same_routing_routes [OF same_routing_runloop] by (simp add: accept_message_def)
next
  case (Some t)
  obtain h msg1 where h: "message_hash (digest e) msg = (h, msg1)" by fastforce
  then have topic: "msg_topic msg1 = msg_topic msg" using message_hash_fields(1) [of "digest e" msg] by simp
  obtain dup n1 where n1: "seen_before e h n = (dup, n1)" by fastforce
  then have r: "routes n n1" using seen_before_routes [of n e h] by simp
  then have "net_inv n1" "tracked from c (mux n1)" "msg_topic msg1 \<in> dom (map_of (topics n1))"
    using assms Some topic by (auto simp: routes_def)
  then obtain n2 where "route_message e from c msg1 n1 = Some n2" "routes n1 n2" by (rule route_message_ok [OF assms(1)])
  with r Some h n1 that show ?thesis
    by (cases dup) (auto simp: accept_message_def Let_def intro: routes.rel_trans)
qed

section \<open>Reachable states\<close>

text \<open>What libp2p documents about a connection: a message arrives after the connection was reported as
  established and before it is reported as closed.  The events wait in the queue, so the contract is
  about the connections open when an event is put there, and the queue must be consistent with the
  connections the muxer tracks when it is worked off.\<close>

fun event_after :: "(peer_id \<times> connection_id) set \<Rightarrow> command \<Rightarrow> (peer_id \<times> connection_id) set" where
  "event_after T (InjectEvent (ConnectionEstablished p _ c)) = insert (peer_id p, c) T"
| "event_after T (InjectEvent (ConnectionClosed p c)) = T - {(p, c)}"
| "event_after T _ = T"

fun event_fits :: "(peer_id \<times> connection_id) set \<Rightarrow> command \<Rightarrow> bool" where
  "event_fits T (InjectEvent (MessageReceived p c _)) = ((p, c) \<in> T)"
| "event_fits T _ = True"

fun queue_ok :: "(peer_id \<times> connection_id) set \<Rightarrow> command list \<Rightarrow> bool" where
  "queue_ok T [] = True"
| "queue_ok T (c # cs) = (event_fits T c \<and> queue_ok (event_after T c) cs)"

lemma event_after_mono: "T \<subseteq> T' \<Longrightarrow> event_after T c \<subseteq> event_after T' c"
  by (cases "(T, c)" rule: event_after.cases) auto

lemma event_fits_mono: "T \<subseteq> T' \<Longrightarrow> event_fits T c \<Longrightarrow> event_fits T' c"
  by (cases "(T, c)" rule: event_fits.cases) auto

lemma queue_ok_mono: "T \<subseteq> T' \<Longrightarrow> queue_ok T cs \<Longrightarrow> queue_ok T' cs"
  by (induction cs arbitrary: T T') (auto intro: event_fits_mono dest: event_after_mono)

lemma foldl_after_mono: "T \<subseteq> T' \<Longrightarrow> foldl event_after T cs \<subseteq> foldl event_after T' cs"
  by (induction cs arbitrary: T T') (auto dest: event_after_mono)

lemma queue_ok_append: "queue_ok T (cs @ ds) \<longleftrightarrow> queue_ok T cs \<and> queue_ok (foldl event_after T cs) ds"
  by (induction cs arbitrary: T) auto

lemma no_events:
  assumes "\<forall>ev. InjectEvent ev \<notin> set cs"
  shows "queue_ok T cs" "foldl event_after T cs = T"
proof -
  have "event_fits T c \<and> event_after T c = T" if "c \<in> set cs" for c
    using assms that by (cases c) auto
  then show "queue_ok T cs" "foldl event_after T cs = T" by (induction cs) auto
qed

definition connections :: "network \<Rightarrow> (peer_id \<times> connection_id) set" where
  "connections n = {(p, c). tracked p c (mux n)}"

inductive net_reach :: "config \<Rightarrow> peer_id \<Rightarrow> network \<Rightarrow> (peer_id \<times> connection_id) set \<Rightarrow> bool" for cfg self where
  start: "net_reach cfg self (network_new cfg self) {}"
| joined: "net_reach cfg self n opened \<Longrightarrow> net_reach cfg self (snd (join e tc n)) opened"
| delivered: "net_reach cfg self n opened \<Longrightarrow> event_fits opened (InjectEvent ev) \<Longrightarrow>
    net_reach cfg self (n\<lparr>commands := commands n @ [InjectEvent ev]\<rparr>) (event_after opened (InjectEvent ev))"
| polled: "net_reach cfg self n opened \<Longrightarrow> env_ok e \<Longrightarrow> poll_next e tick n = Some n' \<Longrightarrow> net_reach cfg self n' opened"

definition reach_inv :: "network \<Rightarrow> (peer_id \<times> connection_id) set \<Rightarrow> bool" where
  "reach_inv n opened \<longleftrightarrow> net_inv n \<and> queue_ok (connections n) (commands n)
     \<and> opened \<subseteq> foldl event_after (connections n) (commands n)"

lemma reach_inv_step:
  assumes "net_inv n'" "queues n n'" "T \<subseteq> connections n'" "queue_ok T (commands n)" "opened \<subseteq> foldl event_after T (commands n)"
  shows "reach_inv n' opened"
proof -
  obtain cs where cs: "commands n' = commands n @ cs" "\<forall>ev. InjectEvent ev \<notin> set cs" using assms(2) by (auto simp: queues_def)
  have "opened \<subseteq> foldl event_after (connections n') (commands n)"
    using assms(5) foldl_after_mono [OF assms(3), of "commands n"] by blast
  with cs assms(1,4) show ?thesis
    by (simp add: reach_inv_def queue_ok_append no_events [OF cs(2)] queue_ok_mono [OF assms(3)])
qed

lemma reach_inv_routes: "routes n n' \<Longrightarrow> reach_inv n opened \<Longrightarrow> reach_inv n' opened"
  by (rule reach_inv_step [of n' n "connections n"]) (auto simp: routes_def reach_inv_def connections_def)

text \<open>A dial is completed too late: none of the peer's addresses has a dial that is still tracked.\<close>

definition late_dial :: "net_env \<Rightarrow> network \<Rightarrow> command \<Rightarrow> bool" where
  "late_dial e n c \<longleftrightarrow> (\<exists>p a k. c = InjectEvent (ConnectionEstablished p (Dialer a) k)
     \<and> (\<forall>b \<in> set (addresses p). \<forall>ip. ip_of b = Some ip \<longrightarrow> em_get (clock e) ip (ongoing_dials (mux n)) = None))"

lemma late_dial_panics:
  assumes "late_dial e n c"
  shows "handle_command e c n = None"
proof -
  obtain p a k where c: "c = InjectEvent (ConnectionEstablished p (Dialer a) k)"
    and late: "\<forall>b \<in> set (addresses p). \<forall>ip. ip_of b = Some ip \<longrightarrow> em_get (clock e) ip (ongoing_dials (mux n)) = None"
    using assms by (auto simp: late_dial_def)
  have "fst (match_dial (clock e) p k (mux n)) = None"
    using late match_dial_loop_spec [where now = "clock e" and p = "peer_id p" and c = k and addrs = "addresses p" and m = "mux n"]
    by (auto simp: match_dial_def split: option.splits)
  then show ?thesis by (simp add: c handle_command_def net_inject_event_def complete_connect_def Let_def split_beta)
qed

lemma handle_command_ok:
  assumes "env_ok e" "net_inv n" "event_fits (connections n) c" "\<not> late_dial e n c"
    "\<And>addr topic. c = Connect addr topic \<Longrightarrow> topic \<in> dom (map_of (topics n))"
  shows "\<exists>n'. handle_command e c n = Some n' \<and> net_inv n' \<and> queues n n' \<and> event_after (connections n) c \<subseteq> connections n'"
proof -
  have routed: "\<exists>n'. r = Some n' \<and> net_inv n' \<and> queues n n' \<and> connections n \<subseteq> connections n'"
    if "r = Some n'" "routes n n'" for r n'
    using that assms(2) by (auto simp: routes_def connections_def)
  have runloop: "routes n (send_runloop x n)" for x by (rule same_routing_routes [OF same_routing_runloop])
  show ?thesis
  proof (cases c)
    case (Connect addr topic)
    then show ?thesis using routed [OF _ routes_begin_connect [OF assms(5)]] by (simp add: handle_command_def)
  next
    case (Disconnect p k)
    then show ?thesis using routed [OF _ runloop] by (simp add: handle_command_def begin_disconnect_def)
  next
    case (SendMessage p k msg)
    then show ?thesis using routed [OF _ runloop] by (simp add: handle_command_def)
  next
    case (BanPeer p)
    then show ?thesis using routed [OF _ runloop] by (simp add: handle_command_def ban_peer_def)
  next
    case ev: (InjectEvent ev)
    show ?thesis
    proof (cases ev)
      case (LocalAddressDiscovered addr)
      obtain n' where "append_local_address e addr n = Some n'" "routes n n'"
        by (rule append_local_address_ok [OF assms(1,2)])
      then show ?thesis using routed ev LocalAddressDiscovered by (simp add: handle_command_def net_inject_event_def)
    next
      case (ConnectionEstablished p ep k)
      show ?thesis
      proof (cases ep)
        case (Dialer a)
        then obtain b ip where "b \<in> set (addresses p)" "ip_of b = Some ip" "em_get (clock e) ip (ongoing_dials (mux n)) \<noteq> None"
          using assms(4) ev ConnectionEstablished by (auto simp: late_dial_def)
        then obtain n' where "complete_connect e p k (Dialer a) n = Some n'" "routes n n'" "tracked (peer_id p) k (mux n')"
          by (rule complete_connect_dialer [OF assms(1,2)])
        then show ?thesis using ev ConnectionEstablished Dialer assms(2)
          by (auto simp: handle_command_def net_inject_event_def routes_def connections_def)
      next
        case (Listener a)
        have "(peer_id p, k) \<in> connections (n\<lparr>mux := register p k (mux n)\<rparr>)"
          by (simp add: connections_def tracked_def waiting_register)
        then show ?thesis using ev ConnectionEstablished Listener assms(2) routes_register [of n p k]
          by (auto simp: handle_command_def net_inject_event_def complete_connect_listener routes_def connections_def)
      qed
    next
      case (ConnectionClosed p k)
      obtain n' where "complete_disconnect e p k n = Some n'" "net_inv n'" "queues n n'"
        "\<forall>p' c'. tracked p' c' (mux n) \<and> (p', c') \<noteq> (p, k) \<longrightarrow> tracked p' c' (mux n')"
        by (rule complete_disconnect_ok [OF assms(1,2)])
      then show ?thesis using ev ConnectionClosed by (auto simp: handle_command_def net_inject_event_def connections_def)
    next
      case (MessageReceived p k msg)
      then have "tracked p k (mux n)" using assms(3) ev by (simp add: connections_def)
      then obtain n' where "accept_message e p k msg n = Some n'" "routes n n'" by (rule accept_message_ok [OF assms(1,2)])
      then show ?thesis using routed ev MessageReceived by (simp add: handle_command_def net_inject_event_def)
    qed
  qed
qed

lemma net_inv_pop: "net_inv n \<Longrightarrow> commands n = c # cs \<Longrightarrow> net_inv (n\<lparr>commands := cs\<rparr>)"
  by (auto simp: net_inv_def topic_stored_def)

lemma poll_next_reach:
  assumes "env_ok e" "reach_inv n opened"
  shows "(if \<not> tick \<and> (\<exists>c cs. commands n = c # cs \<and> late_dial e n c) then poll_next e tick n = None
          else \<exists>n'. poll_next e tick n = Some n' \<and> reach_inv n' opened)"
proof (cases tick)
  case True
  obtain n' where "network_tick e n = Some n'" "routes n n'"
    using network_tick_ok [OF assms(1), of n] assms(2) by (auto simp: reach_inv_def)
  with True assms(2) reach_inv_routes show ?thesis by (auto simp: poll_next_def)
next
  case False
  show ?thesis
  proof (cases "commands n")
    case Nil
    then show ?thesis using assms(2) False by (simp add: poll_next_def)
  next
    case (Cons c cs)
    let ?n = "n\<lparr>commands := cs\<rparr>"
    have n: "connections ?n = connections n" "late_dial e ?n c = late_dial e n c" by (simp_all add: connections_def late_dial_def)
    have q: "event_fits (connections n) c" "queue_ok (event_after (connections n) c) cs"
      "opened \<subseteq> foldl event_after (event_after (connections n) c) cs" and inv: "net_inv ?n"
      using assms(2) Cons net_inv_pop by (auto simp: reach_inv_def)
    have poll: "poll_next e tick n = handle_command e c ?n" using False Cons by (simp add: poll_next_def)
    show ?thesis
    proof (cases "late_dial e n c")
      case True
      then show ?thesis using late_dial_panics [of e ?n c] n(2) poll False Cons by auto
    next
      case late: False
      have "topic \<in> dom (map_of (topics ?n))" if "c = Connect addr topic" for addr topic
        using that assms(2) Cons by (auto simp: reach_inv_def net_inv_def)
      then obtain n' where n': "handle_command e c ?n = Some n'" "net_inv n'" "queues ?n n'" "event_after (connections n) c \<subseteq> connections n'"
        using handle_command_ok [OF assms(1) inv] q(1) late n by metis
      have "reach_inv n' opened" using reach_inv_step [OF n'(2,3,4)] q by simp
      then show ?thesis using n'(1) poll late Cons by auto
    qed
  qed
qed

lemma reach_inv_join:
  assumes "reach_inv n opened"
  shows "reach_inv (snd (join e tc n)) opened"
proof (cases "map_of (topics n) (topic_name tc)")
  case None
  let ?t = "topic_new (topic_world e (topic_name tc)) tc (net_config n) (net_this n)"
  have stored: "topic_stored n (topic_name tc) (?t\<lparr>cmdtx := []\<rparr>)"
    using topic_inv_drain [OF topic_new_inv] by (simp add: topic_stored_def)
  have cmds: "cmdtx ?t = map (\<lambda>addr. Connect addr (topic_name tc)) (bootstrap tc)" by (simp add: topic_new_def Let_def)
  have "net_inv (store_topic (topic_name tc) ?t n)"
    using assms stored
    by (auto simp: reach_inv_def net_inv_def store_topic_def cmds update_conv' topic_stored_def split: if_splits)
  moreover have "queues n (store_topic (topic_name tc) ?t n)" by (auto simp: queues_def store_topic_def cmds)
  moreover have "connections (store_topic (topic_name tc) ?t n) = connections n" by (simp add: connections_def store_topic_def)
  ultimately have "reach_inv (store_topic (topic_name tc) ?t n) opened"
    using assms by (intro reach_inv_step [of _ n "connections n"]) (auto simp: reach_inv_def)
  then show ?thesis using None by (simp add: join_def)
qed (use assms in \<open>simp add: join_def\<close>)

lemma net_reach_inv: "net_reach cfg self n opened \<Longrightarrow> usable cfg \<Longrightarrow> reach_inv n opened"
proof (induction rule: net_reach.induct)
  case start
  have "mux_topics (muxer_new cfg) = {}"
    by (auto simp: muxer_new_def mux_topics_def dial_topics_def assigned_topics_def resolve_topic_def em_new_def)
  with start show ?case by (simp add: reach_inv_def net_inv_def network_new_def)
next
  case (joined n opened e tc)
  then show ?case by (simp add: reach_inv_join)
next
  case (delivered n opened ev)
  then have inv: "reach_inv n opened" by simp
  let ?n = "n\<lparr>commands := commands n @ [InjectEvent ev]\<rparr>"
  have "net_inv ?n" "connections ?n = connections n"
    using inv by (auto simp: reach_inv_def net_inv_def topic_stored_def connections_def)
  moreover have "opened \<subseteq> foldl event_after (connections n) (commands n)" using inv by (simp add: reach_inv_def)
  from event_after_mono [OF this] event_fits_mono [OF this delivered.hyps(2)] inv calculation
  show ?case by (simp add: reach_inv_def queue_ok_append)
next
  case (polled n opened e tick n')
  then show ?case using poll_next_reach [of e n opened tick] by (auto split: if_splits)
qed

section \<open>Properties\<close>

text \<open>C5. The only panic of the network layer.  In every state reachable by joining topics, by events that
  respect the contract of the transport, and by polls, with any time, order and random draws, a poll
  panics exactly when the event at the head of the queue reports a completed dial none of whose
  addresses has a dial that is still tracked: none was made, or it took longer than the pending
  timeout.  In every other case the poll returns.\<close>

theorem network_panics_iff:
  assumes "usable cfg" "net_reach cfg self n opened" "env_ok e"
  shows "poll_next e tick n = None \<longleftrightarrow>
    \<not> tick \<and> (\<exists>p a k cs. commands n = InjectEvent (ConnectionEstablished p (Dialer a) k) # cs
      \<and> (\<forall>b \<in> set (addresses p). \<forall>ip. ip_of b = Some ip \<longrightarrow> em_get (clock e) ip (ongoing_dials (mux n)) = None))"
  using poll_next_reach [OF assms(3) net_reach_inv [OF assms(2,1)], of tick]
  by (auto simp: late_dial_def split: if_splits)

definition sample_net_env :: "instant \<Rightarrow> net_env" where
  "sample_net_env n = \<lparr>clock = n, topic_world = (\<lambda>_. sample_world n), topic_order = (\<lambda>xs. xs),
     first_ip = hd, first_topic = hd, digest = (\<lambda>name act. case act of Gossip b \<Rightarrow> b | _ \<Rightarrow> [])\<rparr>"

lemma sample_net_env_ok [simp]: "env_ok (sample_net_env n)"
  by (simp add: env_ok_def sample_net_env_def)

text \<open>A node that has dialed its bootstrap node at time 5.\<close>

definition dialing_network :: network where
  "dialing_network = begin_connect (sample_net_env 5) [Ip4 1] ''t''
     ((snd (join (sample_net_env 5) \<lparr>topic_name = ''t'', bootstrap = [[Ip4 1]]\<rparr> (network_new default_config [0])))\<lparr>commands := []\<rparr>)"

lemma dialing_commands:
  "commands (snd (join (sample_net_env 5) \<lparr>topic_name = ''t'', bootstrap = [[Ip4 1]]\<rparr> (network_new default_config [0])))
    = [Connect [Ip4 1] ''t'']"
  by (simp add: join_def network_new_def store_topic_def topic_new_def Let_def)

lemma dialing_reach: "net_reach default_config [0] dialing_network {}"
proof -
  let ?j = "snd (join (sample_net_env 5) \<lparr>topic_name = ''t'', bootstrap = [[Ip4 1]]\<rparr> (network_new default_config [0]))"
  have "poll_next (sample_net_env 5) False ?j = Some dialing_network"
    using dialing_commands by (simp add: poll_next_def handle_command_def dialing_network_def)
  then show ?thesis by (rule net_reach.polled [OF net_reach.joined [OF net_reach.start] sample_net_env_ok])
qed

lemma dialing_ongoing:
  "em_data (ongoing_dials (mux dialing_network)) = [(V4 1, ''t'', 5)]"
  "lifespan (ongoing_dials (mux dialing_network)) = 15 * 10 ^ 9" "commands dialing_network = []"
  by (simp_all add: dialing_network_def begin_connect_def dial_next_def join_def network_new_def store_topic_def send_runloop_def
      muxer_new_def put_dial_def next_dial_def ip_of_def sample_net_env_def em_contains_key_def em_get_def em_new_def
      em_insert_def Let_def split_beta)

theorem network_panics_iff_witness:
  "\<exists>n. net_reach default_config [0] n {([1], 7)}
     \<and> poll_next (sample_net_env (6 + 15 * 10 ^ 9)) False n = None
     \<and> poll_next (sample_net_env (5 + 15 * 10 ^ 9)) False n \<noteq> None"
proof -
  let ?ev = "InjectEvent (ConnectionEstablished (sample_peer 1) (Dialer [Ip4 1]) 7)"
  let ?n = "dialing_network\<lparr>commands := commands dialing_network @ [?ev]\<rparr>"
  have r: "net_reach default_config [0] ?n {([1], 7)}"
    using net_reach.delivered [OF dialing_reach, of "ConnectionEstablished (sample_peer 1) (Dialer [Ip4 1]) 7"]
    by (simp add: sample_peer_def)
  have get: "em_get t (V4 1) (ongoing_dials (mux ?n)) = (if t \<le> 5 + 15 * 10 ^ 9 then Some ''t'' else None)" for t
    by (auto simp: em_get_def dialing_ongoing elapsed_def)
  show ?thesis
    using network_panics_iff [OF default_usable r sample_net_env_ok, of "6 + 15 * 10 ^ 9" False]
      network_panics_iff [OF default_usable r sample_net_env_ok, of "5 + 15 * 10 ^ 9" False] get r
    by (auto simp: dialing_ongoing sample_peer_def ip_of_def sample_net_env_def)
qed

lemma inject_topic_fields:
  assumes "inject_topic e name ev n = Some n'"
  shows "history n' = history n" "map_of (topics n) x \<noteq> None \<Longrightarrow> map_of (topics n') x \<noteq> None"
  using assms by (auto simp: inject_topic_def store_topic_def update_conv' bind_eq_Some_conv)

lemma route_message_fields:
  assumes "route_message e from c msg n = Some n'"
  shows "history n' = history n" "map_of (topics n) x \<noteq> None \<Longrightarrow> map_of (topics n') x \<noteq> None"
proof -
  obtain first m where m: "assign from c (msg_topic msg) (mux n) = (first, m)" by fastforce
  let ?n = "n\<lparr>mux := m\<rparr>"
  obtain n1 topic where n1: "(case first of Some p \<Rightarrow> inject_topic e (msg_topic msg) (TPeerConnected p c) ?n | None \<Rightarrow> Some ?n) = Some n1"
    and n': "(if topic = msg_topic msg then inject_topic e (msg_topic msg) (TMessageReceived from msg c) n1 else Some (ban_peer from n1)) = Some n'"
    using assms m by (auto simp: route_message_def Let_def bind_eq_Some_conv)
  have 1: "history n1 = history n" "map_of (topics n) x \<noteq> None \<Longrightarrow> map_of (topics n1) x \<noteq> None"
    using n1 inject_topic_fields [of e "msg_topic msg" _ ?n n1] by (auto split: option.splits)
  have 2: "history n' = history n1" "map_of (topics n1) x \<noteq> None \<Longrightarrow> map_of (topics n') x \<noteq> None"
    using n' inject_topic_fields [of e "msg_topic msg" _ n1 n'] by (auto simp: ban_peer_def send_runloop_def split: if_splits)
  show "history n' = history n" "map_of (topics n) x \<noteq> None \<Longrightarrow> map_of (topics n') x \<noteq> None" using 1 2 by auto
qed



end
