(* ===== verification/Settings.thy ===== *)
theory Settings
  imports Network
begin

text \<open>
  How the programs enter the network: the settings of the development node and of the example
  (\<open>sdk/devnode/src/settings.rs\<close>, \<open>sdk/examples/pgqf/src/settings.rs\<close>) and their \<open>start_network\<close>
  (\<open>sdk/devnode/src/main.rs\<close>, \<open>sdk/examples/pgqf/src/io.rs\<close>).  Parsing the command line is the work of
  another crate; the defaults it fills in are the values below.  A \<open>Multiaddr\<close> with a port ends in the
  component \<open>tcp/<port>\<close>, as in \<open>Wire\<close>.
\<close>

fun decimal :: "nat \<Rightarrow> string" where
  "decimal n = (if n < 10 then [char_of (48 + n)] else decimal (n div 10) @ [char_of (48 + n mod 10)])"

declare decimal.simps [simp del]

definition tcp :: "u16 \<Rightarrow> protocol" where
  "tcp port = OtherProtocol (''tcp/'' @ decimal (unat port))"

definition ip_protocol :: "ip_address \<Rightarrow> protocol" where
  "ip_protocol a = (case a of V4 ip \<Rightarrow> Ip4 ip | V6 ip \<Rightarrow> Ip6 ip)"

section \<open>Settings\<close>

record pgqf_settings =
  network_id :: string
  p2p_port :: u16
  ip :: "ip_address list"
  peer :: "(ip_address \<times> u16) list"

definition pgqf_defaults :: pgqf_settings where
  "pgqf_defaults = \<lparr>network_id = ''localnet'', p2p_port = 44667, ip = [V4 0, V6 0], peer = []\<rparr>"

text \<open>\<open>peers\<close> collects into a \<open>HashSet\<close>: a list without repetition, in some order.\<close>

definition pgqf_peers :: "pgqf_settings \<Rightarrow> multiaddr list" where
  "pgqf_peers s = remdups (map (\<lambda>(a, port). [ip_protocol a, tcp port]) (peer s))"

definition p2p_addrs :: "ip_address list \<Rightarrow> u16 \<Rightarrow> multiaddr list" where
  "p2p_addrs ips port = map (\<lambda>a. [ip_protocol a, tcp port]) ips"

definition pgqf_p2p_addrs :: "pgqf_settings \<Rightarrow> multiaddr list" where
  "pgqf_p2p_addrs s = p2p_addrs (ip s) (p2p_port s)"

record node_settings =
  node_network_id :: string
  node_p2p_port :: u16
  rpc_port :: u16
  node_ip :: "ip_address list"
  block_time :: duration

definition node_defaults :: node_settings where
  "node_defaults = \<lparr>node_network_id = ''localnet'', node_p2p_port = 44668, rpc_port = 8080,
     node_ip = [V4 0, V6 0], block_time = 2 * 10 ^ 9\<rparr>"

definition node_p2p_addrs :: "node_settings \<Rightarrow> multiaddr list" where
  "node_p2p_addrs s = p2p_addrs (node_ip s) (node_p2p_port s)"

definition rpc_addrs :: "node_settings \<Rightarrow> (ip_address \<times> u16) list" where
  "rpc_addrs s = map (\<lambda>a. (a, rpc_port s)) (node_ip s)"

section \<open>Joining the topics\<close>

definition topic_path :: "string \<Rightarrow> string \<Rightarrow> string" where
  "topic_path net name = ''/'' @ net @ ''/'' @ name"

text \<open>\<open>network.join(..)?\<close> for a list of topics.\<close>

fun join_all :: "net_env \<Rightarrow> topic_config list \<Rightarrow> network \<Rightarrow> (network_error + unit) \<times> network" where
  "join_all e [] n = (Inr (), n)"
| "join_all e (tc # tcs) n =
     (case join e tc n of
        (Inl err, n) \<Rightarrow> (Inl err, n)
      | (Inr _, n) \<Rightarrow> join_all e tcs n)"

definition pgqf_start_network :: "net_env \<Rightarrow> peer_id \<Rightarrow> pgqf_settings \<Rightarrow> (network_error + unit) \<times> network" where
  "pgqf_start_network e self s =
     join_all e
       (map (\<lambda>name. \<lparr>topic_name = topic_path (network_id s) name, bootstrap = pgqf_peers s\<rparr>)
         [''transactions'', ''blocks'', ''intents''])
       (network_new (default_config\<lparr>listen_addrs := pgqf_p2p_addrs s\<rparr>) self)"

definition node_start_network :: "net_env \<Rightarrow> peer_id \<Rightarrow> node_settings \<Rightarrow> (network_error + unit) \<times> network" where
  "node_start_network e self s =
     join_all e
       (map (\<lambda>name. \<lparr>topic_name = topic_path (node_network_id s) name, bootstrap = []\<rparr>)
         [''transactions'', ''blocks''])
       (network_new (default_config\<lparr>listen_addrs := node_p2p_addrs s\<rparr>) self)"

section \<open>Lemmas\<close>

lemma decimal_inj: "decimal n = decimal m \<Longrightarrow> n = m"
proof (induction n arbitrary: m rule: decimal.induct)
  case (1 n)
  have digit: "a = b" if "char_of (48 + a) = (char_of (48 + b) :: char)" "a < 10" "b < 10" for a b :: nat
    using arg_cong [OF that(1), of "of_char :: char \<Rightarrow> nat"] that(2,3) by simp
  have ne: "decimal k \<noteq> []" for k by (subst decimal.simps) simp
  show ?case
  proof (cases "n < 10")
    case True
    with 1(2) ne [of "m div 10"] have "m < 10" "char_of (48 + n) = (char_of (48 + m) :: char)"
      by (auto simp: decimal.simps [of n] decimal.simps [of m] split: if_splits)
    then show ?thesis using digit True by blast
  next
    case False
    with 1(2) ne [of "n div 10"] have m: "\<not> m < 10" "decimal (n div 10) = decimal (m div 10)"
      and d: "char_of (48 + n mod 10) = (char_of (48 + m mod 10) :: char)"
      by (auto simp: decimal.simps [of n] decimal.simps [of m] split: if_splits)
    from 1(1) [OF False m(2)] have "n div 10 = m div 10" .
    moreover have "n mod 10 = m mod 10" using digit [OF d] by simp
    ultimately show ?thesis by (metis div_mult_mod_eq)
  qed
qed

lemma tcp_inj: "tcp p = tcp q \<longleftrightarrow> p = q"
  by (auto simp: tcp_def word_unat_eq_iff dest: decimal_inj)

text \<open>Distinct peers of the settings are distinct addresses.\<close>

lemma pgqf_peers_distinct: "distinct (peer s) \<Longrightarrow> length (pgqf_peers s) = length (peer s)"
proof -
  assume "distinct (peer s)"
  moreover have "inj_on (\<lambda>(a, port). [ip_protocol a, tcp port]) (set (peer s))"
    by (auto simp: inj_on_def tcp_inj ip_protocol_def split: ip_address.splits)
  ultimately have "distinct (map (\<lambda>(a, port). [ip_protocol a, tcp port]) (peer s))" by (simp add: distinct_map)
  then show ?thesis by (simp add: pgqf_peers_def distinct_remdups_id)
qed

lemma join_all_reach:
  "net_reach cfg self n opened \<Longrightarrow> net_reach cfg self (snd (join_all e tcs n)) opened"
proof (induction e tcs n rule: join_all.induct)
  case (2 e tc tcs n)
  then show ?case using net_reach.joined [OF 2(2), of e tc] by (auto split: prod.splits sum.splits)
qed simp

lemma join_all_topics:
  assumes "distinct (map topic_name tcs)" "\<And>tc. tc \<in> set tcs \<Longrightarrow> map_of (topics n) (topic_name tc) = None"
  shows "fst (join_all e tcs n) = Inr ()
    \<and> fst ` set (topics (snd (join_all e tcs n))) = topic_name ` set tcs \<union> fst ` set (topics n)
    \<and> commands (snd (join_all e tcs n))
        = commands n @ concat (map (\<lambda>tc. map (\<lambda>addr. Connect addr (topic_name tc)) (bootstrap tc)) tcs)"
  using assms
proof (induction tcs arbitrary: n)
  case (Cons tc tcs)
  let ?n = "snd (join e tc n)"
  have j: "join e tc n = (Inr (), store_topic (topic_name tc)
      (topic_new (topic_world e (topic_name tc)) tc (net_config n) (net_this n)) n)"
    using Cons.prems(2) by (simp add: join_def)
  have "map_of (topics ?n) (topic_name tc') = None" if "tc' \<in> set tcs" for tc'
  proof -
    have "topic_name tc \<noteq> topic_name tc'" using Cons.prems(1) that by (metis distinct.simps(2) imageI list.simps(9) set_map)
    with Cons.prems(2) that show ?thesis by (simp add: j store_topic_def update_conv')
  qed
  with Cons.IH [of ?n] Cons.prems(1) show ?case
    by (auto simp: j store_topic_def topic_new_def Let_def dom_update)
qed simp

text \<open>Starting up never fails: the three topics of a network have different names.  The client then is
  in a reachable state of \<open>Network\<close> and has asked for every bootstrap peer on every topic.\<close>

lemma pgqf_start_network_ok:
  "fst (pgqf_start_network e self s) = Inr ()
   \<and> fst ` set (topics (snd (pgqf_start_network e self s)))
       = topic_path (network_id s) ` {''transactions'', ''blocks'', ''intents''}
   \<and> length (commands (snd (pgqf_start_network e self s))) = 3 * length (pgqf_peers s)
   \<and> net_reach (default_config\<lparr>listen_addrs := pgqf_p2p_addrs s\<rparr>) self (snd (pgqf_start_network e self s)) {}"
proof -
  let ?n = "network_new (default_config\<lparr>listen_addrs := pgqf_p2p_addrs s\<rparr>) self"
  let ?tcs = "map (\<lambda>name. \<lparr>topic_name = topic_path (network_id s) name, bootstrap = pgqf_peers s\<rparr>)
         [''transactions'', ''blocks'', ''intents'']"
  have "distinct (map topic_name ?tcs)" by (simp add: topic_path_def)
  from join_all_topics [OF this, of ?n e] show ?thesis
    using join_all_reach [OF net_reach.start, of "default_config\<lparr>listen_addrs := pgqf_p2p_addrs s\<rparr>" self e ?tcs]
    by (simp add: pgqf_start_network_def network_new_def)
qed

end
