(* ===== verification/Pgqf.thy ===== *)
theory Pgqf
  imports Guest Token Query Builder Settings
begin

text \<open>
  The public goods funding example: \<open>sdk/examples/pgqf/src\<close>.  The client (\<open>client.rs\<close>) builds the
  transactions that install the libraries and create the accounts, and the intents it gossips; the
  helpers of \<open>io.rs\<close> send them and wait for a block; the solver (\<open>solver.rs\<close>) sorts received intents by
  matching their expectations against templates; \<open>predicates.rs\<close> is the guest library.  \<open>?\<close> is
  \<open>bind_res\<close>, and \<open>None\<close> is a panic.  The encoders and the signature scheme are the fields of
  \<open>client_env\<close>.
\<close>

section \<open>Data\<close>

datatype client_error =
    AddressError address_error
  | EncodeError string
  | TopicError topic_error

record campaign =
  starts_at :: u64
  ends_at :: u64
  projects :: "string btree_set"

record keypair =
  public :: bytes
  secret :: bytes

record client_env =
  enc_u64 :: "u64 \<Rightarrow> string + bytes"
  enc_bool :: "bool \<Rightarrow> string + bytes"
  enc_str :: "string \<Rightarrow> string + bytes"
  enc_address :: "address \<Rightarrow> string + bytes"
  enc_key_bytes :: "bytes \<Rightarrow> string + bytes"
  enc_campaign :: "campaign \<Rightarrow> string + bytes"
  enc_donation :: "string + bytes"
  bs58 :: "bytes \<Rightarrow> string"
  sign :: "keypair \<Rightarrow> bytes \<Rightarrow> bytes"

section \<open>The predicates\<close>

definition pgqf_campaign :: guest_predicate where
  "pgqf_campaign ps ctx = Some True"

definition pgqf_project :: guest_predicate where
  "pgqf_project ps ctx = Some True"

definition pgqf_donor :: guest_predicate where
  "pgqf_donor ps ctx = Some True"

definition pgqf_treasury :: guest_predicate where
  "pgqf_treasury ps ctx = Some True"

definition pgqf_library :: library where
  "pgqf_library = map_of [(''campaign'', pgqf_campaign), (''project'', pgqf_project), (''donor'', pgqf_donor),
     (''treasury'', pgqf_treasury)]"

section \<open>Building trees\<close>

definition parse :: "string \<Rightarrow> client_error + address" where
  "parse s = map_err AddressError (address_new s)"

definition to_vec :: "string + bytes \<Rightarrow> client_error + bytes" where
  "to_vec r = map_err EncodeError r"

definition inline :: "client_error + bytes \<Rightarrow> client_error + param" where
  "inline r = bind_res r (\<lambda>b. Inr (ParamInline b))"

definition account_ref :: "client_error + address \<Rightarrow> client_error + param" where
  "account_ref r = bind_res r (\<lambda>a. Inr (ParamAccountRef a))"

definition proposal_ref :: "client_error + address \<Rightarrow> client_error + param" where
  "proposal_ref r = bind_res r (\<lambda>a. Inr (ParamProposalRef a))"

text \<open>\<open>PredicateTree::Id(Predicate { code: Code::AccountRef(at.parse()?, ep.into()), params: vec![..] })\<close>\<close>

definition leaf :: "string \<Rightarrow> string \<Rightarrow> (client_error + param) list \<Rightarrow> client_error + predicate_tree" where
  "leaf lib ep ps =
     bind_res (parse lib) (\<lambda>a.
     bind_res (try_list (\<lambda>p. p) ps) (\<lambda>ps.
     Inr (TId \<lparr>pred_code = CodeAccountRef a ep, pred_params = ps\<rparr>)))"

definition both :: "client_error + predicate_tree \<Rightarrow> client_error + predicate_tree \<Rightarrow> client_error + predicate_tree" where
  "both l r = bind_res l (\<lambda>l. bind_res r (\<lambda>r. Inr (TAnd l r)))"

definition either :: "client_error + predicate_tree \<Rightarrow> client_error + predicate_tree \<Rightarrow> client_error + predicate_tree" where
  "either l r = bind_res l (\<lambda>l. bind_res r (\<lambda>r. Inr (TOr l r)))"

text \<open>A transaction without intents that creates one account.\<close>

definition create_account :: "address \<Rightarrow> bytes \<Rightarrow> predicate_tree \<Rightarrow> transaction" where
  "create_account a s preds =
     transaction_new [] (bt_collect [(a, CreateAccount \<lparr>acc_state = s, acc_predicates = preds\<rparr>)])"

section \<open>The transactions of the client\<close>

definition install_bytecode :: "client_env \<Rightarrow> address \<Rightarrow> bytes \<Rightarrow> client_error + transaction" where
  "install_bytecode env a bytecode =
     bind_res
       (both (leaf ''/stdpred'' ''immutable_state'' [inline (to_vec (enc_address env a))])
             (leaf ''/stdpred'' ''immutable_predicates'' [inline (to_vec (enc_address env a))]))
       (\<lambda>preds. Inr (create_account a bytecode preds))"

definition create_treasury :: "client_env \<Rightarrow> address \<Rightarrow> client_error + transaction" where
  "create_treasury env wallet =
     bind_res (to_vec (enc_u64 env 0)) (\<lambda>zero.
     bind_res (leaf ''/pgqf'' ''treasury'' [account_ref (Inr wallet), account_ref (parse ''/pgqf/spring-2023'')]) (\<lambda>preds.
     Inr (create_account wallet zero preds)))"

definition create_campaign_transaction ::
  "client_env \<Rightarrow> u64 \<Rightarrow> u64 \<Rightarrow> address \<Rightarrow> multihash \<Rightarrow> client_error + transaction"
where
  "create_campaign_transaction env start_height end_height treasury blockhash =
     bind_res (leaf ''/stdpred'' ''uint_equal'' [account_ref (Inr treasury), inline (to_vec (enc_u64 env 0))]) (\<lambda>expects.
     bind_res (parse ''/pgqf/spring-2023'') (\<lambda>a.
     bind_res (to_vec (enc_campaign env \<lparr>starts_at = start_height, ends_at = end_height, projects = []\<rparr>)) (\<lambda>s.
     bind_res (leaf ''/pgqf'' ''campaign'' [account_ref (parse ''/pgqf/spring-2023''), account_ref (Inr treasury)]) (\<lambda>preds.
     Inr (transaction_new [intent_new blockhash expects]
       (bt_collect [(a, CreateAccount \<lparr>acc_state = s, acc_predicates = preds\<rparr>)]))))))"

section \<open>The intents of the client\<close>

definition create_project_intents :: "client_env \<Rightarrow> string \<Rightarrow> multihash \<Rightarrow> client_error + intent list" where
  "create_project_intents env name blockhash =
     bind_res
       (both (leaf ''/stdpred'' ''is_map_empty'' [proposal_ref (parse (''/pgqf/spring-2023/'' @ name))])
             (leaf ''/stdpred'' ''key_equals''
                [proposal_ref (parse ''/pgqf/spring-2023''), inline (to_vec (enc_str env name)), inline (to_vec (enc_u64 env 0))]))
       (\<lambda>expects. Inr [intent_new blockhash expects])"

text \<open>\<open>intent.calldata.insert(key, from.sign(intent.signing_hash()))\<close>: asking for the hash fills the cache.\<close>

definition sign_intent :: "client_env \<Rightarrow> hash_env \<Rightarrow> keypair \<Rightarrow> intent \<Rightarrow> intent" where
  "sign_intent env henv kp i =
     (let (h, i) = signing_hash henv i in
      i\<lparr>intent_calldata := bt_insert (bs58 env (public kp)) (sign env kp h) (intent_calldata i)\<rparr>)"

definition create_donation_to_matching_pool_intents ::
  "client_env \<Rightarrow> hash_env \<Rightarrow> u64 \<Rightarrow> keypair \<Rightarrow> address \<Rightarrow> multihash \<Rightarrow> client_error + intent list"
where
  "create_donation_to_matching_pool_intents env henv amount from_key treasury blockhash =
     bind_res (parse (''/token/usdc/'' @ bs58 env (public from_key))) (\<lambda>from_addr.
     bind_res
       (both (leaf ''/stdpred'' ''uint_less_than_by''
                [account_ref (Inr from_addr), proposal_ref (Inr from_addr), inline (to_vec (enc_u64 env amount))])
             (leaf ''/stdpred'' ''uint_greater_than_by''
                [account_ref (Inr treasury), proposal_ref (Inr treasury), inline (to_vec (enc_u64 env amount))]))
       (\<lambda>expects. Inr [sign_intent env henv from_key (intent_new blockhash expects)]))"

definition replace_char :: "char \<Rightarrow> char \<Rightarrow> string \<Rightarrow> string" where
  "replace_char c d s = map (\<lambda>x. if x = c then d else x) s"

definition create_project_donation_intent ::
  "client_env \<Rightarrow> string \<Rightarrow> u64 \<Rightarrow> address \<Rightarrow> multihash \<Rightarrow> client_error + intent"
where
  "create_project_donation_intent env name amount from_addr blockhash =
     (let donation_id = replace_char slash (CHR ''-'') (path from_addr) in
      bind_res (parse (''/pgqf/spring-2023/'' @ name @ ''/'' @ donation_id)) (\<lambda>donation_address.
      bind_res (parse (''/token/usdc/project-'' @ name @ ''.eth'')) (\<lambda>project_wallet.
      bind_res
        (both
          (both (leaf ''/stdpred'' ''uint_greater_than_by''
                   [proposal_ref (Inr project_wallet), account_ref (Inr project_wallet), inline (to_vec (enc_u64 env amount))])
                (leaf ''/stdpred'' ''uint_less_than_by''
                   [proposal_ref (Inr from_addr), account_ref (Inr from_addr), inline (to_vec (enc_u64 env amount))]))
          (leaf ''/stdpred'' ''bytes_equal''
             [proposal_ref (Inr donation_address), inline (to_vec (enc_donation env))]))
        (\<lambda>expects. Inr (intent_new blockhash expects)))))"

text \<open>\<open>todo!()\<close>\<close>

definition create_funding_redistribution_intent ::
  "u64 \<Rightarrow> (string \<rightharpoonup> u64) \<Rightarrow> multihash \<Rightarrow> intent option"
where
  "create_funding_redistribution_intent matching_pool_amount donation_amounts blockhash = None"

section \<open>Wallets and the token\<close>

text \<open>\<open>expect\<close>\<close>

definition expect :: "'e + 'a \<Rightarrow> 'a option" where
  "expect r = (case r of Inl _ \<Rightarrow> None | Inr x \<Rightarrow> Some x)"

definition wallet_address :: "client_env \<Rightarrow> keypair \<Rightarrow> address option" where
  "wallet_address env kp = expect (address_new (''/token/usdc/'' @ bs58 env (public kp)))"

definition wallet_account :: "client_env \<Rightarrow> keypair \<times> address \<Rightarrow> (address \<times> account_change) option" where
  "wallet_account env w =
     (case expect (to_vec (enc_u64 env 10000)) of
        None \<Rightarrow> None
      | Some balance \<Rightarrow>
          map_option (\<lambda>preds. (snd w, CreateAccount \<lparr>acc_state = balance, acc_predicates = preds\<rparr>))
            (expect (either
              (leaf ''/stdpred'' ''uint_greater_than_equal'' [proposal_ref (Inr (snd w)), account_ref (Inr (snd w))])
              (leaf ''/stdpred'' ''require_ed25519_signature'' [inline (Inr (public (fst w)))]))))"

definition wallets_transaction :: "client_env \<Rightarrow> keypair list \<Rightarrow> ((keypair \<times> address) list \<times> transaction) option" where
  "wallets_transaction env kps =
     (case opt_list (wallet_address env) kps of
        None \<Rightarrow> None
      | Some addrs \<Rightarrow>
          (let ws = zip kps addrs in
           map_option (\<lambda>accounts. (ws, transaction_new [] (bt_collect accounts))) (opt_list (wallet_account env) ws)))"

definition total_supply :: "nat \<Rightarrow> u64" where
  "total_supply n = of_nat n * 10000"

definition token_transaction :: "client_env \<Rightarrow> nat \<Rightarrow> keypair \<Rightarrow> client_error + transaction" where
  "token_transaction env n mint =
     bind_res (parse ''/token/usdx'') (\<lambda>token_address.
     bind_res (to_vec (enc_u64 env (total_supply n))) (\<lambda>supply.
     bind_res
       (both (leaf ''/token'' ''predicate''
                [inline (to_vec (enc_address env token_address)), inline (to_vec (enc_key_bytes env (public mint))),
                 account_ref (Inr token_address)])
             (leaf ''/stdpred'' ''constant'' [inline (to_vec (enc_bool env False))]))
       (\<lambda>preds. Inr (create_account token_address supply preds))))"

section \<open>Sending and confirming\<close>

text \<open>
  The loop of \<open>send_and_confirm_transaction\<close> and \<open>send_and_confirm_intents\<close>: gossip until the topic has
  a peer, sleeping in between.  \<open>net k\<close> is the topic as the background task left it at the k-th attempt.
  The result is the number of the attempt and the topic after it; a loop that never returns is \<open>None\<close>.
\<close>

partial_function (option) gossip_until_connected ::
  "(nat \<Rightarrow> world \<times> topic_inner) \<Rightarrow> bytes \<Rightarrow> nat \<Rightarrow> (topic_error + nat \<times> topic_inner) option"
where
  "gossip_until_connected net content k =
     (case gossip (fst (net k)) content (snd (net k)) of
        (Inr _, t) \<Rightarrow> Some (Inr (k, t))
      | (Inl e, _) \<Rightarrow> if e = NoConnectedPeers then gossip_until_connected net content (Suc k) else Some (Inl e))"

text \<open>The key is registered with the watcher when the future of \<open>await_transaction\<close> is first polled, which
  is after the loop.\<close>

definition send_and_confirm_transaction ::
  "hash_env \<Rightarrow> (nat \<Rightarrow> world \<times> topic_inner) \<Rightarrow> transaction \<Rightarrow> nat \<Rightarrow> (watcher \<Rightarrow> watcher)
   \<Rightarrow> watcher \<Rightarrow> (client_error + topic_inner \<times> watcher) option"
where
  "send_and_confirm_transaction henv net tx sender meanwhile x =
     (let (hash, tx) = transaction_hash henv tx in
      case gossip_until_connected net (to_vec_transaction henv (transaction_to_wire tx)) 0 of
        None \<Rightarrow> None
      | Some (Inl e) \<Rightarrow> Some (Inl (TopicError e))
      | Some (Inr (_, t)) \<Rightarrow> Some (Inr (t, await_transaction hash sender (meanwhile x))))"

text \<open>The intents of one call are sent one after the other; \<open>net j\<close> is the topic during the j-th.\<close>

fun send_intents ::
  "hash_env \<Rightarrow> (nat \<Rightarrow> nat \<Rightarrow> world \<times> topic_inner) \<Rightarrow> intent list \<Rightarrow> nat \<Rightarrow> (client_error + unit) option"
where
  "send_intents henv net [] j = Some (Inr ())"
| "send_intents henv net (i # is) j =
     (case gossip_until_connected (net j) (to_vec_intent henv (intent_to_wire i)) 0 of
        None \<Rightarrow> None
      | Some (Inl e) \<Rightarrow> Some (Inl (TopicError e))
      | Some (Inr _) \<Rightarrow> send_intents henv net is (Suc j))"

text \<open>The hashes are taken first, the waiting futures are polled last: one sender per intent.\<close>

definition send_and_confirm_intents ::
  "hash_env \<Rightarrow> (nat \<Rightarrow> nat \<Rightarrow> world \<times> topic_inner) \<Rightarrow> intent list \<Rightarrow> (nat \<Rightarrow> nat) \<Rightarrow> (watcher \<Rightarrow> watcher)
   \<Rightarrow> watcher \<Rightarrow> (client_error + watcher) option"
where
  "send_and_confirm_intents henv net is senders meanwhile x =
     (let hashed = map (intent_hash henv) is in
      map_option (\<lambda>r. bind_res r (\<lambda>_.
          Inr (fold (\<lambda>j. await_intent (map fst hashed ! j) (senders j)) [0..<length is] (meanwhile x))))
        (send_intents henv net (map snd hashed) 0))"

section \<open>The script of the client\<close>

text \<open>
  What \<open>main\<close> sends until it waits for the campaign to start; that wait, \<open>await_block_height\<close>, is
  \<open>todo!()\<close>, so \<open>main\<close> ends there with a panic.  \<open>recents j\<close> is the hash of the most recent block when
  the client asks for the j-th time, and \<open>kps\<close> are the ten generated keypairs.  The steps are those of a
  run in which every address parses and every value encodes.
\<close>

datatype client_step =
    SendTransaction transaction
  | SendIntents "intent list"
  | AwaitHeight u64

definition campaign_start :: "block \<Rightarrow> u64" where
  "campaign_start blk = height blk + 10"

definition campaign_end :: "block \<Rightarrow> u64" where
  "campaign_end blk = campaign_start blk + 100"

text \<open>\<open>prepare_wallets_and_token_program\<close>\<close>

definition prepare_wallets_and_token_program ::
  "client_env \<Rightarrow> keypair list \<Rightarrow> keypair \<Rightarrow> bytes \<Rightarrow> (client_error + client_step list \<times> (keypair \<times> address) list) option"
where
  "prepare_wallets_and_token_program env kps mint token_wasm =
     map_option (\<lambda>(ws, wallets_tx).
         bind_res (token_transaction env (length kps) mint) (\<lambda>token_tx.
         bind_res (parse ''/token'') (\<lambda>a.
         bind_res (install_bytecode env a token_wasm) (\<lambda>install_tx.
         Inr ([SendTransaction wallets_tx, SendTransaction token_tx, SendTransaction install_tx], ws)))))
       (wallets_transaction env kps)"

definition client_main ::
  "client_env \<Rightarrow> hash_env \<Rightarrow> (nat \<Rightarrow> multihash) \<Rightarrow> keypair list \<Rightarrow> keypair \<Rightarrow> bytes \<Rightarrow> bytes \<Rightarrow> bytes \<Rightarrow> block
   \<Rightarrow> (client_error + client_step list) option"
where
  "client_main env henv recents kps mint stdpred_wasm token_wasm pgqf_wasm blk =
     (case bind_res (parse ''/stdpred'') (\<lambda>a. install_bytecode env a stdpred_wasm) of
        Inl e \<Rightarrow> Some (Inl e)
      | Inr install_std \<Rightarrow>
          map_option (\<lambda>prepared.
            bind_res prepared (\<lambda>(prepare_steps, ws).
            bind_res (parse ''/pgqf'') (\<lambda>a.
            bind_res (install_bytecode env a pgqf_wasm) (\<lambda>install_pgqf.
            bind_res (parse ''/token/usdc/spring-2023.eth'') (\<lambda>treasury.
            bind_res (create_treasury env treasury) (\<lambda>treasury_tx.
            bind_res (create_campaign_transaction env (campaign_start blk) (campaign_end blk) treasury (recents 0)) (\<lambda>campaign_tx.
            bind_res (create_project_intents env ''project1'' (recents 1)) (\<lambda>project1.
            bind_res (create_project_intents env ''project2'' (recents 2)) (\<lambda>project2.
            bind_res (create_project_intents env ''project3'' (recents 3)) (\<lambda>project3.
            bind_res (create_project_intents env ''project4'' (recents 4)) (\<lambda>project4.
            bind_res (create_donation_to_matching_pool_intents env henv 1200 (fst (ws ! 0)) treasury (recents 5)) (\<lambda>pool1.
            bind_res (create_donation_to_matching_pool_intents env henv 1800 (fst (ws ! 1)) treasury (recents 6)) (\<lambda>pool2.
            bind_res (create_donation_to_matching_pool_intents env henv 1200 (fst (ws ! 2)) treasury (recents 7)) (\<lambda>pool3.
            Inr (SendTransaction install_std # prepare_steps
              @ [SendTransaction install_pgqf, SendTransaction treasury_tx, SendTransaction campaign_tx,
                 SendIntents project1, SendIntents (project2 @ project3 @ project4),
                 SendIntents pool1, SendIntents (pool2 @ pool3), AwaitHeight (campaign_start blk)])))))))))))))))
            (prepare_wallets_and_token_program env kps mint token_wasm))"

section \<open>The solver\<close>

definition stdpred_address :: address where
  "stdpred_address = Address ''/stdpred''"

definition pattern :: "string \<Rightarrow> param_pattern list \<Rightarrow> query_tree" where
  "pattern ep ps = TId \<lparr>pred_code = CodeAccountRef stdpred_address ep, pred_params = ps\<rparr>"

definition create_project_intent_pattern :: "client_env \<Rightarrow> query_tree option" where
  "create_project_intent_pattern env =
     map_option (\<lambda>zero.
         TAnd (pattern ''bytes_equal'' [PProposalRef ''project_name'', PInline ''project_state''])
              (pattern ''uint_equal'' [PProposalRef ''wallet_address'', PExact (ParamInline zero)]))
       (expect (to_vec (enc_u64 env 0)))"

definition create_matching_pool_donation_intents_pattern :: query_tree where
  "create_matching_pool_donation_intents_pattern =
     TAnd (pattern ''uint_less_than_by''
             [PAccountRef ''donor_balance_before'', PProposalRef ''donor_balance_after'', PInline ''donor_amount''])
          (pattern ''uint_greater_than_by''
             [PAccountRef ''treasury_balance_before'', PProposalRef ''treasury_balance_after'', PInline ''treasury_amount''])"

definition create_project_donation_intent_pattern :: query_tree where
  "create_project_donation_intent_pattern =
     TAnd
       (TAnd (pattern ''uint_greater_than_by''
                [PProposalRef ''project_wallet_after'', PAccountRef ''project_wallet_before'', PInline ''donor_amount''])
             (pattern ''uint_less_than_by''
                [PProposalRef ''donor_wallet_after'', PAccountRef ''donor_wallet_before'', PInline ''donor_amount'']))
       (pattern ''bytes_equal'' [PProposalRef ''donation_address'', PInline ''donation_state''])"

text \<open>Which branch of the solver an intent takes, with what it captured there.\<close>

datatype solver_branch =
    ProjectBranch captures
  | PoolBranch captures
  | DonationBranch captures
  | NoBranch

definition try_match_and_fill_intent :: "client_env \<Rightarrow> intent \<Rightarrow> solver_branch option" where
  "try_match_and_fill_intent env i =
     map_option (\<lambda>project_pattern.
         case matches (expectations i) project_pattern of
           Some m \<Rightarrow> ProjectBranch m
         | None \<Rightarrow>
             (case matches (expectations i) create_matching_pool_donation_intents_pattern of
                Some m \<Rightarrow> PoolBranch m
              | None \<Rightarrow>
                  (case matches (expectations i) create_project_donation_intent_pattern of
                     Some m \<Rightarrow> DonationBranch m
                   | None \<Rightarrow> NoBranch)))
       (create_project_intent_pattern env)"

section \<open>What the builders produce\<close>

lemma client_addresses [simp]:
  "address_new ''/stdpred'' = Inr (Address ''/stdpred'')"
  "address_new ''/token'' = Inr (Address ''/token'')"
  "address_new ''/token/usdx'' = Inr (Address ''/token/usdx'')"
  "address_new ''/pgqf'' = Inr (Address ''/pgqf'')"
  "address_new ''/pgqf/spring-2023'' = Inr (Address ''/pgqf/spring-2023'')"
  by code_simp+

lemma map_err_Inr [simp]: "map_err f r = Inr x \<longleftrightarrow> r = Inr x"
  by (cases r) (auto simp: map_err_def)

lemma param_results [simp]:
  "inline r = Inr p \<longleftrightarrow> (\<exists>b. r = Inr b \<and> p = ParamInline b)"
  "account_ref r' = Inr p \<longleftrightarrow> (\<exists>a. r' = Inr a \<and> p = ParamAccountRef a)"
  "proposal_ref r' = Inr p \<longleftrightarrow> (\<exists>a. r' = Inr a \<and> p = ParamProposalRef a)"
  "to_vec e = Inr b \<longleftrightarrow> e = Inr b"
  by (auto simp: inline_def account_ref_def proposal_ref_def to_vec_def)

lemma parse_Inr: "parse s = Inr a \<longleftrightarrow> a = Address s \<and> is_ok (address_new s)"
  by (auto simp: parse_def address_new_Inr_iff is_ok_iff)

lemma parse_client [simp]:
  "parse ''/stdpred'' = Inr stdpred_address"
  "parse ''/token'' = Inr (Address ''/token'')"
  "parse ''/token/usdx'' = Inr (Address ''/token/usdx'')"
  "parse ''/pgqf'' = Inr (Address ''/pgqf'')"
  "parse ''/pgqf/spring-2023'' = Inr (Address ''/pgqf/spring-2023'')"
  by (simp_all add: parse_def stdpred_address_def)

lemma try_list_Cons [simp]:
  "try_list f (x # xs) = Inr ys \<longleftrightarrow> (\<exists>z zs. ys = z # zs \<and> f x = Inr z \<and> try_list f xs = Inr zs)"
  "try_list f [] = Inr ys \<longleftrightarrow> ys = []"
  by auto

lemma tree_results [simp]:
  "leaf lib ep ps = Inr t \<longleftrightarrow>
     (\<exists>a qs. parse lib = Inr a \<and> try_list (\<lambda>p. p) ps = Inr qs \<and> t = TId \<lparr>pred_code = CodeAccountRef a ep, pred_params = qs\<rparr>)"
  "both l r = Inr t \<longleftrightarrow> (\<exists>l' r'. l = Inr l' \<and> r = Inr r' \<and> t = TAnd l' r')"
  "either l r = Inr t \<longleftrightarrow> (\<exists>l' r'. l = Inr l' \<and> r = Inr r' \<and> t = TOr l' r')"
  by (auto simp: leaf_def both_def either_def)

declare try_list.simps(2) [simp del]

definition std_leaf :: "string \<Rightarrow> param list \<Rightarrow> predicate_tree" where
  "std_leaf ep ps = TId \<lparr>pred_code = CodeAccountRef stdpred_address ep, pred_params = ps\<rparr>"

text \<open>The trees behind the accounts and intents of the client.\<close>

lemma install_bytecode_Inr:
  "install_bytecode env a code = Inr tx \<longleftrightarrow>
     (\<exists>b. enc_address env a = Inr b \<and> tx = create_account a code
        (TAnd (std_leaf ''immutable_state'' [ParamInline b]) (std_leaf ''immutable_predicates'' [ParamInline b])))"
  by (auto simp: install_bytecode_def std_leaf_def)

lemma project_intents_Inr:
  "create_project_intents env name bh = Inr is \<longleftrightarrow>
     (\<exists>a n z. parse (''/pgqf/spring-2023/'' @ name) = Inr a \<and> enc_str env name = Inr n \<and> enc_u64 env 0 = Inr z
       \<and> is = [intent_new bh (TAnd (std_leaf ''is_map_empty'' [ParamProposalRef a])
            (std_leaf ''key_equals'' [ParamProposalRef (Address ''/pgqf/spring-2023''), ParamInline n, ParamInline z]))])"
  by (auto simp: create_project_intents_def std_leaf_def)

definition pool_tree :: "address \<Rightarrow> address \<Rightarrow> bytes \<Rightarrow> predicate_tree" where
  "pool_tree donor treasury amount =
     TAnd (std_leaf ''uint_less_than_by'' [ParamAccountRef donor, ParamProposalRef donor, ParamInline amount])
          (std_leaf ''uint_greater_than_by'' [ParamAccountRef treasury, ParamProposalRef treasury, ParamInline amount])"

lemma pool_intents_Inr:
  "create_donation_to_matching_pool_intents env henv amount kp treasury bh = Inr is \<longleftrightarrow>
     (\<exists>a b. parse (''/token/usdc/'' @ bs58 env (public kp)) = Inr a \<and> enc_u64 env amount = Inr b
       \<and> is = [sign_intent env henv kp (intent_new bh (pool_tree a treasury b))])"
  by (auto simp: create_donation_to_matching_pool_intents_def std_leaf_def pool_tree_def)

definition donation_tree :: "address \<Rightarrow> address \<Rightarrow> address \<Rightarrow> bytes \<Rightarrow> bytes \<Rightarrow> predicate_tree" where
  "donation_tree project donor donation amount d =
     TAnd
       (TAnd (std_leaf ''uint_greater_than_by'' [ParamProposalRef project, ParamAccountRef project, ParamInline amount])
             (std_leaf ''uint_less_than_by'' [ParamProposalRef donor, ParamAccountRef donor, ParamInline amount]))
       (std_leaf ''bytes_equal'' [ParamProposalRef donation, ParamInline d])"

lemma donation_intent_Inr:
  "create_project_donation_intent env name amount donor bh = Inr i \<longleftrightarrow>
     (\<exists>dn w b d. parse (''/pgqf/spring-2023/'' @ name @ ''/'' @ replace_char slash (CHR ''-'') (path donor)) = Inr dn
       \<and> parse (''/token/usdc/project-'' @ name @ ''.eth'') = Inr w \<and> enc_u64 env amount = Inr b \<and> enc_donation env = Inr d
       \<and> i = intent_new bh (donation_tree w donor dn b d))"
  by (auto simp: create_project_donation_intent_def Let_def std_leaf_def donation_tree_def)

definition wallet_tree :: "address \<Rightarrow> bytes \<Rightarrow> predicate_tree" where
  "wallet_tree a key =
     TOr (std_leaf ''uint_greater_than_equal'' [ParamProposalRef a, ParamAccountRef a])
         (std_leaf ''require_ed25519_signature'' [ParamInline key])"

lemma expect_Some [simp]: "expect r = Some x \<longleftrightarrow> r = Inr x" "expect (Inr x) = Some x" "expect (Inl e) = None"
  by (cases r) (auto simp: expect_def)

lemma to_vec_simps [simp]: "to_vec (Inr b) = Inr b" "to_vec (Inl e) = Inl (EncodeError e)"
  by (simp_all add: to_vec_def map_err_def)

lemma wallet_account_Some:
  "wallet_account env w = Some e \<longleftrightarrow>
     (\<exists>b. enc_u64 env 10000 = Inr b
       \<and> e = (snd w, CreateAccount \<lparr>acc_state = b, acc_predicates = wallet_tree (snd w) (public (fst w))\<rparr>))"
  by (auto simp: wallet_account_def wallet_tree_def std_leaf_def inline_def split: option.splits)

lemma token_transaction_Inr:
  "token_transaction env n mint = Inr tx \<longleftrightarrow>
     (\<exists>a k s f. enc_address env (Address ''/token/usdx'') = Inr a \<and> enc_key_bytes env (public mint) = Inr k
       \<and> enc_u64 env (total_supply n) = Inr s \<and> enc_bool env False = Inr f
       \<and> tx = create_account (Address ''/token/usdx'') s
           (TAnd (TId \<lparr>pred_code = CodeAccountRef (Address ''/token'') ''predicate'',
                       pred_params = [ParamInline a, ParamInline k, ParamAccountRef (Address ''/token/usdx'')]\<rparr>)
                 (std_leaf ''constant'' [ParamInline f])))"
  by (auto simp: token_transaction_def std_leaf_def)

section \<open>The loop\<close>

lemma gossip_result:
  "fst (gossip w content t) =
     (if length content > max_transmit_size (network_config t) then Inl MessageTooLarge
      else if active_peers t = [] then Inl NoConnectedPeers else Inr ())"
  by (simp add: gossip_def)

lemma gossip_retry:
  assumes "active_peers (snd (net k)) = []" "length content \<le> max_transmit_size (network_config (snd (net k)))"
  shows "gossip_until_connected net content k = gossip_until_connected net content (Suc k)"
  using assms by (subst gossip_until_connected.simps) (simp add: gossip_def)

lemma gossip_skip:
  assumes "\<And>j. k \<le> j \<Longrightarrow> j < k + n \<Longrightarrow> active_peers (snd (net j)) = []
    \<and> length content \<le> max_transmit_size (network_config (snd (net j)))"
  shows "gossip_until_connected net content k = gossip_until_connected net content (k + n)"
  using assms
proof (induction n)
  case (Suc n)
  have "gossip_until_connected net content k = gossip_until_connected net content (k + n)" using Suc by simp
  also have "\<dots> = gossip_until_connected net content (Suc (k + n))" using Suc.prems [of "k + n"] by (intro gossip_retry) auto
  finally show ?case by simp
qed simp

text \<open>The last state of the loop: what a returned value says.\<close>

lemma gossip_returned:
  assumes "gossip_until_connected net content k = Some r"
  shows "\<exists>j \<ge> k. active_peers (snd (net j)) \<noteq> [] \<or> max_transmit_size (network_config (snd (net j))) < length content"
proof (rule gossip_until_connected.raw_induct [OF _ assms, where P = "\<lambda>net content k r. \<exists>j \<ge> k.
    active_peers (snd (net j)) \<noteq> [] \<or> max_transmit_size (network_config (snd (net j))) < length content"])
  fix loop :: "(nat \<Rightarrow> world \<times> topic_inner) \<Rightarrow> bytes \<Rightarrow> nat \<Rightarrow> (topic_error + nat \<times> topic_inner) option"
    and net :: "nat \<Rightarrow> world \<times> topic_inner" and content k r
  assume IH: "\<And>net content k r. loop net content k = Some r \<Longrightarrow> \<exists>j \<ge> k.
      active_peers (snd (net j)) \<noteq> [] \<or> max_transmit_size (network_config (snd (net j))) < length content"
    and step: "(case gossip (fst (net k)) content (snd (net k)) of
        (Inr _, t) \<Rightarrow> Some (Inr (k, t))
      | (Inl e, _) \<Rightarrow> if e = NoConnectedPeers then loop net content (Suc k) else Some (Inl e)) = Some r"
  show "\<exists>j \<ge> k. active_peers (snd (net j)) \<noteq> [] \<or> max_transmit_size (network_config (snd (net j))) < length content"
  proof (cases "active_peers (snd (net k)) \<noteq> [] \<or> max_transmit_size (network_config (snd (net k))) < length content")
    case False
    then have "loop net content (Suc k) = Some r" using step by (simp add: gossip_def)
    from IH [OF this] show ?thesis by (meson Suc_leD)
  qed blast
qed

section \<open>Sample values\<close>

definition ascii :: "string \<Rightarrow> bytes" where
  "ascii s = map of_char s"

definition sample_client :: client_env where
  "sample_client = \<lparr>enc_u64 = (\<lambda>x. Inr [ucast x]), enc_bool = (\<lambda>b. Inr [if b then 195 else 194]),
     enc_str = (\<lambda>s. Inr (ascii s)), enc_address = (\<lambda>a. Inr (ascii (path a))), enc_key_bytes = (\<lambda>k. Inr k),
     enc_campaign = (\<lambda>c. Inr [ucast (starts_at c), ucast (ends_at c)]), enc_donation = Inr [144],
     bs58 = (\<lambda>_. ''k''), sign = (\<lambda>kp h. public kp @ h)\<rparr>"

definition sample_keypair :: keypair where
  "sample_keypair = \<lparr>public = [7], secret = [8]\<rparr>"

section \<open>Properties\<close>

text \<open>C27. The sending loop returns exactly when it can: a message above the transmission limit fails at
  once; otherwise the loop runs forever exactly if the topic never gets a peer, and if it gets one the
  message is sent at the first attempt that finds a peer, once.\<close>

theorem send_loop_returns:
  assumes "\<And>k. max_transmit_size (network_config (snd (net k))) = limit"
  shows "(limit < length content \<longrightarrow> gossip_until_connected net content 0 = Some (Inl MessageTooLarge))
    \<and> (length content \<le> limit \<longrightarrow>
        (gossip_until_connected net content 0 = None \<longleftrightarrow> (\<forall>k. active_peers (snd (net k)) = []))
      \<and> (\<forall>k. active_peers (snd (net k)) \<noteq> [] \<longrightarrow> (\<forall>j < k. active_peers (snd (net j)) = []) \<longrightarrow>
          gossip_until_connected net content 0
            = Some (Inr (k, send_active (fst (net k)) (\<lambda>_. True) (Gossip content) (snd (net k))))))"
proof -
  have big: "gossip_until_connected net content 0 = Some (Inl MessageTooLarge)" if "limit < length content"
    using that assms [of 0] by (subst gossip_until_connected.simps) (simp add: gossip_def)
  have first: "gossip_until_connected net content 0
      = Some (Inr (k, send_active (fst (net k)) (\<lambda>_. True) (Gossip content) (snd (net k))))"
    if "length content \<le> limit" "active_peers (snd (net k)) \<noteq> []" "\<forall>j < k. active_peers (snd (net j)) = []" for k
  proof -
    have "gossip_until_connected net content 0 = gossip_until_connected net content (0 + k)"
      using that assms by (intro gossip_skip) auto
    then show ?thesis using that assms [of k] by (subst (asm) (2) gossip_until_connected.simps) (simp add: gossip_def)
  qed
  have "gossip_until_connected net content 0 = None \<longleftrightarrow> (\<forall>k. active_peers (snd (net k)) = [])" if l: "length content \<le> limit"
  proof
    assume none: "gossip_until_connected net content 0 = None"
    show "\<forall>k. active_peers (snd (net k)) = []"
    proof (rule ccontr)
      assume "\<not> ?thesis"
      then obtain k where "active_peers (snd (net k)) \<noteq> []" "\<forall>j < k. active_peers (snd (net j)) = []"
        using exists_least_iff [of "\<lambda>k. active_peers (snd (net k)) \<noteq> []"] by auto
      with first [OF l] none show False by simp
    qed
  next
    assume "\<forall>k. active_peers (snd (net k)) = []"
    with l assms have "\<not> (\<exists>r. gossip_until_connected net content 0 = Some r)" by (force dest: gossip_returned)
    then show "gossip_until_connected net content 0 = None" by simp
  qed
  with big first show ?thesis by blast
qed

theorem send_loop_returns_witness:
  "gossip_until_connected (\<lambda>k. (sample_world 0, if k < 2 then sample_topic else sample_topic\<lparr>active_peers := [([1], 5, [])]\<rparr>)) [9] 0
     = Some (Inr (2, send_active (sample_world 0) (\<lambda>_. True) (Gossip [9]) (sample_topic\<lparr>active_peers := [([1], 5, [])]\<rparr>)))"
proof -
  let ?net = "\<lambda>k :: nat. (sample_world 0, if k < 2 then sample_topic else sample_topic\<lparr>active_peers := [([1], 5, [])]\<rparr>)"
  have lim: "\<And>k. max_transmit_size (network_config (snd (?net k))) = 1024 * 1024" by (simp add: default_config_def)
  have peers: "active_peers (snd (?net 2)) \<noteq> []" "\<forall>j < 2. active_peers (snd (?net j)) = []" by simp_all
  have small: "length [9 :: byte] \<le> 1024 * 1024" by simp
  from send_loop_returns [of ?net "1024 * 1024" "[9]", OF lim] peers small
  have "gossip_until_connected ?net [9] 0
      = Some (Inr (2, send_active (fst (?net 2)) (\<lambda>_. True) (Gossip [9]) (snd (?net 2))))" by blast
  then show ?thesis by simp
qed

text \<open>The solver tells the intents of the client apart.  A donation to the matching pool takes the pool
  branch and a donation to a project the donation branch, each capturing exactly the addresses and the
  amounts the client put in; an intent for a new project is not recognised at all, because the template
  asks for other predicates than the client uses.\<close>

lemma solver_recognises:
  assumes "create_donation_to_matching_pool_intents env henv amount kp treasury bh = Inr [pool]"
    "create_project_donation_intent env name amount donor bh = Inr donation"
    "create_project_intents env name bh = Inr [project]" "enc_u64 env amount = Inr b" "enc_donation env = Inr d"
  shows "try_match_and_fill_intent env pool = Some (PoolBranch
      [''donor_balance_before'' \<mapsto> MAddress (Address (''/token/usdc/'' @ bs58 env (public kp))),
       ''donor_balance_after'' \<mapsto> MAddress (Address (''/token/usdc/'' @ bs58 env (public kp))),
       ''donor_amount'' \<mapsto> MBytes b, ''treasury_balance_before'' \<mapsto> MAddress treasury,
       ''treasury_balance_after'' \<mapsto> MAddress treasury, ''treasury_amount'' \<mapsto> MBytes b])
    \<and> try_match_and_fill_intent env donation = Some (DonationBranch
      [''project_wallet_after'' \<mapsto> MAddress (Address (''/token/usdc/project-'' @ name @ ''.eth'')),
       ''project_wallet_before'' \<mapsto> MAddress (Address (''/token/usdc/project-'' @ name @ ''.eth'')),
       ''donor_amount'' \<mapsto> MBytes b, ''donor_wallet_after'' \<mapsto> MAddress donor, ''donor_wallet_before'' \<mapsto> MAddress donor,
       ''donation_address'' \<mapsto> MAddress (Address (''/pgqf/spring-2023/'' @ name @ ''/'' @ replace_char slash (CHR ''-'') (path donor))),
       ''donation_state'' \<mapsto> MBytes d])
    \<and> try_match_and_fill_intent env project = Some NoBranch"
proof -
  from assms(3) obtain z where z: "enc_u64 env 0 = Inr z" by (auto simp: project_intents_Inr)
  have p: "expectations pool = pool_tree (Address (''/token/usdc/'' @ bs58 env (public kp))) treasury b"
    using assms(1,4) by (auto simp: pool_intents_Inr parse_Inr sign_intent_def signing_hash_def intent_new_def Let_def)
  have q: "expectations donation = donation_tree (Address (''/token/usdc/project-'' @ name @ ''.eth'')) donor
      (Address (''/pgqf/spring-2023/'' @ name @ ''/'' @ replace_char slash (CHR ''-'') (path donor))) b d"
    using assms(2,4,5) by (auto simp: donation_intent_Inr parse_Inr intent_new_def)
  obtain a n where r: "expectations project = TAnd (std_leaf ''is_map_empty'' [ParamProposalRef a])
      (std_leaf ''key_equals'' [ParamProposalRef (Address ''/pgqf/spring-2023''), ParamInline n, ParamInline z])"
    using assms(3) z by (auto simp: project_intents_Inr intent_new_def)
  note pats = try_match_and_fill_intent_def create_project_intent_pattern_def pattern_def z matches_def
    create_matching_pool_donation_intents_pattern_def create_project_donation_intent_pattern_def std_leaf_def
  have "try_match_and_fill_intent env project = Some NoBranch" by (simp add: pats r)
  moreover have "try_match_and_fill_intent env pool = Some (PoolBranch
      [''donor_balance_before'' \<mapsto> MAddress (Address (''/token/usdc/'' @ bs58 env (public kp))),
       ''donor_balance_after'' \<mapsto> MAddress (Address (''/token/usdc/'' @ bs58 env (public kp))),
       ''donor_amount'' \<mapsto> MBytes b, ''treasury_balance_before'' \<mapsto> MAddress treasury,
       ''treasury_balance_after'' \<mapsto> MAddress treasury, ''treasury_amount'' \<mapsto> MBytes b])"
    by (simp add: pats p pool_tree_def)
  moreover have "try_match_and_fill_intent env donation = Some (DonationBranch
      [''project_wallet_after'' \<mapsto> MAddress (Address (''/token/usdc/project-'' @ name @ ''.eth'')),
       ''project_wallet_before'' \<mapsto> MAddress (Address (''/token/usdc/project-'' @ name @ ''.eth'')),
       ''donor_amount'' \<mapsto> MBytes b, ''donor_wallet_after'' \<mapsto> MAddress donor, ''donor_wallet_before'' \<mapsto> MAddress donor,
       ''donation_address'' \<mapsto> MAddress (Address (''/pgqf/spring-2023/'' @ name @ ''/'' @ replace_char slash (CHR ''-'') (path donor))),
       ''donation_state'' \<mapsto> MBytes d])"
    by (simp add: pats q donation_tree_def fun_upd_twist)
  ultimately show ?thesis by blast
qed

lemma solver_recognises_example:
  "\<exists>pool project. create_donation_to_matching_pool_intents sample_client sample_env 20 sample_keypair (Address ''/token/usdc/t'') [1] = Inr [pool]
    \<and> create_project_intents sample_client ''p1'' [1] = Inr [project]
    \<and> (\<exists>m. try_match_and_fill_intent sample_client pool = Some (PoolBranch m) \<and> m ''donor_amount'' = Some (MBytes [20]))
    \<and> try_match_and_fill_intent sample_client project = Some NoBranch"
proof -
  have ok: "is_ok (address_new ''/token/usdc/k'')" "is_ok (address_new ''/pgqf/spring-2023/p1'')"
    "is_ok (address_new ''/pgqf/spring-2023/p1/-token-usdc-d'')" "is_ok (address_new ''/token/usdc/project-p1.eth'')"
    by code_simp+
  have id: "replace_char slash (CHR ''-'') ''/token/usdc/d'' = ''-token-usdc-d''" by code_simp
  obtain pool where pool: "create_donation_to_matching_pool_intents sample_client sample_env 20 sample_keypair (Address ''/token/usdc/t'') [1] = Inr [pool]"
    using ok(1) by (simp add: pool_intents_Inr parse_Inr sample_client_def)
  obtain donation where donation: "create_project_donation_intent sample_client ''p1'' 20 (Address ''/token/usdc/d'') [1] = Inr donation"
    using ok(3,4) by (simp add: donation_intent_Inr parse_Inr sample_client_def id)
  obtain project where project: "create_project_intents sample_client ''p1'' [1] = Inr [project]"
    using ok(2) by (simp add: project_intents_Inr parse_Inr sample_client_def)
  have "enc_u64 sample_client 20 = Inr [20]" "enc_donation sample_client = Inr [144]" by (simp_all add: sample_client_def)
  from solver_recognises [OF pool donation project this] pool project show ?thesis by simp
qed

text \<open>A signature does not survive the network.  The client signs the hash of an intent without its
  calldata, and memoises that hash as the hash of the intent.  As long as the object stays in memory the
  signature predicate accepts it.  Received from the network the memo is empty, the hash is taken over the
  whole intent, and the predicate rejects, unless the two digests happen to be equal.  For the same
  reason the client waits for a hash that no block will report.\<close>

lemma signature_lost_on_wire:
  assumes "pubkey_from_bytes dec (public kp) = Some (public kp)" "to_base58 dec = bs58 env"
    "\<And>h. \<exists>sg. signature_from_bytes dec (sign env kp h) = Some sg \<and> (\<forall>m. verify dec (public kp) m sg \<longleftrightarrow> m = h)"
    "i = sign_intent env henv kp (intent_new bh tree)"
    "predicate_context_of henv state (transaction_new [i] ps) = Inr ctx"
    "predicate_context_of henv state (transaction_from_wire (transaction_to_wire (transaction_new [i] ps))) = Inr ctx'"
    "sha3_256 henv (to_vec_intent henv (intent_to_wire i)) \<noteq> sha3_256 henv (to_vec_multihash henv bh @ to_vec_tree henv tree)"
  shows "require_ed25519_signature dec [XInline (public kp)] ctx = Some True
    \<and> require_ed25519_signature dec [XInline (public kp)] ctx' = Some False
    \<and> (KIntent (fst (intent_hash henv i)), VIntent tx)
        \<notin> set (tx_events henv blk (transaction_from_wire (transaction_to_wire (transaction_new [i] ps))))"
proof -
  let ?s = "sha3_256 henv (to_vec_multihash henv bh @ to_vec_tree henv tree)"
  let ?d = "sha3_256 henv (to_vec_intent henv (intent_to_wire i))"
  let ?k = "bs58 env (public kp)"
  have cd: "intent_calldata i = [(?k, sign env kp ?s)]" and cache: "intent_cache i = Some ?s"
    by (simp_all add: assms(4) sign_intent_def signing_hash_def intent_new_def Let_def)
  have hash: "fst (intent_hash henv i) = ?s" by (simp add: intent_hash_def cache Let_def)
  let ?i' = "intent_from_wire (intent_to_wire i)"
  have hash': "fst (intent_hash henv ?i') = ?d" "intent_calldata ?i' = intent_calldata i"
    by (simp_all add: intent_hash_def intent_from_wire_def intent_to_wire_def Let_def)
  have wire: "tx_intents (transaction_from_wire (transaction_to_wire (transaction_new [i] ps))) = [?i']"
    by (simp add: transaction_from_wire_def transaction_to_wire_def transaction_new_def)
  have ctx: "ctx_calldata ctx = [(?s, [(?k, sign env kp ?s)])]"
    using assms(5) hash cd by (auto simp: predicate_context_of_def transaction_new_def bt_collect_def bt_extend_def)
  have ctx': "ctx_calldata ctx' = [(?d, [(?k, sign env kp ?s)])]"
    using assms(6) hash' cd by (auto simp: predicate_context_of_def wire bt_collect_def bt_extend_def)
  obtain sg where sg: "signature_from_bytes dec (sign env kp ?s) = Some sg" "\<And>m. verify dec (public kp) m sg \<longleftrightarrow> m = ?s"
    using assms(3) by blast
  have "require_ed25519_signature dec [XInline (public kp)] ctx = Some True"
    using assms(1,2) sg by (simp add: require_ed25519_signature_def ctx bt_get_def)
  moreover have "require_ed25519_signature dec [XInline (public kp)] ctx' = Some False"
    using assms(1,2,7) sg by (simp add: require_ed25519_signature_def ctx' bt_get_def)
  ultimately show ?thesis using assms(7) by (auto simp: tx_events_def wire hash hash')
qed

lemma signature_lost_on_wire_example:
  "\<exists>ctx'. predicate_context_of sample_env sample_state (transaction_from_wire (transaction_to_wire
        (transaction_new [sign_intent sample_client sample_env sample_keypair (intent_new [1] (std_leaf ''x'' []))] []))) = Inr ctx'
    \<and> require_ed25519_signature sample_decoders [XInline [7]] ctx' = Some False"
proof -
  let ?i = "sign_intent sample_client sample_env sample_keypair (intent_new [1] (std_leaf ''x'' []))"
  let ?tx = "transaction_new [?i] []"
  have p: "pubkey_from_bytes sample_decoders (public sample_keypair) = Some (public sample_keypair)"
    "to_base58 sample_decoders = bs58 sample_client"
    by (simp_all add: sample_decoders_def sample_client_def)
  have v: "\<exists>sg. signature_from_bytes sample_decoders (sign sample_client sample_keypair h) = Some sg
      \<and> (\<forall>m. verify sample_decoders (public sample_keypair) m sg \<longleftrightarrow> m = h)" for h
    by (auto simp: sample_decoders_def sample_client_def sample_keypair_def)
  obtain c c' where c: "predicate_context_of sample_env sample_state ?tx = Inr c"
    "predicate_context_of sample_env sample_state (transaction_from_wire (transaction_to_wire ?tx)) = Inr c'"
    by (simp add: predicate_context_of_def transaction_new_def transaction_from_wire_def transaction_to_wire_def)
  have "sha3_256 sample_env (to_vec_intent sample_env (intent_to_wire ?i))
      \<noteq> sha3_256 sample_env (to_vec_multihash sample_env [1] @ to_vec_tree sample_env (std_leaf ''x'' []))"
    by (simp add: sample_env_def sign_intent_def signing_hash_def intent_new_def intent_to_wire_def sample_client_def
        sample_keypair_def Let_def)
  from signature_lost_on_wire [OF p v refl c this] c(2) show ?thesis by (simp add: sample_keypair_def)
qed

text \<open>A confirmation can be lost.  The client registers for the hash only after the message was sent; if
  the block with the transaction is handled before that, nothing is sent to the waiter then, and it is not
  served by any later block without the transaction: the client waits forever.\<close>

lemma confirmation_lost:
  assumes "h = fst (transaction_hash henv tx)" "KTransaction h \<in> fst ` set (block_events henv blk)"
    "watcher_block w ser henv run blk x = Some (sent, x1)" "n \<notin> ran (watchlist x)"
    "send_and_confirm_transaction henv net tx n (\<lambda>_. x1) x = Some (Inr (t, x2))"
    "watcher_block w ser henv run later x2 = Some (sent', x3)" "KTransaction h \<notin> fst ` set (block_events henv later)"
  shows "(n, v) \<notin> set sent \<and> (n, v) \<notin> set sent' \<and> watchlist x3 (KTransaction h) = Some n"
proof -
  have step: "sent = snd (fold (\<lambda>(k, v). signal k v) (block_events henv blk) (watchlist x, []))
      \<and> watchlist x' = fst (fold (\<lambda>(k, v). signal k v) (block_events henv blk) (watchlist x, []))"
    if "watcher_block w ser henv run blk x = Some (sent, x')" for blk x sent x'
    using that by (auto simp: watcher_block_def Let_def signal_block_events block_events_def split: prod.splits)
  note spec = fold_signal [where sent = "[]" and n = n]
  have "(n, v) \<notin> set sent" using step [OF assms(3)] assms(4) spec [where wl = "watchlist x" and v = v] by (auto simp: ran_def)
  have gone: "watchlist x1 k \<noteq> Some n" for k
    using step [OF assms(3)] assms(4) spec [where wl = "watchlist x" and k = k] by (auto simp: ran_def)
  have x2: "x2 = await_transaction h n x1" using assms(1,5)
    by (auto simp: send_and_confirm_transaction_def Let_def split: prod.splits option.splits sum.splits)
  then have wl: "watchlist x2 k = (if k = KTransaction h then Some n else watchlist x1 k)" for k
    by (simp add: await_transaction_def await_key_def)
  have none: "map_of (block_events henv later) (KTransaction h) = None" using assms(7) by (simp add: map_of_eq_None_iff)
  have "(n, v) \<notin> set sent'"
    using step [OF assms(6)] spec [where wl = "watchlist x2" and v = v] none gone by (auto simp: wl split: if_splits)
  moreover have "watchlist x3 (KTransaction h) = Some n"
    using step [OF assms(6)] spec [where wl = "watchlist x2" and k = "KTransaction h"] assms(7) by (simp add: wl)
  ultimately show ?thesis using \<open>(n, v) \<notin> set sent\<close> by blast
qed

lemma confirmation_lost_example:
  "\<exists>blk later sent x1 t x2 sent' x3.
      watcher_block sample_wasm (\<lambda>_. None) sample_env (\<lambda>_ _ _. Some []) blk \<lparr>watchlist = Map.empty, state_builder = fresh_builder\<rparr> = Some (sent, x1)
    \<and> write_tx ''/a'' \<in> set (block_transactions blk)
    \<and> send_and_confirm_transaction sample_env (\<lambda>_. (sample_world 0, sample_topic\<lparr>active_peers := [([1], 5, [])]\<rparr>)) (write_tx ''/a'') 3
        (\<lambda>_. x1) \<lparr>watchlist = Map.empty, state_builder = fresh_builder\<rparr> = Some (Inr (t, x2))
    \<and> watcher_block sample_wasm (\<lambda>_. None) sample_env (\<lambda>_ _ _. Some []) later x2 = Some (sent', x3)
    \<and> watchlist x3 (KTransaction (fst (transaction_hash sample_env (write_tx ''/a'')))) = Some 3"
proof -
  let ?x = "\<lparr>watchlist = Map.empty, state_builder = fresh_builder\<rparr>"
  let ?blk = "block_new sample_env (block_zero []) [write_tx ''/a'']" and ?later = "block_zero [9]"
  let ?net = "\<lambda>_ :: nat. (sample_world 0, sample_topic\<lparr>active_peers := [([1], 5, [])]\<rparr>)"
  let ?h = "fst (transaction_hash sample_env (write_tx ''/a''))"
  have keys: "KTransaction ?h \<in> fst ` set (block_events sample_env ?blk)" "KTransaction ?h \<notin> fst ` set (block_events sample_env ?later)"
    by (simp_all add: block_events_def tx_events_def block_new_def block_zero_def)
  obtain b where "builder_consume sample_wasm (\<lambda>_. None) sample_env (\<lambda>_ _ _. Some []) ?blk fresh_builder = Some (Inr (), b)"
    "recent b \<noteq> []"
    by (simp add: builder_consume_def fresh_builder_def push_block_def
        block_new_def block_hash_def merge_results_def try_precompile_predicates_def diff_iter_def diff_default_def Let_def)
  moreover obtain wl sent where "fold (signal_tx sample_env ?blk) (block_transactions ?blk) (Map.empty, []) = (wl, sent)"
    by (cases "fold (signal_tx sample_env ?blk) (block_transactions ?blk) (Map.empty, [])")
  ultimately obtain sent x1 where b1: "watcher_block sample_wasm (\<lambda>_. None) sample_env (\<lambda>_ _ _. Some []) ?blk ?x = Some (sent, x1)"
    and r1: "recent (state_builder x1) \<noteq> []"
    by (simp add: watcher_block_def)
  have "length (to_vec_transaction sample_env (transaction_to_wire (snd (transaction_hash sample_env (write_tx ''/a''))))) \<le> 1024 * 1024"
    by (simp add: sample_env_def)
  then obtain t where "gossip_until_connected ?net (to_vec_transaction sample_env (transaction_to_wire (snd (transaction_hash sample_env (write_tx ''/a''))))) 0
      = Some (Inr (0, t))"
    by (simp add: gossip_until_connected.simps [of ?net _ 0] gossip_def default_config_def)
  then have s: "send_and_confirm_transaction sample_env ?net (write_tx ''/a'') 3 (\<lambda>_. x1) ?x = Some (Inr (t, await_transaction ?h 3 x1))"
    by (cases "transaction_hash sample_env (write_tx ''/a'')") (simp add: send_and_confirm_transaction_def Let_def)
  have "builder_consume sample_wasm (\<lambda>_. None) sample_env (\<lambda>_ _ _. Some []) ?later (state_builder x1) \<noteq> None"
    using r1 by (cases "recent (state_builder x1)") (simp_all add: builder_consume_def merge_results_def
        try_precompile_predicates_def diff_iter_def diff_default_def Let_def split: prod.split)
  then obtain sent' x3 where b2: "watcher_block sample_wasm (\<lambda>_. None) sample_env (\<lambda>_ _ _. Some []) ?later (await_transaction ?h 3 x1) = Some (sent', x3)"
    by (auto simp: watcher_block_def await_transaction_def await_key_def block_zero_def)
  have "3 \<notin> ran (watchlist ?x)" by simp
  from confirmation_lost [OF refl keys(1) b1 this s b2 keys(2)] b1 s b2 show ?thesis
    by (intro exI [of _ ?blk] exI [of _ ?later]) (auto simp: block_new_def)
qed

end
