(* ===== verification/Codecache.thy ===== *)
theory Codecache
  imports Builder
begin

text \<open>
  The cache of compiled predicates: \<open>sdk/offchain/src/builder.rs\<close> writes it (\<open>try_precompile_predicates\<close>)
  and \<open>invoke\<close> of \<open>vm/src/execution.rs\<close> reads it, under keys both compute from the digest of the code.
  What ties them together is that an entry deserialises to the module its code compiles to.
\<close>

definition cache_coherent :: "('m, 'i, 'f, 's) wasm_env \<Rightarrow> state_view \<Rightarrow> bool" where
  "cache_coherent w cache \<longleftrightarrow>
     (\<forall>code val m. cache (Address (predcache_path w code)) = Some val
        \<longrightarrow> module_deserialize w (acc_state val) = Some m \<longrightarrow> module_from_binary w code = Inr m)"

text \<open>What is assumed of the runtime and the digest: a serialised module deserialises to itself, and code
  with the same cache key compiles to the same module.\<close>

definition serializer_ok :: "('m, 'i, 'f, 's) wasm_env \<Rightarrow> ('m \<Rightarrow> bytes option) \<Rightarrow> bool" where
  "serializer_ok w ser \<longleftrightarrow> (\<forall>m b. ser m = Some b \<longrightarrow> module_deserialize w b = Some m)
     \<and> (\<forall>code code'. predcache_path w code = predcache_path w code'
          \<longrightarrow> module_from_binary w code = module_from_binary w code')"

lemma address_new_path: "address_new s = Inr a \<Longrightarrow> a = Address s"
  by (simp add: address_new_Inr_iff)

lemma coherent_transparent:
  assumes "cache_coherent w cache"
  shows "invoke w ctx p cache = invoke w ctx p (\<lambda>_. None)"
proof -
  have "load_module w p cache (Address (predcache_path w (xcode (pred_code p))))
      = load_module w p (\<lambda>_. None) (Address (predcache_path w (xcode (pred_code p))))"
    using assms by (auto simp: load_module_def cache_coherent_def map_err_def split: option.splits)
  then show ?thesis by (auto simp: invoke_def dest!: address_new_path split: sum.splits)
qed

text \<open>A diff that only holds precompiled modules.\<close>

definition compiled_diff :: "('m, 'i, 'f, 's) wasm_env \<Rightarrow> ('m \<Rightarrow> bytes option) \<Rightarrow> state_diff \<Rightarrow> bool" where
  "compiled_diff w ser d \<longleftrightarrow> diff_wf d
     \<and> (\<forall>a acc. bt_get (upserts d) a = Some acc \<longrightarrow>
          (\<exists>code m. a = Address (predcache_path w code) \<and> module_from_binary w code = Inr m \<and> ser m = Some (acc_state acc)))"

lemma precompile_change_compiled:
  assumes "precompile_change w ser e out = Some out'" "compiled_diff w ser out"
  shows "compiled_diff w ser out'"
proof -
  from assms(1) consider "out' = out"
    | code m s where "module_from_binary w code = Inr m" "ser m = Some s"
      "out' = snd (diff_set out (Address (predcache_path w code))
         \<lparr>acc_state = s, acc_predicates = TId \<lparr>pred_code = CodeInline [], pred_params = []\<rparr>\<rparr>)"
    by (auto simp: precompile_change_def dest!: address_new_path split: option.splits if_splits sum.splits)
  then show ?thesis
  proof cases
    case 2
    with assms(2) show ?thesis by (fastforce simp: compiled_diff_def diff_wf_set)
  qed (use assms(2) in simp)
qed

lemma precompile_all_compiled:
  "precompile_all w ser es out = Some out' \<Longrightarrow> compiled_diff w ser out \<Longrightarrow> compiled_diff w ser out'"
  by (induction es arbitrary: out) (auto split: option.splits dest: precompile_change_compiled)

lemma precompiled_diff: "try_precompile_predicates w ser d = Some c \<Longrightarrow> compiled_diff w ser c"
  unfolding try_precompile_predicates_def
  by (erule precompile_all_compiled) (simp add: compiled_diff_def, simp add: diff_default_def)

lemma coherent_apply:
  assumes "serializer_ok w ser" "compiled_diff w ser d" "cache_coherent w (memory_get s)"
  shows "cache_coherent w (memory_get (memory_apply s d))"
  unfolding cache_coherent_def
proof (intro allI impI)
  fix code val m
  assume get: "memory_get (memory_apply s d) (Address (predcache_path w code)) = Some val"
    and m: "module_deserialize w (acc_state val) = Some m"
  from get assms(2) consider "memory_get s (Address (predcache_path w code)) = Some val"
    | "bt_get (upserts d) (Address (predcache_path w code)) = Some val"
    by (auto simp: mem_store.get_apply compiled_diff_def diff_effect_def split: if_splits option.splits)
  then show "module_from_binary w code = Inr m"
  proof cases
    case 1
    with assms(3) m show ?thesis by (auto simp: cache_coherent_def)
  next
    case 2
    with assms(2) obtain code' m' where "predcache_path w code = predcache_path w code'"
      "module_from_binary w code' = Inr m'" "ser m' = Some (acc_state val)"
      by (fastforce simp: compiled_diff_def)
    with assms(1) m show ?thesis unfolding serializer_ok_def by (metis option.inject)
  qed
qed

lemma coherent_consume:
  assumes "serializer_ok w ser" "cache_coherent w (memory_get (codecache b))"
    "builder_consume w ser env run blk b = Some (r, b')"
  shows "cache_coherent w (memory_get (codecache b'))"
  using assms(2,3) coherent_apply [OF assms(1) precompiled_diff]
  by (auto simp: builder_consume_def Let_def split: list.splits prod.splits if_splits option.splits)

lemma coherent_run:
  assumes "serializer_ok w ser"
  shows "node_run w ser env run es p = Some (blks, p') \<Longrightarrow> cache_coherent w (memory_get (codecache (pool_blocks p)))
    \<Longrightarrow> cache_coherent w (memory_get (codecache (pool_blocks p')))"
proof (induction es arbitrary: p blks)
  case (Cons e es)
  from Cons.prems(1) obtain out p1 more where step: "node_step w ser env run e p = Some (out, p1)"
    and rest: "node_run w ser env run es p1 = Some (more, p')" by (auto split: option.splits prod.splits)
  have "cache_coherent w (memory_get (codecache (pool_blocks p1)))"
    using step Cons.prems(2) coherent_consume [OF assms]
    by (cases "(w, ser, env, run, e, p)" rule: node_step.cases)
      (auto simp: mempool_consume_def mempool_produce_def Let_def split: option.splits sum.splits prod.splits)
  with Cons.IH [OF rest] show ?case .
qed simp

section \<open>Properties\<close>

text \<open>C14. The code cache is transparent: along any run of the node that starts with an empty cache,
  invoking a predicate with the cache the node has built gives the same result, error or panic as
  compiling its code afresh.\<close>

theorem code_cache_transparent:
  assumes "serializer_ok w ser" "codecache b = memory_default"
    "node_run w ser env run es (mempool_new b) = Some (blks, p)"
  shows "invoke w ctx pred (memory_get (codecache (pool_blocks p))) = invoke w ctx pred (\<lambda>_. None)"
proof -
  have "cache_coherent w (memory_get (codecache (pool_blocks (mempool_new b))))"
    using assms(2) by (simp add: cache_coherent_def mempool_new_def memory_get_def memory_default_def)
  then show ?thesis by (rule coherent_transparent [OF coherent_run [OF assms(1,3)]])
qed

text \<open>A runtime that stores modules as they are, under keys that spell out the code.\<close>

definition spell :: "bytes \<Rightarrow> string" where
  "spell b = CHR ''x'' # concat (map (\<lambda>x. [char_of (65 + unat x div 16), char_of (65 + unat x mod 16)]) b)"

lemma spell_inj: "spell b = spell b' \<Longrightarrow> b = b'"
proof -
  have nibble: "65 + n mod 16 = 65 + m mod 16" if "char_of (65 + n mod 16) = (char_of (65 + m mod 16) :: char)" for n m :: nat
    using arg_cong [OF that, of "of_char :: char \<Rightarrow> nat"] by (simp add: mod_less)
  have byte: "x = y" if "char_of (65 + unat x div 16) = (char_of (65 + unat y div 16) :: char)"
    "char_of (65 + unat x mod 16) = (char_of (65 + unat y mod 16) :: char)" for x y :: byte
  proof -
    have "unat x div 16 < 16" "unat y div 16 < 16" using unsigned_less [of x, where ?'a = nat] unsigned_less [of y, where ?'a = nat] by simp_all
    with that(1) have "unat x div 16 = unat y div 16" using nibble [of "unat x div 16" "unat y div 16"] by simp
    moreover have "unat x mod 16 = unat y mod 16" using nibble [OF that(2)] by simp
    ultimately have "unat x = unat y" by (metis div_mult_mod_eq)
    then show ?thesis by (simp add: word_unat_eq_iff)
  qed
  assume "spell b = spell b'"
  then show ?thesis unfolding spell_def
  proof (induction b arbitrary: b')
    case Nil
    then show ?case by (cases b') auto
  next
    case (Cons x b)
    then obtain y c where b': "b' = y # c" by (cases b') auto
    with Cons byte [of x y] show ?case by auto
  qed
qed

definition storing_wasm :: "(bytes, bytes, bytes, unit) wasm_env" where
  "storing_wasm = sample_wasm\<lparr>bs58_encode := spell, module_deserialize := (\<lambda>b. Some b)\<rparr>"

lemma storing_wasm_ok: "serializer_ok storing_wasm Some"
  by (auto simp: serializer_ok_def storing_wasm_def sample_wasm_def predcache_path_def dest: spell_inj)

definition install_run :: block_runner where
  "install_run state cache txs = Some [Inr \<lparr>upserts = [(Address ''/a'', sample_account WASM_SIG)], deletes = []\<rparr>]"

theorem code_cache_transparent_witness:
  "\<exists>blks p. node_run storing_wasm Some sample_env install_run [Tick] (mempool_new fresh_builder) = Some (blks, p)
    \<and> memory_get (codecache (pool_blocks p)) (Address (predcache_path storing_wasm WASM_SIG)) \<noteq> None
    \<and> invoke storing_wasm [] (sample_pred WASM_SIG) (memory_get (codecache (pool_blocks p)))
        = invoke storing_wasm [] (sample_pred WASM_SIG) (\<lambda>_. None)"
proof -
  have c: "codecache fresh_builder = memory_default" by (simp add: fresh_builder_def)
  have a: "is_ok (address_new (predcache_path storing_wasm WASM_SIG))" by code_simp
  then have "address_new (predcache_path storing_wasm WASM_SIG) = Inr (Address (predcache_path storing_wasm WASM_SIG))"
    by (auto simp: is_ok_iff dest: address_new_path)
  then obtain blks p where run: "node_run storing_wasm Some sample_env install_run [Tick] (mempool_new fresh_builder) = Some (blks, p)"
    and key: "memory_get (codecache (pool_blocks p)) (Address (predcache_path storing_wasm WASM_SIG)) \<noteq> None"
    by (simp add: mempool_produce_def mempool_new_def fresh_builder_def builder_last_def builder_consume_def
        install_run_def merge_results_def try_precompile_predicates_def diff_iter_def precompile_change_def
        sample_account_def starts_with_def storing_wasm_def sample_wasm_def block_new_def block_hash_def
        memory_apply_def memory_get_def diff_set_def diff_default_def bt_remove_def Let_def)
  from code_cache_transparent [OF storing_wasm_ok c run] run key show ?thesis by blast
qed

end
