(* ===== verification/Ledger.thy ===== *)
theory Ledger
  imports Pgqf Codecache
begin

text \<open>
  Accounts under guard: how a tree of standard predicates on an account or in an intent constrains what
  an accepted transaction can do.  It joins the guard collection of \<open>vm/src/collect.rs\<close>, the verdict of
  \<open>vm/src/execution.rs\<close>, the call into the guest (\<open>Guest\<close>) and the predicates of \<open>stdpred\<close>, for the
  accounts that the example client creates.  \<open>stdpred_deployed\<close> says that the account \<open>/stdpred\<close> holds
  code that compiles to the standard library and that the code cache is coherent.
\<close>

section \<open>Which guards a change triggers\<close>

lemma parent_in_ancestors:
  assumes "valid_address a" "valid_address b" "is_parent_of b a" "ancestors a = Some ups"
  shows "b \<in> set ups"
proof -
  from assms(1,2) obtain p q where p: "valid_segments p" "a = Address (join_path p)"
    and q: "valid_segments q" "b = Address (join_path q)" by (auto simp: valid_address_iff)
  with assms(3) obtain r where r: "r \<noteq> []" "p = q @ r" using is_parent_of_join by blast
  have "ups = map (\<lambda>k. Address (join_path (take k p))) (rev [1..<length p])"
    using ancestors_join [OF p(1)] assms(4) p(2) by simp
  moreover have "0 < length q" "0 < length r" using r(1) q(1) by (auto simp: valid_segments_def)
  then have "length q \<in> set [1..<length p]" using r(2) by (simp add: Suc_le_eq)
  moreover have "take (length q) p = q" using r(2) by simp
  ultimately show ?thesis using q(2) by force
qed

lemma guard_addresses_mem:
  "b \<in> set (guard_addresses as) \<longleftrightarrow> (\<exists>a \<in> set as. b = a \<or> (\<exists>ups. ancestors a = Some ups \<and> b \<in> set ups))"
  by (induction as) (auto split: option.splits)

lemma touched_guard:
  assumes "valid_proposals tx" "valid_address a" "bt_get (tx_proposals tx) x \<noteq> None" "x = a \<or> is_parent_of a x"
  shows "a \<in> set (guard_addresses (bt_keys (tx_proposals tx)))"
proof -
  have x: "x \<in> set (bt_keys (tx_proposals tx))" using assms(3) by (auto simp: bt_keys_def bt_get_dom)
  then have "valid_address x" using assms(1) by (simp add: valid_proposals_def list_all_iff)
  then obtain ups where ups: "ancestors x = Some ups" by (rule valid_ancestors)
  have "x = a \<or> a \<in> set ups" using assms(4) parent_in_ancestors [OF \<open>valid_address x\<close> assms(2) _ ups] by blast
  then show ?thesis unfolding guard_addresses_mem using x ups by blast
qed

section \<open>The standard library in place\<close>

definition stdpred_deployed ::
  "'h allocator \<Rightarrow> guest_codec \<Rightarrow> (library, library, guest_fn, 'h guest) wasm_env \<Rightarrow> 'sig decoders \<Rightarrow> state_view \<Rightarrow> state_view \<Rightarrow> bool"
where
  "stdpred_deployed al cd w dec cache state \<longleftrightarrow>
     allocator_laws al \<and> codec_ok cd \<and> cache_coherent w cache
     \<and> (\<exists>hash b58 deser binary. w = guest_env al cd hash b58 deser binary)
     \<and> (\<exists>acc. state stdpred_address = Some acc \<and> module_from_binary w (acc_state acc) = Inr (stdpred_library dec))"

lemma stdpred_names: "stdpred_library dec ep = Some f \<Longrightarrow> ep \<notin> set reserved_names"
  by (auto simp: stdpred_library_def reserved_names_def split: if_splits)

text \<open>A leaf that names an export of the library is true when the export returns \<open>true\<close>; the library may live at
  any address.\<close>

lemma library_invoked:
  assumes "allocator_laws al" "codec_ok cd" "cache_coherent w cache" "w = guest_env al cd hash b58 deser binary"
    "state lib = Some acc" "module_from_binary w (acc_state acc) = Inr (stdpred_library dec)" "context_to_vec w ctx = Inr c"
    "expand_predicate state ctx cdata \<lparr>pred_code = CodeAccountRef lib ep, pred_params = ps\<rparr> = Inr q"
    "ep \<notin> set reserved_names" "invoke w c q cache = Some (Inr True)"
  obtains f qs where "stdpred_library dec ep = Some f" "f qs ctx = Some True"
    "list_all2 (\<lambda>p x. expand_param state ctx cdata \<lparr>pred_code = CodeAccountRef lib ep, pred_params = ps\<rparr> p = Inr x) ps qs"
proof -
  from assms(8,5) have q: "pred_code q = \<lparr>xcode = acc_state acc, entrypoint = ep\<rparr>"
    "list_all2 (\<lambda>p x. expand_param state ctx cdata \<lparr>pred_code = CodeAccountRef lib ep, pred_params = ps\<rparr> p = Inr x) ps (pred_params q)"
    by (auto simp: expand_predicate_def expand_code_def try_list_Inr_iff)
  have "invoke w c q (\<lambda>_. None) = Some (Inr True)" using assms(10) coherent_transparent [OF assms(3)] by simp
  then have "run_module w c q (stdpred_library dec) = Inr True"
    using assms(6) q(1) by (auto simp: invoke_def load_module_def map_err_def split: sum.splits)
  then have "run_module (guest_env al cd hash b58 deser binary) c q (stdpred_library dec) = Inr True" unfolding assms(4) .
  moreover have "enc_context cd ctx = Inr c" using assms(7,4) by simp
  ultimately obtain f where "stdpred_library dec (entrypoint (pred_code q)) = Some f" "f (pred_params q) ctx = Some True"
    using run_guest_True [OF assms(1,2)] assms(9) q(1) by (metis expanded_code.select_convs(2))
  with q show thesis using that by simp
qed

lemma stdpred_invoked:
  assumes "stdpred_deployed al cd w dec cache state" "context_to_vec w ctx = Inr c"
    "expand_predicate state ctx cdata \<lparr>pred_code = CodeAccountRef stdpred_address ep, pred_params = ps\<rparr> = Inr q"
    "ep \<notin> set reserved_names" "invoke w c q cache = Some (Inr True)"
  obtains f qs where "stdpred_library dec ep = Some f" "f qs ctx = Some True"
    "list_all2 (\<lambda>p x. expand_param state ctx cdata \<lparr>pred_code = CodeAccountRef stdpred_address ep, pred_params = ps\<rparr> p = Inr x) ps qs"
  using assms(1) library_invoked [OF _ _ _ _ _ _ assms(2-5)] unfolding stdpred_deployed_def by metis

text \<open>The truth of an expanded tree of standard predicates, leaf by leaf.\<close>

lemma std_leaf_expanded:
  "expand_predicate_tree state (std_leaf ep ps) ctx cdata = Inr t \<longleftrightarrow>
     (\<exists>q. expand_predicate state ctx cdata \<lparr>pred_code = CodeAccountRef stdpred_address ep, pred_params = ps\<rparr> = Inr q \<and> t = TId q)"
  by (auto simp: expand_predicate_tree_def std_leaf_def)

lemma tree_expanded:
  "expand_predicate_tree state (TAnd l r) ctx cdata = Inr t \<longleftrightarrow>
     (\<exists>l' r'. expand_predicate_tree state l ctx cdata = Inr l' \<and> expand_predicate_tree state r ctx cdata = Inr r' \<and> t = TAnd l' r')"
  "expand_predicate_tree state (TOr l r) ctx cdata = Inr t \<longleftrightarrow>
     (\<exists>l' r'. expand_predicate_tree state l ctx cdata = Inr l' \<and> expand_predicate_tree state r ctx cdata = Inr r' \<and> t = TOr l' r')"
  by (auto simp: expand_predicate_tree_def)

lemma expand_param_results:
  "expand_param state ctx cdata pr (ParamInline b) = Inr x \<longleftrightarrow> x = XInline b"
  "expand_param state ctx cdata pr (ParamAccountRef a) = Inr x \<longleftrightarrow> (\<exists>acc. state a = Some acc \<and> x = XAccountRef a (acc_state acc))"
  "expand_param state ctx cdata pr (ParamProposalRef a) = Inr x \<longleftrightarrow>
     (\<exists>ch. bt_get (ctx_proposals ctx) a = Some ch \<and> x = XProposalRef a ch)"
  by (auto simp: expand_param_def split: option.splits)

lemma context_proposals_None:
  assumes "predicate_context_of env state tx = Inr ctx" "bt_inv (tx_proposals tx)" "bt_get (tx_proposals tx) a = None"
  shows "bt_get (ctx_proposals ctx) a = None"
proof -
  have "bt_get ps a = bt_get m a" if "fold_res (expand_proposal state) es m = Inr ps" "a \<notin> fst ` set es" for es m ps
    using that by (induction es arbitrary: m) (auto simp: expand_proposal_def)
  then show ?thesis using assms by (auto simp: predicate_context_of_def bt_get_None_iff [of "tx_proposals tx"])
qed

section \<open>What an accepted transaction has proved to the standard library\<close>

text \<open>A leaf over the standard library is true when the predicate it names returns \<open>true\<close> on the expanded
  parameters.\<close>

definition std_true :: "'sig decoders \<Rightarrow> state_view \<Rightarrow> predicate_context \<Rightarrow> calldata \<Rightarrow> basic_predicate \<Rightarrow> bool" where
  "std_true dec state ctx cdata pr \<longleftrightarrow>
     (\<forall>ep. pred_code pr = CodeAccountRef stdpred_address ep \<longrightarrow> ep \<notin> set reserved_names \<longrightarrow>
        (\<exists>f qs. stdpred_library dec ep = Some f \<and> f qs ctx = Some True
          \<and> list_all2 (\<lambda>p x. expand_param state ctx cdata pr p = Inr x) (pred_params pr) qs))"

lemma std_tree_true:
  assumes "stdpred_deployed al cd w dec cache state" "context_to_vec w ctx = Inr c"
  shows "expand_predicate_tree state t ctx cdata = Inr t' \<Longrightarrow> negation_free t
    \<Longrightarrow> tree_holds (accepts (\<lambda>p. invoke w c p cache)) t' \<Longrightarrow> tree_holds (std_true dec state ctx cdata) t"
proof (induction t arbitrary: t')
  case (TId pr)
  then obtain q where q: "expand_predicate state ctx cdata pr = Inr q" "invoke w c q cache = Some (Inr True)"
    by (auto simp: expand_predicate_tree_def accepts_def)
  have "\<exists>f qs. stdpred_library dec ep = Some f \<and> f qs ctx = Some True
      \<and> list_all2 (\<lambda>p x. expand_param state ctx cdata pr p = Inr x) (pred_params pr) qs"
    if "pred_code pr = CodeAccountRef stdpred_address ep" "ep \<notin> set reserved_names" for ep
  proof -
    have pr: "pr = \<lparr>pred_code = CodeAccountRef stdpred_address ep, pred_params = pred_params pr\<rparr>" using that(1) by simp
    with q(1) have "expand_predicate state ctx cdata
        \<lparr>pred_code = CodeAccountRef stdpred_address ep, pred_params = pred_params pr\<rparr> = Inr q" by simp
    from stdpred_invoked [OF assms this that(2) q(2)] obtain f qs where
      "stdpred_library dec ep = Some f" "f qs ctx = Some True"
      "list_all2 (\<lambda>p x. expand_param state ctx cdata
         \<lparr>pred_code = CodeAccountRef stdpred_address ep, pred_params = pred_params pr\<rparr> p = Inr x) (pred_params pr) qs" .
    with pr show ?thesis by metis
  qed
  then show ?case by (simp add: std_true_def)
qed (auto simp: tree_expanded)

lemma accepted_account:
  assumes "stdpred_deployed al cd w dec cache state"
    "execute w env order sched split tx state cache = Some (Inr d)" "valid_proposals tx"
    "\<And>out. mset (order out) = mset out" "valid_address a" "state a = Some acc" "negation_free (acc_predicates acc)"
    "bt_get (tx_proposals tx) x \<noteq> None" "x = a \<or> is_parent_of a x"
  obtains ctx where "predicate_context_of env state tx = Inr ctx" "outputs state tx = Inr d"
    "tree_holds (std_true dec state ctx (merged_calldata ctx)) (acc_predicates acc)"
proof (rule execute_acceptedE [OF assms(2,3,4)])
  fix ctx c
  assume ctx: "predicate_context_of env state tx = Inr ctx" "context_to_vec w ctx = Inr c" "outputs state tx = Inr d"
    and ok: "list_all is_ok (guard_trees state ctx tx)"
    and holds: "\<And>t. t \<in> set (required_trees state ctx tx) \<Longrightarrow> negation_free t
      \<Longrightarrow> tree_holds (accepts (\<lambda>p. invoke w c p cache)) t"
  have "a \<in> set (guard_addresses (bt_keys (tx_proposals tx)))" using touched_guard [OF assms(3,5,8,9)] .
  then obtain t where t: "expand_predicate_tree state (acc_predicates acc) ctx (merged_calldata ctx) = Inr t"
    "t \<in> set (required_trees state ctx tx)" using account_tree_required [OF ok _ assms(6)] by blast
  then have "negation_free t" using assms(7) tree_try_map_negation_free by (auto simp: expand_predicate_tree_def)
  with std_tree_true [OF assms(1) ctx(2) t(1) assms(7)] holds [OF t(2)] ctx show thesis using that by blast
qed

lemma accepted_intent:
  assumes "stdpred_deployed al cd w dec cache state"
    "execute w env order sched split tx state cache = Some (Inr d)" "valid_proposals tx"
    "\<And>out. mset (order out) = mset out" "i \<in> set (tx_intents tx)" "negation_free (expectations i)"
  obtains ctx where "predicate_context_of env state tx = Inr ctx" "outputs state tx = Inr d"
    "tree_holds (std_true dec state ctx (intent_calldata i)) (expectations i)"
proof (rule execute_acceptedE [OF assms(2,3,4)])
  fix ctx c
  assume ctx: "predicate_context_of env state tx = Inr ctx" "context_to_vec w ctx = Inr c" "outputs state tx = Inr d"
    and ok: "list_all is_ok (guard_trees state ctx tx)"
    and holds: "\<And>t. t \<in> set (required_trees state ctx tx) \<Longrightarrow> negation_free t
      \<Longrightarrow> tree_holds (accepts (\<lambda>p. invoke w c p cache)) t"
  obtain t where t: "expand_predicate_tree state (expectations i) ctx (intent_calldata i) = Inr t"
    "t \<in> set (required_trees state ctx tx)" using intent_tree_required [OF ok assms(5)] by blast
  then have "negation_free t" using assms(6) tree_try_map_negation_free by (auto simp: expand_predicate_tree_def)
  with std_tree_true [OF assms(1) ctx(2) t(1) assms(6)] holds [OF t(2)] ctx show thesis using that by blast
qed

text \<open>What the leaves the client uses say, once true.\<close>

lemma std_leaf_holds:
  "tree_holds (std_true dec state ctx cdata) (std_leaf ep ps) \<longleftrightarrow>
     std_true dec state ctx cdata \<lparr>pred_code = CodeAccountRef stdpred_address ep, pred_params = ps\<rparr>"
  "negation_free (std_leaf ep ps)"
  by (simp_all add: std_leaf_def)

lemma std_exports:
  "stdpred_library dec ''constant'' = Some (constant_pred dec)"
  "stdpred_library dec ''immutable_state'' = Some (immutable_state dec)"
  "stdpred_library dec ''immutable_predicates'' = Some (immutable_predicates dec)"
  "stdpred_library dec ''uint_greater_than_equal'' = Some (uint_greater_than_equal dec)"
  "stdpred_library dec ''uint_greater_than_by'' = Some (uint_greater_than_by dec)"
  "stdpred_library dec ''uint_less_than_by'' = Some (uint_less_than_by dec)"
  "stdpred_library dec ''require_ed25519_signature'' = Some (require_ed25519_signature dec)"
  by (simp_all add: stdpred_library_def)

lemma std_leaf_true:
  assumes "stdpred_library dec ep = Some f"
  shows "tree_holds (std_true dec state ctx cdata) (std_leaf ep ps) \<longleftrightarrow>
    (\<exists>qs. f qs ctx = Some True
      \<and> list_all2 (\<lambda>p x. expand_param state ctx cdata \<lparr>pred_code = CodeAccountRef stdpred_address ep, pred_params = ps\<rparr> p = Inr x) ps qs)"
  using assms stdpred_names [OF assms] by (simp add: std_leaf_holds std_true_def)

lemmas std_leaf_facts = std_exports [THEN std_leaf_true] list_all2_Cons1 expand_param_results

lemma constant_leaf:
  "tree_holds (std_true dec state ctx cdata) (std_leaf ''constant'' [ParamInline f]) \<longleftrightarrow> dec_bool dec f = Some True"
  by (simp add: std_leaf_facts constant_pred_def)

lemma signature_leaf:
  assumes "tree_holds (std_true dec state ctx cdata) (std_leaf ''require_ed25519_signature'' [ParamInline key])"
    "pubkey_from_bytes dec key = Some pk"
  shows "\<exists>e \<in> set (ctx_calldata ctx). signed_by dec pk e"
proof -
  from assms(1) have "require_ed25519_signature dec [XInline key] ctx = Some True" by (simp add: std_leaf_facts)
  with signature_first_only [of dec "XInline key" pk ctx] assms(2) show ?thesis by simp
qed

text \<open>The state a proposal would leave, as a number.\<close>

lemma proposal_u64:
  assumes "predicate_context_of env state tx = Inr ctx" "bt_inv (tx_proposals tx)" "bt_get (ctx_proposals ctx) a = Some ch"
    "dec_u64 dec [] = None" "slice_to_u64 dec (XProposalRef a ch) = Some v" "state a \<noteq> None" "outputs state tx = Inr d"
  obtains s where "bt_get (tx_proposals tx) a = Some (ReplaceState s)" "dec_u64 dec s = Some v"
proof -
  obtain p where p: "bt_get (tx_proposals tx) a = Some p"
    using context_proposals_None [OF assms(1,2)] assms(3) by fastforce
  have app: "change_applicable p (state a)" using outputs_Inr(2) [OF assms(7,2)] p by (auto dest: bt_get_Some_mem)
  from context_proposals [OF assms(1,2) p] assms(3) have "expand_account_change a state p = Inr ch" by auto
  with assms(4,5,6) app p show thesis using that
    by (cases p) (auto simp: expand_account_change_def slice_to_u64_def split: option.splits)
qed

section \<open>Wallets\<close>

lemma bt_collect_subset: "set (bt_collect kvs) \<subseteq> set kvs"
proof -
  have ins: "set (bt_insert k v m) \<subseteq> insert (k, v) (set m)" for k :: "'a" and v :: "'b" and m
    by (induction m rule: bt_insert.induct) auto
  have "set (bt_extend m kvs) \<subseteq> set m \<union> set kvs" for m
    unfolding bt_extend_def using ins by (induction kvs arbitrary: m) fastforce+
  from this [of "[]"] show ?thesis by (simp add: bt_collect_def)
qed

lemma collected_calldata:
  assumes "predicate_context_of env state tx = Inr ctx" "e \<in> set (ctx_calldata ctx)"
  shows "\<exists>i \<in> set (tx_intents tx). e = (fst (intent_hash env i), intent_calldata i)"
proof -
  from assms have "e \<in> set (bt_collect (map (\<lambda>i. (fst (intent_hash env i), intent_calldata i)) (tx_intents tx)))"
    by (auto simp: predicate_context_of_def)
  then show ?thesis using bt_collect_subset by fastforce
qed

definition signs :: "'sig decoders \<Rightarrow> hash_env \<Rightarrow> bytes \<Rightarrow> transaction \<Rightarrow> bool" where
  "signs dec env pk tx = list_ex (\<lambda>i. signed_by dec pk (fst (intent_hash env i), intent_calldata i)) (tx_intents tx)"

lemma collected_signs:
  assumes "predicate_context_of env state tx = Inr ctx" "e \<in> set (ctx_calldata ctx)" "signed_by dec pk e"
  shows "signs dec env pk tx"
  using collected_calldata [OF assms(1,2)] assms(3) by (auto simp: signs_def list_ex_iff)

text \<open>A wallet is kept when its predicates stay and its balance, if it changed at all, did not fall.\<close>

definition wallet_kept :: "'sig decoders \<Rightarrow> account \<Rightarrow> account \<Rightarrow> bool" where
  "wallet_kept dec acc acc' \<longleftrightarrow> acc_predicates acc' = acc_predicates acc
     \<and> (acc_state acc' = acc_state acc
        \<or> (case (dec_u64 dec (acc_state acc), dec_u64 dec (acc_state acc')) of (Some b, Some b') \<Rightarrow> b \<le> b' | _ \<Rightarrow> False))"

lemma wallet_kept_refl: "wallet_kept dec acc acc"
  by (simp add: wallet_kept_def)

lemma wallet_kept_trans: "wallet_kept dec x y \<Longrightarrow> wallet_kept dec y z \<Longrightarrow> wallet_kept dec x z"
  unfolding wallet_kept_def by (auto split: option.splits)

lemma wallet_step:
  assumes "stdpred_deployed al cd w dec cache state"
    "execute w env order sched split tx state cache = Some (Inr d)" "valid_proposals tx"
    "\<And>out. mset (order out) = mset out" "valid_address a" "state a = Some acc" "acc_predicates acc = wallet_tree a key"
    "pubkey_from_bytes dec key = Some pk" "dec_u64 dec [] = None" "\<not> signs dec env pk tx"
  shows "\<exists>acc'. diff_effect d state a = Some acc' \<and> wallet_kept dec acc acc'"
proof (cases "bt_get (tx_proposals tx) a = None")
  case True
  have inv: "bt_inv (tx_proposals tx)" using assms(3) by (simp add: valid_proposals_def)
  from assms(2) have "outputs state tx = Inr d" by (rule execute_outputs)
  from outputs_effect [OF this inv, of a] True assms(6) show ?thesis by (simp add: wallet_kept_refl)
next
  case False
  have inv: "bt_inv (tx_proposals tx)" using assms(3) by (simp add: valid_proposals_def)
  have nf: "negation_free (acc_predicates acc)" by (simp add: assms(7) wallet_tree_def std_leaf_holds)
  from accepted_account [OF assms(1-6) nf False] obtain ctx where
    ctx: "predicate_context_of env state tx = Inr ctx" "outputs state tx = Inr d"
    and holds: "tree_holds (std_true dec state ctx (merged_calldata ctx)) (wallet_tree a key)"
    unfolding assms(7) by blast
  have "\<not> tree_holds (std_true dec state ctx (merged_calldata ctx)) (std_leaf ''require_ed25519_signature'' [ParamInline key])"
    using signature_leaf [OF _ assms(8)] collected_signs [OF ctx(1)] assms(10) by blast
  with holds have "tree_holds (std_true dec state ctx (merged_calldata ctx))
      (std_leaf ''uint_greater_than_equal'' [ParamProposalRef a, ParamAccountRef a])" by (simp add: wallet_tree_def)
  then obtain ch where ch: "bt_get (ctx_proposals ctx) a = Some ch"
    "uint_greater_than_equal dec [XProposalRef a ch, XAccountRef a (acc_state acc)] ctx = Some True"
    by (auto simp: std_leaf_facts assms(6))
  then obtain b b' where b: "slice_to_u64 dec (XProposalRef a ch) = Some b'" "dec_u64 dec (acc_state acc) = Some b" "b \<le> b'"
    by (auto simp: uint_greater_than_equal_def uint_binary_def slice_to_u64_def split: option.splits)
  obtain s where s: "bt_get (tx_proposals tx) a = Some (ReplaceState s)" "dec_u64 dec s = Some b'"
    using proposal_u64 [OF ctx(1) inv ch(1) assms(9) b(1) _ ctx(2)] assms(6) by blast
  have "diff_effect d state a = Some \<lparr>acc_state = s, acc_predicates = acc_predicates acc\<rparr>"
    using outputs_effect [OF ctx(2) inv, of a] s(1) assms(6) by simp
  with s(2) b show ?thesis by (auto simp: wallet_kept_def)
qed

text \<open>Runs of accepted transactions none of which is signed with the key or replaces the library.\<close>

inductive unsigned_run ::
  "(library, library, guest_fn, 'h guest) wasm_env \<Rightarrow> hash_env \<Rightarrow> 'sig decoders \<Rightarrow> bytes \<Rightarrow> state_view \<Rightarrow> state_view \<Rightarrow> bool"
  for w env dec pk state
where
  start: "unsigned_run w env dec pk state state"
| step: "unsigned_run w env dec pk state s \<Longrightarrow> cache_coherent w cache
    \<Longrightarrow> execute w env order sched split tx s cache = Some (Inr d) \<Longrightarrow> valid_proposals tx
    \<Longrightarrow> (\<forall>out. mset (order out) = mset out) \<Longrightarrow> bt_get (tx_proposals tx) stdpred_address = None
    \<Longrightarrow> \<not> signs dec env pk tx \<Longrightarrow> unsigned_run w env dec pk state (diff_effect d s)"

lemma stdpred_deployed_step:
  assumes "stdpred_deployed al cd w dec cache state" "cache_coherent w cache'" "outputs state tx = Inr d"
    "bt_inv (tx_proposals tx)" "bt_get (tx_proposals tx) stdpred_address = None"
  shows "stdpred_deployed al cd w dec cache' (diff_effect d state)"
  using assms(1,2,5) outputs_effect [OF assms(3,4), of stdpred_address] by (simp add: stdpred_deployed_def)

lemma stdpred_deployed_cache:
  "stdpred_deployed al cd w dec cache state \<Longrightarrow> cache_coherent w cache' \<Longrightarrow> stdpred_deployed al cd w dec cache' state"
  by (simp add: stdpred_deployed_def)

lemma wallet_run:
  assumes "unsigned_run w env dec pk state s" "stdpred_deployed al cd w dec cache state" "valid_address a"
    "state a = Some acc" "acc_predicates acc = wallet_tree a key" "pubkey_from_bytes dec key = Some pk" "dec_u64 dec [] = None"
  shows "stdpred_deployed al cd w dec cache s \<and> (\<exists>acc'. s a = Some acc' \<and> wallet_kept dec acc acc')"
  using assms(1)
proof induction
  case start
  then show ?case using assms(2,4) by (auto simp: wallet_kept_refl)
next
  case (step s cache' order sched split tx d)
  then obtain acc' where dep: "stdpred_deployed al cd w dec cache s" and acc': "s a = Some acc'" "wallet_kept dec acc acc'" by blast
  have inv: "bt_inv (tx_proposals tx)" using step.hyps(4) by (simp add: valid_proposals_def)
  have dep': "stdpred_deployed al cd w dec cache' s" using stdpred_deployed_cache [OF dep step.hyps(2)] .
  have "acc_predicates acc' = wallet_tree a key" using acc'(2) assms(5) by (simp add: wallet_kept_def)
  from wallet_step [OF dep' step.hyps(3,4) _ assms(3) acc'(1) this assms(6,7) step.hyps(7)] step.hyps(5)
  obtain acc'' where "diff_effect d s a = Some acc''" "wallet_kept dec acc' acc''" by blast
  moreover have "cache_coherent w cache" using dep by (simp add: stdpred_deployed_def)
  then have "stdpred_deployed al cd w dec cache (diff_effect d s)"
    using stdpred_deployed_step [OF dep _ execute_outputs [OF step.hyps(3)] inv step.hyps(6)] by blast
  ultimately show ?case using wallet_kept_trans [OF acc'(2)] by blast
qed

section \<open>Balances\<close>

lemma replaced_state:
  assumes "outputs state tx = Inr d" "bt_inv (tx_proposals tx)" "state a = Some acc"
    "bt_get (tx_proposals tx) a = Some (ReplaceState s)"
  shows "diff_effect d state a = Some \<lparr>acc_state = s, acc_predicates = acc_predicates acc\<rparr>"
  using outputs_effect [OF assms(1,2), of a] assms(3,4) by simp

text \<open>The two halves of a donation to the pool: what the account holds is compared with what is proposed.\<close>

lemma grows_by:
  assumes "predicate_context_of env state tx = Inr ctx" "outputs state tx = Inr d" "bt_inv (tx_proposals tx)"
    "dec_u64 dec [] = None" "dec_u64 dec b = Some n" "0 < n"
    "tree_holds (std_true dec state ctx cdata) (std_leaf ''uint_less_than_by'' [ParamAccountRef a, ParamProposalRef a, ParamInline b])"
  shows "\<exists>acc acc' x y. state a = Some acc \<and> diff_effect d state a = Some acc'
    \<and> dec_u64 dec (acc_state acc) = Some x \<and> dec_u64 dec (acc_state acc') = Some y \<and> unat y = unat x + unat n"
proof -
  from assms(7) obtain acc ch where acc: "state a = Some acc" and ch: "bt_get (ctx_proposals ctx) a = Some ch"
    and t: "uint_less_than_by dec [XAccountRef a (acc_state acc), XProposalRef a ch, XInline b] ctx = Some True"
    by (auto simp: std_leaf_facts)
  from t obtain x y where xy: "dec_u64 dec (acc_state acc) = Some x" "slice_to_u64 dec (XProposalRef a ch) = Some y"
    by (auto simp: uint_less_than_by_def uint_ternary_def slice_to_u64_def split: option.splits)
  have "unat y = unat x + unat n"
    using t uint_difference_predicates [of dec "XAccountRef a (acc_state acc)" x "XProposalRef a ch" y "XInline b" n ctx] xy assms(5,6)
    by (auto simp: slice_to_u64_def)
  moreover obtain s where "bt_get (tx_proposals tx) a = Some (ReplaceState s)" "dec_u64 dec s = Some y"
    using proposal_u64 [OF assms(1,3) ch assms(4) xy(2) _ assms(2)] acc by blast
  ultimately show ?thesis using acc xy(1) replaced_state [OF assms(2,3) acc] by fastforce
qed

lemma shrinks_by:
  assumes "predicate_context_of env state tx = Inr ctx" "outputs state tx = Inr d" "bt_inv (tx_proposals tx)"
    "dec_u64 dec [] = None" "dec_u64 dec b = Some n" "0 < n"
    "tree_holds (std_true dec state ctx cdata) (std_leaf ''uint_greater_than_by'' [ParamAccountRef a, ParamProposalRef a, ParamInline b])"
  shows "\<exists>acc acc' x y. state a = Some acc \<and> diff_effect d state a = Some acc'
    \<and> dec_u64 dec (acc_state acc) = Some x \<and> dec_u64 dec (acc_state acc') = Some y \<and> unat x = unat y + unat n"
proof -
  from assms(7) obtain acc ch where acc: "state a = Some acc" and ch: "bt_get (ctx_proposals ctx) a = Some ch"
    and t: "uint_greater_than_by dec [XAccountRef a (acc_state acc), XProposalRef a ch, XInline b] ctx = Some True"
    by (auto simp: std_leaf_facts)
  from t obtain x y where xy: "dec_u64 dec (acc_state acc) = Some x" "slice_to_u64 dec (XProposalRef a ch) = Some y"
    by (auto simp: uint_greater_than_by_def uint_ternary_def slice_to_u64_def split: option.splits)
  have "unat x = unat y + unat n"
    using t uint_difference_predicates [of dec "XAccountRef a (acc_state acc)" x "XProposalRef a ch" y "XInline b" n ctx] xy assms(5,6)
    by (auto simp: slice_to_u64_def)
  moreover obtain s where "bt_get (tx_proposals tx) a = Some (ReplaceState s)" "dec_u64 dec s = Some y"
    using proposal_u64 [OF assms(1,3) ch assms(4) xy(2) _ assms(2)] acc by blast
  ultimately show ?thesis using acc xy(1) replaced_state [OF assms(2,3) acc] by fastforce
qed

section \<open>Answers of the standard library\<close>

text \<open>A call whose two encodings and two objects the heap of the guest can hold.\<close>

definition fits :: "'h allocator \<Rightarrow> guest_codec \<Rightarrow> predicate_context \<Rightarrow> params \<Rightarrow> bool" where
  "fits al cd ctx ps =
     (case (enc_context cd ctx, enc_params cd ps) of
        (Inr c, Inr b) \<Rightarrow> length c + object_size cd (OContext ctx) + length b + object_size cd (OParams ps) \<le> heap_capacity al
      | _ \<Rightarrow> False)"

lemma std_invoke:
  assumes "stdpred_deployed al cd w dec cache state" "bs58_alphanumeric w" "context_to_vec w ctx = Inr c"
    "state stdpred_address = Some acc" "stdpred_library dec ep = Some f" "fits al cd ctx ps"
  shows "invoke w c \<lparr>pred_code = \<lparr>xcode = acc_state acc, entrypoint = ep\<rparr>, pred_params = ps\<rparr> cache = Some (guest_answer f ps ctx)"
proof -
  let ?p = "\<lparr>pred_code = \<lparr>xcode = acc_state acc, entrypoint = ep\<rparr>, pred_params = ps\<rparr>"
  from assms(1,4) obtain hash b58 deser binary where d: "allocator_laws al" "codec_ok cd" "cache_coherent w cache"
    "w = guest_env al cd hash b58 deser binary" "module_from_binary w (acc_state acc) = Inr (stdpred_library dec)"
    unfolding stdpred_deployed_def by force
  have e: "enc_context cd ctx = Inr c" using assms(3) d(4) by simp
  with assms(6) obtain b where b: "enc_params cd (pred_params ?p) = Inr b"
    "length c + object_size cd (OContext ctx) + length b + object_size cd (OParams (pred_params ?p)) \<le> heap_capacity al"
    by (auto simp: fits_def split: sum.splits)
  have n: "entrypoint (pred_code ?p) \<notin> set reserved_names" "stdpred_library dec (entrypoint (pred_code ?p)) = Some f"
    using stdpred_names [OF assms(5)] assms(5) by simp_all
  have "run_module w c ?p (stdpred_library dec) = guest_answer f ps ctx"
    using run_guest [where lib = "stdpred_library dec", OF d(1,2) e b(1) n, of hash b58 deser binary] b(2) d(4) by simp
  moreover have "invoke w c ?p (\<lambda>_. None) = Some (run_module w c ?p (stdpred_library dec))"
    using d(5) by (simp add: invoke_def predcache_path_valid [OF assms(2)] load_module_def map_err_def)
  ultimately show ?thesis using coherent_transparent [OF d(3)] by simp
qed

text \<open>What a leaf over the standard library returns.\<close>

definition std_call :: "'sig decoders \<Rightarrow> predicate_context \<Rightarrow> expanded_predicate \<Rightarrow> bool option" where
  "std_call dec ctx p =
     (case stdpred_library dec (entrypoint (pred_code p)) of Some f \<Rightarrow> f (pred_params p) ctx | None \<Rightarrow> None)"

definition std_answered :: "'h allocator \<Rightarrow> guest_codec \<Rightarrow> 'sig decoders \<Rightarrow> predicate_context \<Rightarrow> bytes \<Rightarrow> expanded_predicate \<Rightarrow> bool" where
  "std_answered al cd dec ctx code p =
     (xcode (pred_code p) = code \<and> std_call dec ctx p \<noteq> None \<and> fits al cd ctx (pred_params p))"

lemma std_call_invoke:
  assumes "stdpred_deployed al cd w dec cache state" "bs58_alphanumeric w" "context_to_vec w ctx = Inr c"
    "state stdpred_address = Some acc" "std_answered al cd dec ctx (acc_state acc) p"
  shows "invoke w c p cache = Some (Inr (the (std_call dec ctx p)))"
proof -
  from assms(5) obtain f b where f: "stdpred_library dec (entrypoint (pred_code p)) = Some f" "f (pred_params p) ctx = Some b"
    and p: "xcode (pred_code p) = acc_state acc" "fits al cd ctx (pred_params p)"
    by (auto simp: std_answered_def std_call_def split: option.splits)
  have "p = \<lparr>pred_code = \<lparr>xcode = acc_state acc, entrypoint = entrypoint (pred_code p)\<rparr>, pred_params = pred_params p\<rparr>"
    using p(1) by (cases p) (auto intro: expanded_code.equality)
  with std_invoke [OF assms(1-3) assms(4) f(1) p(2)] f show ?thesis by (simp add: guest_answer_def std_call_def)
qed

lemma accepted_by_library:
  assumes "stdpred_deployed al cd w dec cache state" "bs58_alphanumeric w" "valid_proposals tx" "\<And>out. mset (order out) = mset out"
    "predicate_context_of env state tx = Inr ctx" "context_to_vec w ctx = Inr c" "outputs state tx = Inr d"
    "guard_trees state ctx tx = map Inr ts" "state stdpred_address = Some acc"
    "list_all (\<lambda>t. list_all (std_answered al cd dec ctx (acc_state acc)) (tree_leaves t)) ts"
    "list_all (tree_holds (\<lambda>p. std_call dec ctx p = Some True)) ts"
  shows "execute w env order sched split tx state cache = Some (Inr d)"
proof -
  have req: "required_trees state ctx tx = ts" by (simp add: required_trees_def assms(8) filter_True comp_def)
  have inv: "invoke w c p cache = Some (Inr (the (std_call dec ctx p)))" "std_call dec ctx p \<noteq> None"
    if "t \<in> set ts" "p \<in> set (tree_leaves t)" for t p
    using std_call_invoke [OF assms(1,2,6,9)] assms(10) that by (auto simp: list_all_iff std_answered_def)
  have "answers (\<lambda>p. invoke w c p cache) ts" by (auto simp: answers_def list_all_iff inv answered_def)
  moreover have "tree_holds (accepts (\<lambda>p. invoke w c p cache)) t" if "t \<in> set ts" for t
  proof -
    have "tree_holds (accepts (\<lambda>p. invoke w c p cache)) t \<longleftrightarrow> tree_holds (\<lambda>p. std_call dec ctx p = Some True) t"
      using inv [OF that] by (intro tree_holds_cong) (fastforce simp: accepts_def)
    then show ?thesis using assms(11) that by (simp add: list_all_iff)
  qed
  ultimately show ?thesis
    using execute_answered_iff [OF assms(3-6), where cache = cache and sched = sched and split = split and d = d] assms(7,8)
    by (simp add: req list_all_iff)
qed

section \<open>Transactions with one change\<close>

lemma single_change:
  assumes "valid_address a" "ancestors a = Some []"
  shows "valid_proposals (transaction_new [] [(a, ch)])" "guard_addresses (bt_keys (tx_proposals (transaction_new [] [(a, ch)]))) = [a]"
    "expand_account_change a state ch = Inr x \<Longrightarrow>
      predicate_context_of env state (transaction_new [] [(a, ch)]) = Inr \<lparr>ctx_calldata = [], ctx_proposals = [(a, x)]\<rparr>"
    "change_applicable ch (state a) \<Longrightarrow> outputs state (transaction_new [] [(a, ch)])
      = Inr (case account_after ch (state a) of Some acc \<Rightarrow> snd (diff_set diff_default a acc) | None \<Rightarrow> snd (diff_remove diff_default a))"
  using assms
  by (simp_all add: valid_proposals_def transaction_new_def bt_inv_def bt_keys_def predicate_context_of_def
      expand_proposal_def bt_collect_def bt_extend_def outputs_def output_change_cases)

text \<open>The guard on installed code.\<close>

definition code_guard :: "bytes \<Rightarrow> predicate_tree" where
  "code_guard b = TAnd (std_leaf ''immutable_state'' [ParamInline b]) (std_leaf ''immutable_predicates'' [ParamInline b])"

lemma code_guard_expanded:
  assumes "state stdpred_address = Some lib"
  shows "expand_predicate_tree state (code_guard b) ctx cdata
    = Inr (TAnd (TId \<lparr>pred_code = \<lparr>xcode = acc_state lib, entrypoint = ''immutable_state''\<rparr>, pred_params = [XInline b]\<rparr>)
               (TId \<lparr>pred_code = \<lparr>xcode = acc_state lib, entrypoint = ''immutable_predicates''\<rparr>, pred_params = [XInline b]\<rparr>))"
  using assms
  by (simp add: code_guard_def std_leaf_def expand_predicate_tree_def expand_predicate_def expand_code_def expand_param_def
      try_list.simps)

lemma deletion_accepted:
  assumes "stdpred_deployed al cd w dec cache state" "bs58_alphanumeric w" "valid_address a" "ancestors a = Some []"
    "state a = Some acc" "acc_predicates acc = code_guard b" "dec_address dec b = Some a"
    "fits al cd \<lparr>ctx_calldata = [], ctx_proposals = [(a, XDeleteAccount acc)]\<rparr> [XInline b]" "\<And>out. mset (order out) = mset out"
  shows "execute w env order sched split (transaction_new [] [(a, DeleteAccount)]) state cache
    = Some (Inr (snd (diff_remove diff_default a)))"
proof -
  let ?tx = "transaction_new [] [(a, DeleteAccount)]" and ?d = "snd (diff_remove diff_default a)"
  let ?ctx = "\<lparr>ctx_calldata = [], ctx_proposals = [(a, XDeleteAccount acc)]\<rparr> :: predicate_context"
  note tx = single_change [OF assms(3,4)]
  from assms(1) obtain lib where lib: "state stdpred_address = Some lib" unfolding stdpred_deployed_def by blast
  have ctx: "predicate_context_of env state ?tx = Inr ?ctx" using tx(3) assms(5) by (simp add: expand_account_change_def)
  have out: "outputs state ?tx = Inr ?d" using tx(4) [of DeleteAccount state] assms(5) by simp
  obtain c where c: "context_to_vec w ?ctx = Inr c"
    using assms(1,8) by (auto simp: stdpred_deployed_def fits_def split: sum.splits)
  have im: "immutable_state dec [XInline b] ?ctx = Some True" "immutable_predicates dec [XInline b] ?ctx = Some True"
    using assms(7) by (simp_all add: immutable_state_def immutable_predicates_def bt_get_def)
  have g: "guard_trees state ?ctx ?tx = map Inr [TAnd
      (TId \<lparr>pred_code = \<lparr>xcode = acc_state lib, entrypoint = ''immutable_state''\<rparr>, pred_params = [XInline b]\<rparr>)
      (TId \<lparr>pred_code = \<lparr>xcode = acc_state lib, entrypoint = ''immutable_predicates''\<rparr>, pred_params = [XInline b]\<rparr>)]"
    using assms(5,6) tx(2) by (simp add: guard_trees_def transaction_new_def code_guard_expanded [where state = state, OF lib])
  show ?thesis
    by (rule accepted_by_library [OF assms(1,2) tx(1) assms(9) ctx c out g lib])
      (simp_all add: std_answered_def std_call_def std_exports im assms(8))
qed

lemma creation_accepted:
  assumes "valid_address a" "ancestors a = Some []" "state a = None" "\<And>out. mset (order out) = mset out"
    "context_to_vec w \<lparr>ctx_calldata = [], ctx_proposals = [(a, XCreateAccount acc)]\<rparr> = Inr c"
  shows "execute w env order sched split (transaction_new [] [(a, CreateAccount acc)]) state cache
    = Some (Inr (snd (diff_set diff_default a acc)))"
proof -
  let ?tx = "transaction_new [] [(a, CreateAccount acc)]" and ?d = "snd (diff_set diff_default a acc)"
  let ?ctx = "\<lparr>ctx_calldata = [], ctx_proposals = [(a, XCreateAccount acc)]\<rparr> :: predicate_context"
  note tx = single_change [OF assms(1,2)]
  have ctx: "predicate_context_of env state ?tx = Inr ?ctx" using tx(3) by (simp add: expand_account_change_def)
  have out: "outputs state ?tx = Inr ?d" using tx(4) [of "CreateAccount acc" state] assms(3) by simp
  have g: "guard_trees state ?ctx ?tx = []" using assms(3) tx(2) by (simp add: guard_trees_def transaction_new_def)
  have "execute w env order sched split ?tx state cache = Some (Inr ?d) \<longleftrightarrow> outputs state ?tx = Inr ?d
      \<and> list_all is_ok (guard_trees state ?ctx ?tx)
      \<and> list_all (tree_holds (accepts (\<lambda>p. invoke w c p cache))) (required_trees state ?ctx ?tx)"
    by (rule execute_answered_iff [OF tx(1) assms(4) ctx assms(5)]) (simp add: required_trees_def g answers_def)
  then show ?thesis using out by (simp add: required_trees_def g)
qed

section \<open>A sample ledger\<close>

definition sample_wallet :: address where
  "sample_wallet = Address ''/token/usdc/k''"

definition sample_treasury :: address where
  "sample_treasury = Address ''/token/usdc/t''"

definition sample_code :: account where
  "sample_code = \<lparr>acc_state = [1], acc_predicates = code_guard (ascii ''/stdpred'')\<rparr>"

text \<open>The library at its address, a wallet as the client creates it, a treasury anybody may change and the
  token account.\<close>

definition sample_token_account :: account where
  "sample_token_account = \<lparr>acc_state = [160], acc_predicates =
     TAnd (TId \<lparr>pred_code = CodeAccountRef (Address ''/token'') ''predicate'',
                pred_params = [ParamInline (ascii ''/token/usdx''), ParamInline [7], ParamAccountRef (Address ''/token/usdx'')]\<rparr>)
          (std_leaf ''constant'' [ParamInline [194]])\<rparr>"

definition sample_wallet_account :: account where
  "sample_wallet_account = \<lparr>acc_state = [16], acc_predicates = wallet_tree sample_wallet [7]\<rparr>"

definition sample_treasury_account :: account where
  "sample_treasury_account = \<lparr>acc_state = [50], acc_predicates = std_leaf ''constant'' [ParamInline [195]]\<rparr>"

definition sample_ledger :: state_view where
  "sample_ledger a =
     (if a = stdpred_address then Some sample_code
      else if a = sample_wallet then Some sample_wallet_account
      else if a = sample_treasury then Some sample_treasury_account
      else if a = Address ''/token/usdx'' then Some sample_token_account
      else None)"

definition sample_host :: "predicate_context list \<Rightarrow> params list
    \<Rightarrow> (library, library, guest_fn, (nat \<times> (u32 \<times> nat) list) guest) wasm_env" where
  "sample_host ctxs pss = sample_guest ctxs pss (\<lambda>_. Inr (stdpred_library sample_decoders))"

lemma sample_host_deployed:
  assumes "length ctxs < 2 ^ 31" "length pss < 2 ^ 31"
  shows "stdpred_deployed bump_heap (table_codec ctxs pss) (sample_host ctxs pss) sample_decoders (\<lambda>_. None) sample_ledger"
  unfolding stdpred_deployed_def
proof (intro conjI)
  show "\<exists>hash b58 deser binary. sample_host ctxs pss = guest_env bump_heap (table_codec ctxs pss) hash b58 deser binary"
    unfolding sample_host_def sample_guest_def by blast
  show "\<exists>acc. sample_ledger stdpred_address = Some acc
      \<and> module_from_binary (sample_host ctxs pss) (acc_state acc) = Inr (stdpred_library sample_decoders)"
    by (simp add: sample_ledger_def sample_host_def sample_guest_def)
qed (simp_all add: bump_heap_laws table_codec_ok [OF assms] cache_coherent_def)

lemma sample_host_ok: "bs58_alphanumeric (sample_host ctxs pss)"
  unfolding sample_host_def by (rule sample_guest_ok)

lemma sample_host_context: "context_to_vec (sample_host ctxs pss) ctx = enc_context (table_codec ctxs pss) ctx"
  by (simp add: sample_host_def sample_guest_def)

lemma sample_library: "sample_ledger stdpred_address = Some sample_code"
  by (simp add: sample_ledger_def)

lemma index_of_mem: "x \<in> set ys \<Longrightarrow> \<exists>i < length ys. index_of x ys = Some i"
  by (induction ys) auto

lemma sample_fits: "ps \<in> set pss \<Longrightarrow> length pss < 1000 \<Longrightarrow> fits bump_heap (table_codec [ctx] pss) ctx ps"
  by (auto simp: fits_def table_codec_def bump_heap_def dest!: index_of_mem)

text \<open>An accepted transaction over the sample ledger, from what evaluates.\<close>

lemma sample_accepted:
  assumes "length pss < 1000" "valid_proposals tx" "predicate_context_of sample_env sample_ledger tx = Inr ctx"
    "outputs sample_ledger tx = Inr d" "guard_trees sample_ledger ctx tx = map Inr ts"
    "list_all (\<lambda>t. list_all (\<lambda>p. xcode (pred_code p) = [1] \<and> std_call sample_decoders ctx p \<noteq> None
        \<and> pred_params p \<in> set pss) (tree_leaves t)) ts"
    "list_all (tree_holds (\<lambda>p. std_call sample_decoders ctx p = Some True)) ts"
  shows "execute (sample_host [ctx] pss) sample_env (\<lambda>out. out) [] (\<lambda>_ _. 1) tx sample_ledger (\<lambda>_. None) = Some (Inr d)"
proof -
  have "length [ctx] < 2 ^ 31" "length pss < 2 ^ 31" using assms(1) by simp_all
  from sample_host_deployed [OF this] have dep: "stdpred_deployed bump_heap (table_codec [ctx] pss)
    (sample_host [ctx] pss) sample_decoders (\<lambda>_. None) sample_ledger" .
  have c: "context_to_vec (sample_host [ctx] pss) ctx = Inr []" by (simp add: sample_host_context table_codec_def)
  show ?thesis
    by (rule accepted_by_library [OF dep sample_host_ok assms(2) _ assms(3) c assms(4,5) sample_library])
      (use assms(6,7) in \<open>auto simp: list_all_iff sample_code_def std_answered_def sample_fits [OF _ assms(1)]\<close>)
qed

definition raise_tx :: transaction where
  "raise_tx = transaction_new [] [(sample_wallet, ReplaceState [20])]"

definition raise_context :: predicate_context where
  "raise_context = \<lparr>ctx_calldata = [], ctx_proposals = [(sample_wallet, XReplaceState [16] [20])]\<rparr>"

definition raise_params :: "params list" where
  "raise_params = [[XProposalRef sample_wallet (XReplaceState [16] [20]), XAccountRef sample_wallet [16]], [XInline [7]]]"

definition raise_diff :: state_diff where
  "raise_diff = \<lparr>upserts = [(sample_wallet, \<lparr>acc_state = [20], acc_predicates = wallet_tree sample_wallet [7]\<rparr>)], deletes = []\<rparr>"

definition raise_trees :: "expanded_tree list" where
  "raise_trees = [TOr
     (TId \<lparr>pred_code = \<lparr>xcode = [1], entrypoint = ''uint_greater_than_equal''\<rparr>, pred_params = raise_params ! 0\<rparr>)
     (TId \<lparr>pred_code = \<lparr>xcode = [1], entrypoint = ''require_ed25519_signature''\<rparr>, pred_params = raise_params ! 1\<rparr>)]"

lemma sample_ancestors:
  "ancestors sample_wallet = Some [Address ''/token/usdc'', Address ''/token'']"
  "ancestors sample_treasury = Some [Address ''/token/usdc'', Address ''/token'']"
  "ancestors stdpred_address = Some []"
proof -
  have ok: "valid_segments [''token'', ''usdc'', ''k'']" "valid_segments [''token'', ''usdc'', ''t'']" "valid_segments [''stdpred'']"
    by code_simp+
  have a: "sample_wallet = Address (join_path [''token'', ''usdc'', ''k''])" "stdpred_address = Address (join_path [''stdpred''])"
    "sample_treasury = Address (join_path [''token'', ''usdc'', ''t''])" by code_simp+
  have "[1..<3] = [1, 2 :: nat]" by (simp add: upt_rec)
  then show "ancestors sample_wallet = Some [Address ''/token/usdc'', Address ''/token'']"
    "ancestors sample_treasury = Some [Address ''/token/usdc'', Address ''/token'']" "ancestors stdpred_address = Some []"
    unfolding a using ok [THEN ancestors_join] by (simp_all add: join_path_def numeral_nat)
qed

lemma sample_addresses: "valid_address sample_wallet" "valid_address sample_treasury" "valid_address stdpred_address"
  "valid_address (Address ''/token/usdx'')"
  by code_simp+

lemma raise_facts:
  "valid_proposals raise_tx" "predicate_context_of sample_env sample_ledger raise_tx = Inr raise_context"
  "outputs sample_ledger raise_tx = Inr raise_diff"
  by code_simp+

lemma raise_guards: "guard_trees sample_ledger raise_context raise_tx = map Inr raise_trees"
proof -
  have g: "guard_addresses (bt_keys (tx_proposals raise_tx)) = [sample_wallet, Address ''/token/usdc'', Address ''/token'']"
    using sample_ancestors by (simp add: raise_tx_def transaction_new_def bt_keys_def)
  show ?thesis unfolding guard_trees_def g by code_simp
qed

lemma raise_calls:
  "list_all (\<lambda>t. list_all (\<lambda>p. xcode (pred_code p) = [1] \<and> std_call sample_decoders raise_context p \<noteq> None
      \<and> pred_params p \<in> set raise_params) (tree_leaves t)) raise_trees"
  by code_simp

lemma raise_holds: "list_all (tree_holds (\<lambda>p. std_call sample_decoders raise_context p = Some True)) raise_trees"
  by code_simp

lemma raise_accepted:
  "execute (sample_host [raise_context] raise_params) sample_env (\<lambda>out. out) [] (\<lambda>_ _. 1) raise_tx sample_ledger (\<lambda>_. None)
     = Some (Inr raise_diff)"
  by (rule sample_accepted [OF _ raise_facts raise_guards raise_calls raise_holds]) (simp add: raise_params_def)

text \<open>A donation to the pool, accepted.\<close>

definition pool_intent :: intent where
  "pool_intent = sign_intent sample_client sample_env sample_keypair (intent_new [1] (pool_tree sample_wallet sample_treasury [4]))"

definition pool_tx :: transaction where
  "pool_tx = transaction_new [pool_intent] [(sample_wallet, ReplaceState [20]), (sample_treasury, ReplaceState [46])]"

definition pool_context :: predicate_context where
  "pool_context = \<lparr>ctx_calldata = [(fst (intent_hash sample_env pool_intent), intent_calldata pool_intent)],
     ctx_proposals = [(sample_wallet, XReplaceState [16] [20]), (sample_treasury, XReplaceState [50] [46])]\<rparr>"

definition pool_diff :: state_diff where
  "pool_diff = \<lparr>upserts = [(sample_wallet, \<lparr>acc_state = [20], acc_predicates = wallet_tree sample_wallet [7]\<rparr>),
     (sample_treasury, \<lparr>acc_state = [46], acc_predicates = std_leaf ''constant'' [ParamInline [195]]\<rparr>)], deletes = []\<rparr>"

definition pool_params :: "params list" where
  "pool_params = raise_params @ [[XInline [195]],
     [XAccountRef sample_wallet [16], XProposalRef sample_wallet (XReplaceState [16] [20]), XInline [4]],
     [XAccountRef sample_treasury [50], XProposalRef sample_treasury (XReplaceState [50] [46]), XInline [4]]]"

definition pool_trees :: "expanded_tree list" where
  "pool_trees = raise_trees @ [TId \<lparr>pred_code = \<lparr>xcode = [1], entrypoint = ''constant''\<rparr>, pred_params = pool_params ! 2\<rparr>,
     TAnd (TId \<lparr>pred_code = \<lparr>xcode = [1], entrypoint = ''uint_less_than_by''\<rparr>, pred_params = pool_params ! 3\<rparr>)
          (TId \<lparr>pred_code = \<lparr>xcode = [1], entrypoint = ''uint_greater_than_by''\<rparr>, pred_params = pool_params ! 4\<rparr>)]"

lemma pool_intent_created:
  "create_donation_to_matching_pool_intents sample_client sample_env 4 sample_keypair sample_treasury [1] = Inr [pool_intent]"
proof -
  have "parse (''/token/usdc/'' @ bs58 sample_client (public sample_keypair)) = Inr sample_wallet" by code_simp
  moreover have "enc_u64 sample_client 4 = Inr [4]" by (simp add: sample_client_def)
  ultimately show ?thesis by (simp add: pool_intents_Inr pool_intent_def)
qed

lemma pool_facts:
  "valid_proposals pool_tx" "predicate_context_of sample_env sample_ledger pool_tx = Inr pool_context"
  "outputs sample_ledger pool_tx = Inr pool_diff"
  by code_simp+

lemma pool_guards: "guard_trees sample_ledger pool_context pool_tx = map Inr pool_trees"
proof -
  have g: "guard_addresses (bt_keys (tx_proposals pool_tx)) = [sample_wallet, Address ''/token/usdc'', Address ''/token'',
      sample_treasury, Address ''/token/usdc'', Address ''/token'']"
    using sample_ancestors by (simp add: pool_tx_def transaction_new_def bt_keys_def)
  show ?thesis unfolding guard_trees_def g by code_simp
qed

lemma pool_calls:
  "list_all (\<lambda>t. list_all (\<lambda>p. xcode (pred_code p) = [1] \<and> std_call sample_decoders pool_context p \<noteq> None
      \<and> pred_params p \<in> set pool_params) (tree_leaves t)) pool_trees"
  by code_simp

lemma pool_holds: "list_all (tree_holds (\<lambda>p. std_call sample_decoders pool_context p = Some True)) pool_trees"
  by code_simp

lemma pool_accepted:
  "execute (sample_host [pool_context] pool_params) sample_env (\<lambda>out. out) [] (\<lambda>_ _. 1) pool_tx sample_ledger (\<lambda>_. None)
     = Some (Inr pool_diff)"
  by (rule sample_accepted [OF _ pool_facts pool_guards pool_calls pool_holds]) (simp add: pool_params_def raise_params_def)

section \<open>Properties\<close>



text \<open>C34. A donation to the matching pool pays the donor.  The predicates of the client name the current
  balance first and the proposed one second, so every accepted transaction that satisfies such an intent,
  of a positive amount, raises the balance of the donor by the amount and lowers the treasury by it.\<close>

theorem pool_donation_inverted:
  assumes "create_donation_to_matching_pool_intents cenv henv amount kp treasury bh = Inr [i]"
    "enc_u64 cenv amount = Inr b" "dec_u64 dec b = Some amount" "0 < amount" "dec_u64 dec [] = None"
    "j \<in> set (tx_intents tx)" "expectations j = expectations i" "stdpred_deployed al cd w dec cache state"
    "execute w env order sched split tx state cache = Some (Inr d)" "valid_proposals tx" "\<And>out. mset (order out) = mset out"
  shows "(\<exists>acc acc' x y. state (Address (''/token/usdc/'' @ bs58 cenv (public kp))) = Some acc
        \<and> diff_effect d state (Address (''/token/usdc/'' @ bs58 cenv (public kp))) = Some acc'
        \<and> dec_u64 dec (acc_state acc) = Some x \<and> dec_u64 dec (acc_state acc') = Some y \<and> unat y = unat x + unat amount)
    \<and> (\<exists>acc acc' x y. state treasury = Some acc \<and> diff_effect d state treasury = Some acc'
        \<and> dec_u64 dec (acc_state acc) = Some x \<and> dec_u64 dec (acc_state acc') = Some y \<and> unat x = unat y + unat amount)"
proof -
  let ?donor = "Address (''/token/usdc/'' @ bs58 cenv (public kp))"
  have tree: "expectations j = pool_tree ?donor treasury b"
    using assms(1,2,7) by (auto simp: pool_intents_Inr parse_Inr sign_intent_def signing_hash_def intent_new_def Let_def)
  have nf: "negation_free (expectations j)" by (simp add: tree pool_tree_def std_leaf_holds)
  have inv: "bt_inv (tx_proposals tx)" using assms(10) by (simp add: valid_proposals_def)
  from accepted_intent [OF assms(8-11,6) nf] obtain ctx where
    ctx: "predicate_context_of env state tx = Inr ctx" "outputs state tx = Inr d"
    and holds: "tree_holds (std_true dec state ctx (intent_calldata j)) (pool_tree ?donor treasury b)"
    unfolding tree by blast
  note * = ctx inv assms(5,3,4)
  from holds have leaves: "tree_holds (std_true dec state ctx (intent_calldata j))
      (std_leaf ''uint_less_than_by'' [ParamAccountRef ?donor, ParamProposalRef ?donor, ParamInline b])"
    "tree_holds (std_true dec state ctx (intent_calldata j))
      (std_leaf ''uint_greater_than_by'' [ParamAccountRef treasury, ParamProposalRef treasury, ParamInline b])"
    unfolding pool_tree_def tree_holds_simps by blast+
  show ?thesis using grows_by [OF * leaves(1)] shrinks_by [OF * leaves(2)] by (rule conjI)
qed

theorem pool_donation_inverted_witness:
  "\<exists>acc acc' x y. sample_ledger sample_wallet = Some acc \<and> diff_effect pool_diff sample_ledger sample_wallet = Some acc'
     \<and> dec_u64 sample_decoders (acc_state acc) = Some x \<and> dec_u64 sample_decoders (acc_state acc') = Some y
     \<and> unat y = unat x + unat (4 :: u64)"
proof -
  have "length [pool_context] < 2 ^ 31" "length pool_params < 2 ^ 31" by (simp_all add: pool_params_def raise_params_def)
  note dep = sample_host_deployed [OF this]
  have e: "enc_u64 sample_client 4 = Inr [4]" "dec_u64 sample_decoders [4] = Some 4" "dec_u64 sample_decoders [] = None" "(0 :: u64) < 4"
    by (simp_all add: sample_client_def sample_decoders_def)
  have mem: "pool_intent \<in> set (tx_intents pool_tx)" by (simp add: pool_tx_def transaction_new_def)
  have a: "Address (''/token/usdc/'' @ bs58 sample_client (public sample_keypair)) = sample_wallet" by code_simp
  from pool_donation_inverted [OF pool_intent_created e(1,2,4,3) mem refl dep pool_accepted pool_facts(1)] a
  show ?thesis by simp
qed

text \<open>The token account of the client is frozen: the second half of its guard is the constant \<open>false\<close>, so
  no accepted transaction changes \<open>/token/usdx\<close> or creates, changes or deletes anything below it.  No
  wallet of this token can ever be opened.\<close>

lemma token_frozen:
  assumes "token_transaction cenv n mint = Inr tx0" "bt_get (tx_proposals tx0) a = Some (CreateAccount acc)" "state a = Some acc"
    "enc_bool cenv False = Inr f" "dec_bool dec f = Some False" "stdpred_deployed al cd w dec cache state"
    "execute w env order sched split tx state cache = Some (Inr d)" "valid_proposals tx" "\<And>out. mset (order out) = mset out"
    "x = a \<or> is_parent_of a x"
  shows "a = Address ''/token/usdx'' \<and> bt_get (tx_proposals tx) x = None \<and> diff_effect d state x = state x"
proof -
  obtain t where a: "a = Address ''/token/usdx''" and acc: "acc_predicates acc = TAnd t (std_leaf ''constant'' [ParamInline f])"
    "negation_free t"
    using assms(1,2,4) by (auto simp: token_transaction_Inr create_account_def transaction_new_def bt_collect_def
        bt_extend_def bt_get_def split: if_splits)
  have nf: "negation_free (acc_predicates acc)" using acc by (simp add: std_leaf_holds)
  have va: "valid_address a" unfolding a by (rule sample_addresses(4))
  have none: "bt_get (tx_proposals tx) x = None"
  proof (rule ccontr)
    assume "bt_get (tx_proposals tx) x \<noteq> None"
    from accepted_account [OF assms(6-9) va assms(3) nf this assms(10)] obtain ctx where
      "tree_holds (std_true dec state ctx (merged_calldata ctx)) (acc_predicates acc)" by blast
    then show False using assms(5) by (simp add: acc(1) constant_leaf)
  qed
  have "bt_inv (tx_proposals tx)" using assms(8) by (simp add: valid_proposals_def)
  from outputs_effect [OF execute_outputs [OF assms(7)] this, of x] none a show ?thesis by simp
qed

lemma token_frozen_example:
  "bt_get (tx_proposals raise_tx) (Address ''/token/usdx/k'') = None
   \<and> diff_effect raise_diff sample_ledger (Address ''/token/usdx/k'') = sample_ledger (Address ''/token/usdx/k'')"
proof -
  let ?tx = "create_account (Address ''/token/usdx'') [160] (acc_predicates sample_token_account)"
  have "length [raise_context] < 2 ^ 31" "length raise_params < 2 ^ 31" by (simp_all add: raise_params_def)
  note dep = sample_host_deployed [OF this]
  have "(100000 :: byte) = 160" by simp
  then have "enc_u64 sample_client (total_supply 10) = Inr [160]" by (simp only: sample_client_def total_supply_def) simp
  then have tok: "token_transaction sample_client 10 sample_keypair = Inr ?tx"
    unfolding token_transaction_Inr by (simp add: sample_client_def sample_keypair_def sample_token_account_def)
  have get: "bt_get (tx_proposals ?tx) (Address ''/token/usdx'') = Some (CreateAccount sample_token_account)"
    by (simp add: create_account_def transaction_new_def bt_collect_def bt_extend_def bt_get_def sample_token_account_def)
  have led: "sample_ledger (Address ''/token/usdx'') = Some sample_token_account" by code_simp
  have b: "enc_bool sample_client False = Inr [194]" "dec_bool sample_decoders [194] = Some False"
    by (simp_all add: sample_client_def sample_decoders_def)
  have "Address ''/token/usdx/k'' = Address ''/token/usdx'' \<or> is_parent_of (Address ''/token/usdx'') (Address ''/token/usdx/k'')"
    by code_simp
  from token_frozen [OF tok get led b dep raise_accepted raise_facts(1) _ this] show ?thesis by simp
qed

text \<open>C33. Installed code is replaceable by anybody.  The guard the client puts on a library account forbids
  replacing its state and its predicates but not deleting it: a transaction without any intent that
  deletes the account is accepted, and a second one then creates it again with other code and other
  predicates.  For the account of the standard library this replaces the guards of every account.\<close>

theorem bytecode_replaceable:
  assumes "install_bytecode cenv a code = Inr tx0" "bt_get (tx_proposals tx0) a = Some (CreateAccount acc)" "state a = Some acc"
    "enc_address cenv a = Inr b" "dec_address dec b = Some a" "valid_address a" "ancestors a = Some []"
    "stdpred_deployed al cd w dec cache state" "bs58_alphanumeric w" "\<And>out. mset (order out) = mset out"
    "fits al cd \<lparr>ctx_calldata = [], ctx_proposals = [(a, XDeleteAccount acc)]\<rparr> [XInline b]"
    "context_to_vec w \<lparr>ctx_calldata = [], ctx_proposals = [(a, XCreateAccount other)]\<rparr> = Inr c"
  shows "\<exists>d d'. execute w env order sched split (transaction_new [] [(a, DeleteAccount)]) state cache = Some (Inr d)
    \<and> execute w env order sched split (transaction_new [] [(a, CreateAccount other)]) (diff_effect d state) cache = Some (Inr d')
    \<and> diff_effect d' (diff_effect d state) a = Some other"
proof -
  let ?d = "snd (diff_remove diff_default a)"
  have "acc_predicates acc = code_guard b"
    using assms(1,2,4) by (auto simp: install_bytecode_Inr code_guard_def create_account_def transaction_new_def bt_collect_def
        bt_extend_def bt_get_def)
  from deletion_accepted [OF assms(8,9,6,7,3) this assms(5,11,10)]
  have del: "execute w env order sched split (transaction_new [] [(a, DeleteAccount)]) state cache = Some (Inr ?d)" .
  have gone: "diff_effect ?d state a = None" by (simp add: diff_effect_def)
  have "execute w env order sched split (transaction_new [] [(a, CreateAccount other)]) (diff_effect ?d state) cache
      = Some (Inr (snd (diff_set diff_default a other)))"
    by (rule creation_accepted [where state = "diff_effect ?d state", OF assms(6,7) gone assms(10,12)])
  moreover have "diff_effect (snd (diff_set diff_default a other)) (diff_effect ?d state) a = Some other" by (simp add: diff_effect_def)
  ultimately show ?thesis using del by blast
qed

definition other_code :: account where
  "other_code = \<lparr>acc_state = [2], acc_predicates = std_leaf ''x'' []\<rparr>"

definition swap_contexts :: "predicate_context list" where
  "swap_contexts = [\<lparr>ctx_calldata = [], ctx_proposals = [(stdpred_address, XDeleteAccount sample_code)]\<rparr>,
     \<lparr>ctx_calldata = [], ctx_proposals = [(stdpred_address, XCreateAccount other_code)]\<rparr>]"

theorem bytecode_replaceable_witness:
  "\<exists>d d'. execute (sample_host swap_contexts [[XInline (ascii ''/stdpred'')]]) sample_env rev [] (\<lambda>_ _. 1)
       (transaction_new [] [(stdpred_address, DeleteAccount)]) sample_ledger (\<lambda>_. None) = Some (Inr d)
     \<and> execute (sample_host swap_contexts [[XInline (ascii ''/stdpred'')]]) sample_env rev [] (\<lambda>_ _. 1)
       (transaction_new [] [(stdpred_address, CreateAccount other_code)]) (diff_effect d sample_ledger) (\<lambda>_. None) = Some (Inr d')
     \<and> diff_effect d' (diff_effect d sample_ledger) stdpred_address = Some other_code"
proof -
  let ?tx = "create_account stdpred_address [1] (code_guard (ascii ''/stdpred''))"
  let ?pss = "[[XInline (ascii ''/stdpred'')]]"
  have "length swap_contexts < 2 ^ 31" "length ?pss < 2 ^ 31" by (simp_all add: swap_contexts_def)
  note dep = sample_host_deployed [OF this]
  have ins: "install_bytecode sample_client stdpred_address [1] = Inr ?tx"
    by (simp add: install_bytecode_Inr code_guard_def sample_client_def stdpred_address_def)
  have get: "bt_get (tx_proposals ?tx) stdpred_address = Some (CreateAccount sample_code)"
    by (simp add: create_account_def transaction_new_def bt_collect_def bt_extend_def bt_get_def sample_code_def)
  have e: "enc_address sample_client stdpred_address = Inr (ascii ''/stdpred'')" by (simp add: sample_client_def stdpred_address_def)
  have d: "dec_address sample_decoders (ascii ''/stdpred'') = Some stdpred_address" by code_simp
  have f: "fits bump_heap (table_codec swap_contexts ?pss)
      \<lparr>ctx_calldata = [], ctx_proposals = [(stdpred_address, XDeleteAccount sample_code)]\<rparr> [XInline (ascii ''/stdpred'')]"
    by (simp add: fits_def table_codec_def bump_heap_def swap_contexts_def)
  have c: "context_to_vec (sample_host swap_contexts ?pss)
      \<lparr>ctx_calldata = [], ctx_proposals = [(stdpred_address, XCreateAccount other_code)]\<rparr> = Inr [0]"
    by (simp add: sample_host_context table_codec_def swap_contexts_def)
  have "\<And>out :: collected. mset (rev out) = mset out" by simp
  from bytecode_replaceable [OF ins get sample_library e d sample_addresses(3) sample_ancestors(3) dep sample_host_ok this f c]
  show ?thesis .
qed

end
