(* ===== verification/Fixtures.thy ===== *)
theory Fixtures
  imports Ledger
begin

text \<open>
  The fixtures of the integration tests, \<open>vm/tests/common\<close>: the initial state with the standard library,
  the token code and an instance of the token, the precompilation of code, and the builders of mint and
  transfer transactions.  \<open>fixture_rejects\<close> follows their transactions through the virtual machine.

  \<open>anyhow::Result\<close> is a sum over \<open>fixture_error\<close>, a failing \<open>unwrap\<close>, \<open>expect\<close> or \<open>assert!\<close> is \<open>None\<close>.
  Sums of amounts are checked, as in the debug build that tests run in.  The compiled libraries are the
  parameters \<open>std\<close> and \<open>token\<close>.
\<close>

datatype fixture_error = Build client_error | DecodeError

section \<open>The initial state\<close>

text \<open>\<open>include_bytes!\<close> of the build directory, guarded by two predicates of the standard library.\<close>

definition install_library :: "client_env \<Rightarrow> string \<Rightarrow> bytes \<Rightarrow> client_error + state_diff" where
  "install_library env at_path code =
     bind_res (parse at_path) (\<lambda>a.
     bind_res
       (both (leaf ''/stdpred/v1'' ''immutable_state'' [inline (to_vec (enc_address env a))])
             (leaf ''/stdpred/v1'' ''immutable_predicates'' [inline (to_vec (enc_address env a))]))
       (\<lambda>preds. Inr (snd (diff_set diff_default a \<lparr>acc_state = code, acc_predicates = preds\<rparr>))))"

definition install_standard_library :: "client_env \<Rightarrow> bytes \<Rightarrow> state_diff option" where
  "install_standard_library env std = expect (install_library env ''/stdpred/v1'' std)"

definition install_token_bytecode :: "client_env \<Rightarrow> bytes \<Rightarrow> state_diff option" where
  "install_token_bytecode env token = expect (install_library env ''/token'' token)"

definition create_usdx_token :: "client_env \<Rightarrow> bytes \<Rightarrow> state_diff option" where
  "create_usdx_token env mint_authority =
     expect
       (bind_res (parse ''/token/usdx'') (\<lambda>tokenaddr.
        bind_res (to_vec (enc_u64 env 0)) (\<lambda>zero.
        bind_res
          (both (leaf ''/token'' ''predicate''
                   [inline (to_vec (enc_address env tokenaddr)), inline (to_vec (enc_key_bytes env mint_authority)),
                    account_ref (Inr tokenaddr)])
                (leaf ''/stdpred/v1'' ''constant'' [inline (to_vec (enc_bool env False))]))
          (\<lambda>preds. Inr (snd (diff_set diff_default tokenaddr \<lparr>acc_state = zero, acc_predicates = preds\<rparr>))))))"

definition create_initial_blockchain_state :: "client_env \<Rightarrow> bytes \<Rightarrow> bytes \<Rightarrow> bytes \<Rightarrow> state_diff option" where
  "create_initial_blockchain_state env std token mint_authority =
     Option.bind (install_standard_library env std) (\<lambda>d1.
     Option.bind (install_token_bytecode env token) (\<lambda>d2.
     Option.bind (create_usdx_token env mint_authority) (\<lambda>d3.
     Some (diff_apply (diff_apply (diff_apply diff_default d1) d2) d3))))"

definition precache_predicates_bytecode ::
  "('m, 'i, 'f, 's) wasm_env \<Rightarrow> ('m \<Rightarrow> bytes option) \<Rightarrow> state_view \<Rightarrow> address \<Rightarrow> state_diff option"
where
  "precache_predicates_bytecode w ser state addr =
     (case state addr of
        None \<Rightarrow> None
      | Some acc \<Rightarrow>
     (case Option.bind (expect (module_from_binary w (acc_state acc))) ser of
        None \<Rightarrow> None
      | Some compiled \<Rightarrow>
          map_option (\<lambda>key. snd (diff_set diff_default key
              \<lparr>acc_state = compiled, acc_predicates = TId \<lparr>pred_code = CodeInline [], pred_params = []\<rparr>\<rparr>))
            (expect (address_new (predcache_path w (acc_state acc))))))"

section \<open>Token operations\<close>

definition checked_add :: "u64 \<Rightarrow> u64 \<Rightarrow> u64 option" where
  "checked_add x y = (if x \<le> x + y then Some (x + y) else None)"

text \<open>\<open>state.get(a).map(|acc| from_slice(&acc.state).unwrap()).unwrap_or(0)\<close>\<close>

definition balance_or_zero :: "'sig decoders \<Rightarrow> state_view \<Rightarrow> address \<Rightarrow> u64 option" where
  "balance_or_zero dec state a = (case state a of None \<Rightarrow> Some 0 | Some acc \<Rightarrow> dec_u64 dec (acc_state acc))"

text \<open>The change to a recipient: a new wallet is free to receive and needs a signature to spend.\<close>

definition credit_change :: "bool \<Rightarrow> address \<Rightarrow> bytes \<Rightarrow> bytes \<Rightarrow> client_error + account_change" where
  "credit_change exists recipient key balance =
     (if exists then Inr (ReplaceState balance)
      else bind_res
        (either
          (leaf ''/stdpred/v1'' ''uint_greater_than_equal'' [proposal_ref (Inr recipient), account_ref (Inr recipient)])
          (leaf ''/stdpred/v1'' ''require_ed25519_signature'' [inline (Inr key)]))
        (\<lambda>preds. Inr (CreateAccount \<lparr>acc_state = balance, acc_predicates = preds\<rparr>)))"

definition two_changes :: "intent \<Rightarrow> address \<times> account_change \<Rightarrow> address \<times> account_change \<Rightarrow> transaction" where
  "two_changes i c1 c2 = transaction_new [i] (bt_collect [c1, c2])"

definition mint ::
  "client_env \<Rightarrow> 'sig decoders \<Rightarrow> hash_env \<Rightarrow> u64 \<Rightarrow> address \<Rightarrow> bytes \<Rightarrow> keypair \<Rightarrow> multihash \<Rightarrow> state_view
   \<Rightarrow> (fixture_error + transaction) option"
where
  "mint env dec henv amount recipient recipient_pubkey auth_keypair blockhash state =
     (case parse ''/token/usdx'' of
        Inl e \<Rightarrow> Some (Inl (Build e))
      | Inr usdx \<Rightarrow>
     (case Option.bind (balance_or_zero dec state usdx) (checked_add amount) of
        None \<Rightarrow> None
      | Some new_supply \<Rightarrow>
     (case Option.bind (balance_or_zero dec state recipient) (checked_add amount) of
        None \<Rightarrow> None
      | Some new_balance \<Rightarrow>
          Some (map_sum Build id
            (bind_res
              (both (leaf ''/stdpred/v1'' ''uint_equal'' [proposal_ref (Inr usdx), inline (to_vec (enc_u64 env new_supply))])
                    (leaf ''/stdpred/v1'' ''uint_equal'' [proposal_ref (Inr recipient), inline (to_vec (enc_u64 env new_balance))]))
              (\<lambda>expects.
            bind_res (to_vec (enc_u64 env new_balance)) (\<lambda>balance.
            bind_res (credit_change (state recipient \<noteq> None) recipient recipient_pubkey balance) (\<lambda>change.
            bind_res (to_vec (enc_u64 env new_supply)) (\<lambda>supply.
            Inr (two_changes (sign_intent env henv auth_keypair (intent_new blockhash expects))
              (recipient, change) (usdx, ReplaceState supply)))))))))))"

definition transfer ::
  "client_env \<Rightarrow> 'sig decoders \<Rightarrow> hash_env \<Rightarrow> u64 \<Rightarrow> address \<Rightarrow> keypair \<Rightarrow> address \<Rightarrow> bytes \<Rightarrow> multihash \<Rightarrow> state_view
   \<Rightarrow> (fixture_error + transaction) option"
where
  "transfer env dec henv amount sender sender_keypair recipient recipient_pubkey blockhash state =
     (case state sender of
        None \<Rightarrow> None
      | Some sender_acc \<Rightarrow>
     (case both
             (leaf ''/stdpred/v1'' ''uint_less_than_by''
                [proposal_ref (Inr sender), account_ref (Inr sender), inline (to_vec (enc_u64 env amount))])
             (leaf ''/stdpred/v1'' ''uint_greater_than_equal''
                [proposal_ref (Inr recipient), inline (to_vec (enc_u64 env amount))]) of
        Inl e \<Rightarrow> Some (Inl (Build e))
      | Inr expects \<Rightarrow>
          (let intent = sign_intent env henv sender_keypair (intent_new blockhash expects) in
     (case dec_u64 dec (acc_state sender_acc) of
        None \<Rightarrow> Some (Inl DecodeError)
      | Some balance \<Rightarrow>
          if balance < amount then None
          else
     (case (case state recipient of None \<Rightarrow> Some amount | Some acc \<Rightarrow> Option.bind (dec_u64 dec (acc_state acc)) (\<lambda>b. checked_add b amount)) of
        None \<Rightarrow> None
      | Some new_recipient_balance \<Rightarrow>
          Some (map_sum Build id
            (bind_res (to_vec (enc_u64 env (balance - amount))) (\<lambda>sender_state.
            bind_res (to_vec (enc_u64 env new_recipient_balance)) (\<lambda>recipient_state.
            bind_res (credit_change (state recipient \<noteq> None) recipient recipient_pubkey recipient_state) (\<lambda>change.
            Inr (two_changes intent (recipient, change) (sender, ReplaceState sender_state))))))))))))"

definition transfer_unchecked ::
  "client_env \<Rightarrow> hash_env \<Rightarrow> address \<Rightarrow> keypair \<Rightarrow> u64 \<Rightarrow> address \<Rightarrow> bytes \<Rightarrow> u64 \<Rightarrow> bool \<Rightarrow> multihash \<Rightarrow> client_error + transaction"
where
  "transfer_unchecked env henv sender sender_keypair sender_new_balance recipient recipient_pubkey recipient_new_balance
     recipient_create_account blockhash =
     bind_res
       (both (leaf ''/stdpred/v1'' ''uint_equal'' [proposal_ref (Inr sender), inline (to_vec (enc_u64 env sender_new_balance))])
             (leaf ''/stdpred/v1'' ''uint_equal'' [proposal_ref (Inr recipient), inline (to_vec (enc_u64 env recipient_new_balance))]))
       (\<lambda>expects.
     bind_res (to_vec (enc_u64 env sender_new_balance)) (\<lambda>sender_state.
     bind_res (to_vec (enc_u64 env recipient_new_balance)) (\<lambda>recipient_state.
     bind_res (credit_change (\<not> recipient_create_account) recipient recipient_pubkey recipient_state) (\<lambda>change.
     Inr (two_changes (sign_intent env henv sender_keypair (intent_new blockhash expects))
       (recipient, change) (sender, ReplaceState sender_state))))))"

section \<open>The tests\<close>

text \<open>
  \<open>mint_tokens\<close> (\<open>vm/tests/token_mint.rs\<close>) and \<open>transfer_token\<close> (\<open>token_transfer.rs\<close>) return whether they pass.  The
  record holds what the tests call into, and for the k-th call of \<open>execute\<close> its interleaving, bracketing and
  hash orders; the generated keypairs are arguments.
\<close>

record ('m, 'i, 'f, 's, 'sig) test_env =
  te_wasm :: "('m, 'i, 'f, 's) wasm_env"
  te_ser :: "'m \<Rightarrow> bytes option"
  te_client :: client_env
  te_dec :: "'sig decoders"
  te_hash :: hash_env
  te_std :: bytes
  te_token :: bytes
  te_order :: "nat \<Rightarrow> collected \<Rightarrow> collected"
  te_sched :: "nat \<Rightarrow> nat list"
  te_split :: "nat \<Rightarrow> nat \<Rightarrow> nat \<Rightarrow> nat"

definition passed :: "('e + 'a) option \<Rightarrow> ('a \<Rightarrow> bool) \<Rightarrow> bool" where
  "passed r k = (case r of Some (Inr x) \<Rightarrow> k x | _ \<Rightarrow> False)"

definition unwrapped :: "'a option \<Rightarrow> ('a \<Rightarrow> bool) \<Rightarrow> bool" where
  "unwrapped r k = (case r of Some x \<Rightarrow> k x | None \<Rightarrow> False)"

definition test_execute ::
  "('m, 'i, 'f, 's, 'sig) test_env \<Rightarrow> nat \<Rightarrow> transaction \<Rightarrow> memory_store \<Rightarrow> memory_store \<Rightarrow> outcome option"
where
  "test_execute te k tx store cache =
     execute (te_wasm te) (te_hash te) (te_order te k) (te_sched te k) (te_split te k) tx (memory_get store) (memory_get cache)"

text \<open>The state and the code cache every test starts from.\<close>

definition test_setup ::
  "('m, 'i, 'f, 's, 'sig) test_env \<Rightarrow> bytes \<Rightarrow> (memory_store \<Rightarrow> memory_store \<Rightarrow> bool) \<Rightarrow> bool"
where
  "test_setup te mint_authority k =
     unwrapped (create_initial_blockchain_state (te_client te) (te_std te) (te_token te) mint_authority) (\<lambda>d0.
       let store = memory_apply memory_default d0 in
       unwrapped (expect (address_new ''/token'')) (\<lambda>token_at.
       unwrapped (precache_predicates_bytecode (te_wasm te) (te_ser te) (memory_get store) token_at) (\<lambda>c1.
       unwrapped (expect (address_new ''/stdpred/v1'')) (\<lambda>std_at.
       unwrapped (precache_predicates_bytecode (te_wasm te) (te_ser te) (memory_get store) std_at) (\<lambda>c2.
         k store (memory_apply (memory_apply memory_default c1) c2))))))"

definition balance_is :: "('m, 'i, 'f, 's, 'sig) test_env \<Rightarrow> memory_store \<Rightarrow> address \<Rightarrow> u64 \<Rightarrow> bool" where
  "balance_is te store a n =
     unwrapped (memory_get store a) (\<lambda>acc. dec_u64 (te_dec te) (acc_state acc) = Some n)"

definition mint_tokens :: "('m, 'i, 'f, 's, 'sig) test_env \<Rightarrow> keypair \<Rightarrow> keypair \<Rightarrow> multihash \<Rightarrow> bool" where
  "mint_tokens te mint_keypair wallet1keypair blockhash =
     test_setup te (public mint_keypair) (\<lambda>store cache.
     unwrapped (expect (address_new ''/token/usdx/wallet1.eth'')) (\<lambda>wallet1.
     unwrapped (expect (address_new ''/token/usdx'')) (\<lambda>usdx.
     passed (mint (te_client te) (te_dec te) (te_hash te) 1000 wallet1 (public wallet1keypair) mint_keypair blockhash (memory_get store)) (\<lambda>mint_tx.
     passed (test_execute te 0 mint_tx store cache) (\<lambda>outdiff.
       length (diff_iter outdiff) = 2
     \<and> (\<exists>thousand. to_vec (enc_u64 (te_client te) 1000) = Inr thousand
         \<and> map_option acc_state (diff_get outdiff usdx) = Some thousand
         \<and> map_option acc_state (diff_get outdiff wallet1) = Some thousand)
     \<and> (\<exists>guard. either
           (leaf ''/stdpred/v1'' ''uint_greater_than_equal'' [proposal_ref (Inr wallet1), account_ref (Inr wallet1)])
           (leaf ''/stdpred/v1'' ''require_ed25519_signature'' [inline (Inr (public wallet1keypair))]) = Inr guard
         \<and> map_option acc_predicates (diff_get outdiff wallet1) = Some guard)
     \<and> (\<exists>guard. both
           (leaf ''/token'' ''predicate''
              [inline (to_vec (enc_address (te_client te) usdx)), inline (to_vec (enc_key_bytes (te_client te) (public mint_keypair))),
               account_ref (Inr usdx)])
           (leaf ''/stdpred/v1'' ''immutable_predicates'' [inline (to_vec (enc_address (te_client te) usdx))]) = Inr guard
         \<and> map_option acc_predicates (diff_get outdiff usdx) = Some guard)
     \<and> (let store = memory_apply store outdiff in
        passed (mint (te_client te) (te_dec te) (te_hash te) 500 wallet1 (public wallet1keypair) mint_keypair blockhash (memory_get store)) (\<lambda>second_mint.
        passed (test_execute te 1 second_mint store cache) (\<lambda>diff.
          balance_is te (memory_apply store diff) wallet1 1500
        \<and> balance_is te (memory_apply store diff) usdx 1500))))))))"

definition transfer_token :: "('m, 'i, 'f, 's, 'sig) test_env \<Rightarrow> keypair \<Rightarrow> keypair \<Rightarrow> keypair \<Rightarrow> multihash \<Rightarrow> bool" where
  "transfer_token te mint_keypair alice_keypair bob_keypair blockhash =
     test_setup te (public mint_keypair) (\<lambda>store cache.
     unwrapped (expect (address_new ''/token/usdx/alice.eth'')) (\<lambda>alice.
     unwrapped (expect (address_new ''/token/usdx/bob.eth'')) (\<lambda>bob.
     passed (mint (te_client te) (te_dec te) (te_hash te) 1000 alice (public alice_keypair) mint_keypair blockhash (memory_get store)) (\<lambda>mint_tx.
     passed (test_execute te 0 mint_tx store cache) (\<lambda>d1.
       let store = memory_apply store d1 in
       balance_is te store alice 1000
     \<and> memory_get store bob = None
     \<and> passed (transfer (te_client te) (te_dec te) (te_hash te) 400 alice alice_keypair bob (public bob_keypair) blockhash (memory_get store)) (\<lambda>tx.
       passed (test_execute te 1 tx store cache) (\<lambda>d2.
         balance_is te (memory_apply store d2) alice 600
       \<and> balance_is te (memory_apply store d2) bob 400)))))))"

section \<open>What the builders produce\<close>

abbreviation usdx_address :: address where
  "usdx_address \<equiv> Address ''/token/usdx''"

abbreviation stdpred_v1 :: address where
  "stdpred_v1 \<equiv> Address ''/stdpred/v1''"

lemma parse_fixture [simp]: "parse ''/stdpred/v1'' = Inr stdpred_v1"
  by code_simp

lemma single_set_effect: "diff_effect (snd (diff_set diff_default a acc)) s b = (if b = a then Some acc else s b)"
  by (simp add: diff_effect_def) (simp add: diff_default_def is_deleted_def bt_get_def)

text \<open>The token account is guarded by the predicate of the token and by the constant it is given.\<close>

lemma initial_state:
  assumes "create_initial_blockchain_state env std token key = Some d" "enc_bool env False = Inr f"
  obtains acc sacc l where "memory_get (memory_apply memory_default d) usdx_address = Some acc"
    "acc_predicates acc = TAnd (TId l) (TId \<lparr>pred_code = CodeAccountRef stdpred_v1 ''constant'', pred_params = [ParamInline f]\<rparr>)"
    "memory_get (memory_apply memory_default d) stdpred_v1 = Some sacc" "acc_state sacc = std"
proof -
  from assms obtain sacc tacc acc l where d: "d = diff_apply (diff_apply (diff_apply diff_default
        (snd (diff_set diff_default stdpred_v1 sacc))) (snd (diff_set diff_default (Address ''/token'') tacc)))
        (snd (diff_set diff_default usdx_address acc))"
    and acc: "acc_predicates acc = TAnd (TId l) (TId \<lparr>pred_code = CodeAccountRef stdpred_v1 ''constant'', pred_params = [ParamInline f]\<rparr>)"
    and sacc: "acc_state sacc = std"
    by (auto simp: create_initial_blockchain_state_def install_standard_library_def install_token_bytecode_def install_library_def
        create_usdx_token_def bind_eq_Some_conv)
  have "memory_get (memory_apply memory_default d) = diff_effect d (memory_get memory_default)"
    unfolding d diff_apply_def by (intro mem_store.get_apply diff_merge_wf diff_wf_default)
  also have "\<dots> = fold diff_effect [snd (diff_set diff_default stdpred_v1 sacc), snd (diff_set diff_default (Address ''/token'') tacc),
      snd (diff_set diff_default usdx_address acc)] (memory_get memory_default)"
    unfolding d diff_apply_def
    using mem_store.foldl_merge_effect [of diff_default "[snd (diff_set diff_default stdpred_v1 sacc), snd (diff_set diff_default (Address ''/token'') tacc),
      snd (diff_set diff_default usdx_address acc)]" "memory_get memory_default"] by (simp add: diff_wf_set)
  finally show thesis using that acc sacc by (simp add: single_set_effect)
qed

definition usdx_wallet :: "address \<Rightarrow> bool" where
  "usdx_wallet a \<longleftrightarrow> valid_address a \<and> is_parent_of usdx_address a"

text \<open>A mint to a wallet below \<open>/token/usdx\<close> or a transfer between two of them.\<close>

definition usdx_operation :: "client_env \<Rightarrow> 'sig decoders \<Rightarrow> hash_env \<Rightarrow> state_view \<Rightarrow> transaction \<Rightarrow> bool" where
  "usdx_operation env dec henv state tx \<longleftrightarrow>
     (\<exists>n r key kp bh. usdx_wallet r \<and> mint env dec henv n r key kp bh state = Some (Inr tx))
   \<or> (\<exists>n s r key kp bh. usdx_wallet s \<and> usdx_wallet r \<and> transfer env dec henv n s kp r key bh state = Some (Inr tx))
   \<or> (\<exists>n m s r new key kp bh. usdx_wallet s \<and> usdx_wallet r \<and> transfer_unchecked env henv s kp n r key m new bh = Inr tx)"

lemma two_changes_proposals:
  assumes "valid_address a" "valid_address b"
  shows "valid_proposals (two_changes i (a, c1) (b, c2))" "bt_get (tx_proposals (two_changes i (a, c1) (b, c2))) a \<noteq> None"
proof -
  have get: "bt_get (tx_proposals (two_changes i (a, c1) (b, c2))) x \<noteq> None \<longleftrightarrow> x = a \<or> x = b" for x
    by (auto simp: two_changes_def transaction_new_def bt_collect_def bt_extend_def bt_get_def split: if_splits)
  then show "bt_get (tx_proposals (two_changes i (a, c1) (b, c2))) a \<noteq> None" by simp
  have "bt_inv (tx_proposals (two_changes i (a, c1) (b, c2)))"
    by (simp add: two_changes_def transaction_new_def bt_collect_inv)
  moreover have "valid_address x" if "x \<in> set (bt_keys (tx_proposals (two_changes i (a, c1) (b, c2))))" for x
    using that get [of x] assms by (auto simp: bt_keys_def bt_get_dom)
  ultimately show "valid_proposals (two_changes i (a, c1) (b, c2))" by (simp add: valid_proposals_def list_all_iff)
qed

lemma usdx_valid: "valid_address usdx_address"
  by code_simp

lemma map_build [simp]: "map_sum Build id r = Inr x \<longleftrightarrow> r = Inr x"
  by (cases r) auto

lemma mint_changes:
  "mint env dec henv n r key kp bh state = Some (Inr tx) \<Longrightarrow> \<exists>i c s. tx = two_changes i (r, c) (usdx_address, ReplaceState s)"
  unfolding mint_def parse_client by (simp only: sum.case) (clarsimp split: option.split_asm, blast)

lemma transfer_changes:
  "transfer env dec henv n s kp r key bh state = Some (Inr tx) \<Longrightarrow> \<exists>i c b. tx = two_changes i (r, c) (s, ReplaceState b)"
  unfolding transfer_def Let_def by (clarsimp split: option.split_asm sum.split_asm if_split_asm simp del: tree_results; blast)

lemma transfer_unchecked_changes:
  "transfer_unchecked env henv s kp n r key m new bh = Inr tx \<Longrightarrow> \<exists>i c b. tx = two_changes i (r, c) (s, ReplaceState b)"
  unfolding transfer_unchecked_def by (clarsimp simp del: tree_results) blast

lemma usdx_operation_touches:
  assumes "usdx_operation env dec henv state tx"
  obtains x where "valid_proposals tx" "bt_get (tx_proposals tx) x \<noteq> None" "is_parent_of usdx_address x"
proof -
  from assms consider (minted) n r key kp bh where "usdx_wallet r" "mint env dec henv n r key kp bh state = Some (Inr tx)"
    | (transferred) n s r key kp bh where "usdx_wallet s" "usdx_wallet r" "transfer env dec henv n s kp r key bh state = Some (Inr tx)"
    | (unguarded) n m s r new key kp bh where "usdx_wallet s" "usdx_wallet r" "transfer_unchecked env henv s kp n r key m new bh = Inr tx"
    unfolding usdx_operation_def by blast
  then obtain i a b c1 c2 where "tx = two_changes i (a, c1) (b, c2)" "usdx_wallet a" "valid_address b"
  proof cases
    case minted
    with mint_changes [OF minted(2)] usdx_valid that show thesis by blast
  next
    case transferred
    with transfer_changes [OF transferred(3)] that show thesis by (auto simp: usdx_wallet_def)
  next
    case unguarded
    with transfer_unchecked_changes [OF unguarded(3)] that show thesis by (auto simp: usdx_wallet_def)
  qed
  then show thesis using that [of a] two_changes_proposals [of a b i c1 c2] by (auto simp: usdx_wallet_def)
qed

section \<open>Rejection\<close>

lemma usdx_rejected:
  assumes "create_initial_blockchain_state cenv std token key = Some d0"
    "\<And>a. a = usdx_address \<or> a = stdpred_v1 \<Longrightarrow> state a = memory_get (memory_apply memory_default d0) a"
    "enc_bool cenv False = Inr f" "dec_bool dec f = Some False" "usdx_operation cenv dec env state tx"
    "allocator_laws al" "codec_ok cd" "cache_coherent w cache" "w = guest_env al cd hash b58 deser binary"
    "module_from_binary w std = Inr (stdpred_library dec)" "bs58_alphanumeric w" "\<And>out. mset (order out) = mset out"
  shows "\<exists>e. execute w env order sched split tx state cache = Some (Inl e)"
proof -
  obtain acc sacc l where acc: "state usdx_address = Some acc"
    "acc_predicates acc = TAnd (TId l) (TId \<lparr>pred_code = CodeAccountRef stdpred_v1 ''constant'', pred_params = [ParamInline f]\<rparr>)"
    and lib: "state stdpred_v1 = Some sacc" "module_from_binary w (acc_state sacc) = Inr (stdpred_library dec)"
    using initial_state [OF assms(1,3)] assms(2,10) by metis
  obtain x where x: "valid_proposals tx" "bt_get (tx_proposals tx) x \<noteq> None" "is_parent_of usdx_address x"
    using usdx_operation_touches [OF assms(5)] .
  have "False" if "execute w env order sched split tx state cache = Some (Inr d)" for d
  proof (rule execute_acceptedE [OF that x(1) assms(12)])
    fix ctx c
    assume c: "context_to_vec w ctx = Inr c" and ok: "list_all is_ok (guard_trees state ctx tx)"
      and holds: "\<And>t. t \<in> set (required_trees state ctx tx) \<Longrightarrow> negation_free t \<Longrightarrow> tree_holds (accepts (\<lambda>p. invoke w c p cache)) t"
    have "usdx_address \<in> set (guard_addresses (bt_keys (tx_proposals tx)))" using touched_guard [OF x(1) usdx_valid x(2)] x(3) by blast
    then obtain t where t: "expand_predicate_tree state (acc_predicates acc) ctx (merged_calldata ctx) = Inr t"
      "t \<in> set (required_trees state ctx tx)" using account_tree_required [OF ok _ acc(1)] by blast
    from t(1) obtain p q where t': "t = TAnd (TId p) (TId q)"
      and q: "expand_predicate state ctx (merged_calldata ctx) \<lparr>pred_code = CodeAccountRef stdpred_v1 ''constant'', pred_params = [ParamInline f]\<rparr> = Inr q"
      by (auto simp: acc(2) expand_predicate_tree_def)
    then have "invoke w c q cache = Some (Inr True)" using holds [OF t(2)] by (simp add: accepts_def)
    from library_invoked [OF assms(6-9) lib c q _ this] obtain g qs where
      "stdpred_library dec ''constant'' = Some g" "g qs ctx = Some True"
      "list_all2 (\<lambda>p x. expand_param state ctx (merged_calldata ctx)
         \<lparr>pred_code = CodeAccountRef stdpred_v1 ''constant'', pred_params = [ParamInline f]\<rparr> p = Inr x) [ParamInline f] qs"
      by (auto simp: reserved_names_def)
    then show False using assms(4) by (auto simp: std_exports constant_pred_def list_all2_Cons1 expand_param_results)
  qed
  moreover obtain r where "execute w env order sched split tx state cache = Some r" using execute_total [OF assms(11) x(1)] by blast
  ultimately show ?thesis by (cases r) auto
qed

text \<open>The code cache of the tests is coherent, so both tests fail at their first mint.\<close>

lemma precached_compiled:
  assumes "precache_predicates_bytecode w ser state a = Some d"
  shows "compiled_diff w ser d"
proof -
  from assms obtain code m s where m: "module_from_binary w code = Inr m" "ser m = Some s"
    and d: "d = snd (diff_set diff_default (Address (predcache_path w code))
      \<lparr>acc_state = s, acc_predicates = TId \<lparr>pred_code = CodeInline [], pred_params = []\<rparr>\<rparr>)"
    by (auto simp: precache_predicates_bytecode_def bind_eq_Some_conv dest!: address_new_path split: option.splits)
  have "bt_get (upserts diff_default) b = None" for b by (simp add: diff_default_def bt_get_def)
  with m d show ?thesis by (auto simp: compiled_diff_def diff_wf_set split: if_splits)
qed

lemma fails_if:
  "(\<And>x. r = Some x \<Longrightarrow> \<not> k x) \<Longrightarrow> \<not> unwrapped r k"
  "(\<And>x. r' = Some (Inr x) \<Longrightarrow> \<not> k' x) \<Longrightarrow> \<not> passed r' k'"
  by (auto simp: unwrapped_def passed_def split: option.splits sum.splits)

lemma setup_fails:
  assumes "\<And>d0 c1 c2 store cache s1 s2 a1 a2.
      create_initial_blockchain_state (te_client te) (te_std te) (te_token te) pk = Some d0 \<Longrightarrow> store = memory_apply memory_default d0
      \<Longrightarrow> precache_predicates_bytecode (te_wasm te) (te_ser te) s1 a1 = Some c1 \<Longrightarrow> precache_predicates_bytecode (te_wasm te) (te_ser te) s2 a2 = Some c2
      \<Longrightarrow> cache = memory_apply (memory_apply memory_default c1) c2 \<Longrightarrow> \<not> k store cache"
  shows "\<not> test_setup te pk k"
  unfolding test_setup_def Let_def by (intro fails_if) (rule assms, assumption, rule refl, assumption, assumption, rule refl)

lemma integration_tests_fail:
  assumes "allocator_laws al" "codec_ok cd" "te_wasm te = guest_env al cd hash b58 deser binary" "serializer_ok (te_wasm te) (te_ser te)"
    "module_from_binary (te_wasm te) (te_std te) = Inr (stdpred_library (te_dec te))" "bs58_alphanumeric (te_wasm te)"
    "\<And>k out. mset (te_order te k out) = mset out" "enc_bool (te_client te) False = Inr f" "dec_bool (te_dec te) f = Some False"
  shows "\<not> mint_tokens te mk wk bh" "\<not> transfer_token te mk ak bk bh"
proof -
  have rejected: False
    if "create_initial_blockchain_state (te_client te) (te_std te) (te_token te) (public mk) = Some d0" "store = memory_apply memory_default d0"
      "precache_predicates_bytecode (te_wasm te) (te_ser te) s1 a1 = Some c1" "precache_predicates_bytecode (te_wasm te) (te_ser te) s2 a2 = Some c2"
      "cache = memory_apply (memory_apply memory_default c1) c2" "usdx_wallet r"
      "mint (te_client te) (te_dec te) (te_hash te) n r key kp bh (memory_get store) = Some (Inr tx)"
      "test_execute te k tx store cache = Some (Inr d)" for k d0 store cache c1 c2 s1 s2 a1 a2 n r key kp tx d
  proof -
    have "cache_coherent (te_wasm te) (memory_get memory_default)" by (simp add: cache_coherent_def memory_get_def memory_default_def)
    then have cache: "cache_coherent (te_wasm te) (memory_get cache)"
      unfolding that(5) using coherent_apply [OF assms(4)] precached_compiled that(3,4) by blast
    have "usdx_operation (te_client te) (te_dec te) (te_hash te) (memory_get store) tx"
      unfolding usdx_operation_def using that(6,7) by blast
    from usdx_rejected [OF that(1) _ assms(8,9) this assms(1,2) cache assms(3,5,6), where order = "te_order te k"
        and sched = "te_sched te k" and split = "te_split te k", OF _ assms(7)] that(2,8) show False
      by (auto simp: test_execute_def)
  qed
  have w: "usdx_wallet (Address ''/token/usdx/wallet1.eth'')" "usdx_wallet (Address ''/token/usdx/alice.eth'')" by code_simp+
  have at_text: "x = Address s" if "expect (address_new s) = Some x" for s x using that by (simp add: address_new_path)
  show "\<not> mint_tokens te mk wk bh"
    unfolding mint_tokens_def using at_text w by (intro setup_fails fails_if) (blast dest: rejected)
  show "\<not> transfer_token te mk ak bk bh"
    unfolding transfer_token_def using at_text w by (intro setup_fails fails_if) (blast dest: rejected)
qed

section \<open>Properties\<close>

text \<open>C19. The integration tests cannot pass.  In the initial state their fixtures set up, and in every state that
  still has its token account and its standard library, execution rejects every mint and every transfer
  that the token operations build for wallets of the token, whatever the amounts, keys, schedules, hash orders and
  code cache: the second half of the guard of \<open>/token/usdx\<close> is the constant \<open>false\<close>, which the assertions of
  \<open>mint_tokens\<close> do not expect.\<close>

theorem fixture_rejects:
  assumes "create_initial_blockchain_state cenv std token key = Some d0"
    "\<And>a. a = usdx_address \<or> a = stdpred_v1 \<Longrightarrow> state a = memory_get (memory_apply memory_default d0) a"
    "enc_bool cenv False = Inr f" "dec_bool dec f = Some False" "usdx_operation cenv dec env state tx"
    "allocator_laws al" "codec_ok cd" "cache_coherent w cache" "w = guest_env al cd hash b58 deser binary"
    "module_from_binary w std = Inr (stdpred_library dec)" "bs58_alphanumeric w" "\<And>out. mset (order out) = mset out"
  shows "\<exists>e. execute w env order sched split tx state cache = Some (Inl e)"
  by (rule usdx_rejected [OF assms])

theorem fixture_rejects_witness:
  "\<exists>d0 tx e. create_initial_blockchain_state sample_client [1] [2] [7] = Some d0
    \<and> mint sample_client sample_decoders sample_env 3 (Address ''/token/usdx/k'') [7] sample_keypair [1]
        (memory_get (memory_apply memory_default d0)) = Some (Inr tx)
    \<and> execute (sample_host [] []) sample_env (\<lambda>out. out) [] (\<lambda>_ _. 1) tx (memory_get (memory_apply memory_default d0)) (\<lambda>_. None) = Some (Inl e)"
proof -
  let ?mint = "\<lambda>d. mint sample_client sample_decoders sample_env 3 (Address ''/token/usdx/k'') [7] sample_keypair [1]
    (memory_get (memory_apply memory_default d))"
  have "case create_initial_blockchain_state sample_client [1] [2] [7] of None \<Rightarrow> False
      | Some d \<Rightarrow> (case ?mint d of Some (Inr tx) \<Rightarrow> True | _ \<Rightarrow> False)" by code_simp
  then obtain d0 tx where d0: "create_initial_blockchain_state sample_client [1] [2] [7] = Some d0" and tx: "?mint d0 = Some (Inr tx)"
    by (auto split: option.splits sum.splits)
  have f: "enc_bool sample_client False = Inr [194]" "dec_bool sample_decoders [194] = Some False"
    by (simp_all add: sample_client_def sample_decoders_def)
  have "usdx_wallet (Address ''/token/usdx/k'')" by code_simp
  then have op: "usdx_operation sample_client sample_decoders sample_env (memory_get (memory_apply memory_default d0)) tx"
    using tx unfolding usdx_operation_def by blast
  have "sample_host [] [] = guest_env bump_heap (table_codec [] []) (\<lambda>b. b) (\<lambda>_. ''x'') (\<lambda>_. None) (\<lambda>_. Inr (stdpred_library sample_decoders))"
    by (simp add: sample_host_def sample_guest_def)
  from fixture_rejects [OF d0 refl f op bump_heap_laws table_codec_ok _ this _ sample_host_ok, of "\<lambda>_. None" "\<lambda>out. out" "[]" "\<lambda>_ _. 1"]
  have "\<exists>e. execute (sample_host [] []) sample_env (\<lambda>out. out) [] (\<lambda>_ _. 1) tx (memory_get (memory_apply memory_default d0)) (\<lambda>_. None) = Some (Inl e)"
    by (simp add: cache_coherent_def sample_host_def sample_guest_def)
  with d0 tx show ?thesis by blast
qed

end
