(* ===== verification/Replica.thy ===== *)
theory Replica
  imports Codecache Verdict
begin

text \<open>
  Replicas of the state: what the watcher of \<open>sdk/offchain/src/watcher.rs\<close> holds compared with the
  development node that produces the blocks.  Both run \<open>execute_many\<close> on the same blocks, each with its
  own interleavings, iteration orders and code cache.  They agree as long as no crash can hide below a
  disjunction or a negation and no block is missed.
\<close>

section \<open>Verdicts that do not depend on the schedule\<close>

text \<open>Every tree is a conjunction or its predicates answer.\<close>

definition steady_trees :: "invoker \<Rightarrow> expanded_tree list \<Rightarrow> bool" where
  "steady_trees ivk trees = list_all (\<lambda>t. conjunctive t \<or> list_all (\<lambda>p. answered (ivk p)) (tree_leaves t)) trees"

lemma conjunctive_negation_free: "conjunctive t \<Longrightarrow> negation_free t"
  by (induction t) auto

lemma conjunctive_holds: "conjunctive t \<Longrightarrow> tree_holds P t \<longleftrightarrow> list_all P (tree_leaves t)"
  by (induction t) auto

lemma parallel_steady:
  assumes "bs58_alphanumeric w" "context_to_vec w ctx = Inr c" "steady_trees (\<lambda>p. invoke w c p cache) trees"
  shows "\<exists>r. parallel_invoke_predicates w sched split ctx trees cache = Some r
    \<and> (is_ok r \<longleftrightarrow> list_all (tree_holds (accepts (\<lambda>p. invoke w c p cache))) trees)"
proof (cases "answers (\<lambda>p. invoke w c p cache) trees")
  case True
  from parallel_answers [OF assms(2) this] show ?thesis .
next
  case False
  let ?ivk = "\<lambda>p. invoke w c p cache"
  obtain rs where "opt_list task_result (snd (final_machine ?ivk sched trees)) = Some rs"
    using final_results [of trees ?ivk sched] invoke_total [OF assms(1)] by metis
  then obtain r where r: "parallel_invoke_predicates w sched split ctx trees cache = Some r"
    by (simp add: parallel_invoke_eq [OF assms(2)])
  from False obtain t p where t: "t \<in> set trees" "p \<in> set (tree_leaves t)" "\<not> answered (?ivk p)"
    by (auto simp: answers_def list_all_iff)
  with assms(3) have conj: "conjunctive t" by (auto simp: steady_trees_def list_all_iff)
  have no: "\<not> tree_holds (accepts ?ivk) t"
    using t(2,3) conjunctive_holds [OF conj] by (auto simp: list_all_iff accepts_def answered_iff)
  moreover have "\<not> is_ok r"
  proof
    assume "is_ok r"
    then obtain u where "r = Inr u" by (cases r) auto
    with parallel_sound [OF assms(2) r [unfolded this] t(1) conjunctive_negation_free [OF conj]] no show False by simp
  qed
  ultimately show ?thesis using r t(1) by (auto simp: list_all_iff)
qed

text \<open>A transaction whose verdict no schedule can change, on any state.\<close>

definition steady :: "('m, 'i, 'f, 's) wasm_env \<Rightarrow> hash_env \<Rightarrow> transaction \<Rightarrow> bool" where
  "steady w env tx \<longleftrightarrow>
     (\<forall>state ctx c. predicate_context_of env state tx = Inr ctx \<longrightarrow> context_to_vec w ctx = Inr c
        \<longrightarrow> steady_trees (\<lambda>p. invoke w c p (\<lambda>_. None)) (required_trees state ctx tx))"

definition verdict :: "outcome \<Rightarrow> state_diff option" where
  "verdict r = (case r of Inr d \<Rightarrow> Some d | Inl _ \<Rightarrow> None)"

lemma verdict_Some [simp]: "verdict r = Some d \<longleftrightarrow> r = Inr d" "verdict (Inr d) = Some d" "verdict (Inl e) = None"
  by (auto simp: verdict_def split: sum.splits)

lemma steady_accepts:
  assumes "bs58_alphanumeric w" "valid_proposals tx" "\<And>out. mset (order out) = mset out" "cache_coherent w cache" "steady w env tx"
  shows "execute w env order sched split tx state cache = Some (Inr d) \<longleftrightarrow>
    (\<exists>ctx c. outputs state tx = Inr d \<and> predicate_context_of env state tx = Inr ctx \<and> context_to_vec w ctx = Inr c
      \<and> list_all is_ok (guard_trees state ctx tx)
      \<and> list_all (tree_holds (accepts (\<lambda>p. invoke w c p (\<lambda>_. None)))) (required_trees state ctx tx))"
proof -
  have cache: "invoke w c p cache = invoke w c p (\<lambda>_. None)" for c p using coherent_transparent [OF assms(4)] .
  show ?thesis
  proof (cases "\<exists>ctx c. predicate_context_of env state tx = Inr ctx \<and> context_to_vec w ctx = Inr c
      \<and> list_all is_ok (guard_trees state ctx tx)")
    case False
    have "\<not> execute w env order sched split tx state cache = Some (Inr d)"
    proof
      assume "execute w env order sched split tx state cache = Some (Inr d)"
      from execute_acceptedE [OF this assms(2,3)] False show False by metis
    qed
    with False show ?thesis by blast
  next
    case True
    then obtain ctx c where ctx: "predicate_context_of env state tx = Inr ctx" "context_to_vec w ctx = Inr c"
      and ok: "list_all is_ok (guard_trees state ctx tx)" by blast
    from collected_trees [OF assms(2,3), of state ctx] ok obtain ats its where
      a: "accounts_predicates order state ctx tx = Some (Inr ats)" "intents_predicates state ctx tx = Inr its"
      and set: "set (ats @ its) = set (required_trees state ctx tx)" by auto
    have "steady_trees (\<lambda>p. invoke w c p cache) (ats @ its)"
      using assms(5) ctx unfolding steady_def cache steady_trees_def list_all_iff set by blast
    from parallel_steady [OF assms(1) ctx(2) this, of sched split] obtain r where
      r: "parallel_invoke_predicates w sched split ctx (ats @ its) cache = Some r"
      "is_ok r \<longleftrightarrow> list_all (tree_holds (accepts (\<lambda>p. invoke w c p (\<lambda>_. None)))) (required_trees state ctx tx)"
      unfolding list_all_iff set cache by blast
    show ?thesis using r(2) ok ctx by (cases r; cases "outputs state tx") (auto simp: execute_def a r(1))
  qed
qed

text \<open>Two executions that differ in schedules, orders and caches.\<close>

lemma steady_verdict:
  assumes "bs58_alphanumeric w" "valid_proposals tx" "steady w env tx" "\<And>out. mset (order out) = mset out" "cache_coherent w cache"
    "\<And>out. mset (order' out) = mset out" "cache_coherent w cache'"
  shows "map_option verdict (execute w env order sched split tx state cache)
    = map_option verdict (execute w env order' sched' split' tx state cache')"
proof -
  obtain r where r: "execute w env order sched split tx state cache = Some r" using execute_total [OF assms(1,2)] by blast
  obtain r' where r': "execute w env order' sched' split' tx state cache' = Some r'" using execute_total [OF assms(1,2)] by blast
  have "verdict r = Some d \<longleftrightarrow> verdict r' = Some d" for d
    using steady_accepts [OF assms(1,2,4,5,3), of sched split state d] steady_accepts [OF assms(1,2,6,7,3), of sched' split' state d] r r'
    by simp
  then have "verdict r = verdict r'" by (metis option.exhaust)
  with r r' show ?thesis by simp
qed

section \<open>Blocks run alike\<close>

text \<open>What a row of results says beyond the wording of errors.\<close>

definition tagged :: "outcome \<times> nat \<Rightarrow> state_diff option \<times> nat" where
  "tagged r = (verdict (fst r), snd r)"

definition alike :: "transaction list \<Rightarrow> executor \<Rightarrow> executor \<Rightarrow> bool" where
  "alike txs exec exec' \<longleftrightarrow>
     (\<forall>ix tx s. tx \<in> set txs \<longrightarrow> map_option verdict (exec ix tx s) = map_option verdict (exec' ix tx s))"

definition cells_from :: "transaction list \<Rightarrow> node list \<Rightarrow> bool" where
  "cells_from txs nodes = list_all (\<lambda>c. case cell_value c of Some (tx, _) \<Rightarrow> tx \<in> set txs | None \<Rightarrow> True) nodes"

lemma syn_take_value: "syn_take c = Some (v, c') \<Longrightarrow> v = cell_value c \<and> cell_value c' = None"
  by (auto simp: syn_take_def borrow_mut_def fetch_or_write_def drop_ref_mut_def clear_write_def Let_def
      split: prod.splits if_splits bool.splits)

lemma take_row_cells:
  "take_row vs nodes = Some (ts, nodes') \<Longrightarrow> cells_from txs nodes \<Longrightarrow> fst ` set ts \<subseteq> set txs \<and> cells_from txs nodes'"
proof (induction vs arbitrary: nodes ts nodes')
  case (Cons v vs)
  then obtain t c ts' where v: "v < length nodes" "syn_take (nodes ! v) = Some (Some t, c)"
    and rest: "take_row vs (nodes[v := c]) = Some (ts', nodes')" "ts = t # ts'"
    by (auto split: if_splits option.splits prod.splits)
  from syn_take_value [OF v(2)] have c: "cell_value (nodes ! v) = Some t" "cell_value c = None" by auto
  then have "fst t \<in> set txs" using Cons.prems(2) v(1) by (auto simp: cells_from_def list_all_length split: prod.splits)
  moreover have "cells_from txs (nodes[v := c])"
    using Cons.prems(2) c(2) by (auto simp: cells_from_def list_all_iff dest!: set_update_subset_insert [THEN subsetD])
  ultimately show ?case using Cons.IH [OF rest(1)] rest(2) by auto
qed simp

lemma run_row_alike:
  assumes "alike txs exec exec'" "fst ` set ts \<subseteq> set txs" "run_row exec s ts = Some out"
  shows "\<exists>out'. run_row exec' s ts = Some out' \<and> map tagged out' = map tagged out"
  using assms(2,3)
proof (induction ts arbitrary: out)
  case (Cons t ts)
  obtain tx ix where t: "t = (tx, ix)" by (cases t)
  from Cons.prems t obtain r rest where r: "exec ix tx s = Some r" "run_row exec s ts = Some rest" "out = (r, ix) # rest"
    by (auto simp: run_row_def split: option.splits)
  have "tx \<in> set txs" using Cons.prems(1) t by simp
  with assms(1) have "map_option verdict (exec ix tx s) = map_option verdict (exec' ix tx s)" by (auto simp: alike_def)
  with r(1) obtain r' where "exec' ix tx s = Some r'" "verdict r' = verdict r" by (cases "exec' ix tx s") auto
  with Cons.IH [OF _ r(2)] Cons.prems(1) t r(3) show ?case by (auto simp: run_row_def tagged_def)
qed (simp add: run_row_def)

lemma accumulate_tagged: "map tagged out' = map tagged out \<Longrightarrow> foldl accumulate acc out' = foldl accumulate acc out"
proof (induction out arbitrary: out' acc)
  case (Cons r out)
  then obtain r' rest where out': "out' = r' # rest" "tagged r' = tagged r" "map tagged rest = map tagged out" by auto
  then have "accumulate acc r' = accumulate acc r"
    by (cases "fst r'"; cases "fst r") (auto simp: tagged_def accumulate_def)
  with Cons.IH [OF out'(3), of "accumulate acc r"] out'(1) show ?case by simp
qed simp

text \<open>The second run follows the first, row by row.\<close>

definition follows :: "transaction list \<Rightarrow> executor \<Rightarrow> executor \<Rightarrow> state_view \<Rightarrow> (nat \<Rightarrow> nat list) \<Rightarrow> bfs_rows \<Rightarrow> node list
    \<Rightarrow> state_diff \<Rightarrow> (outcome \<times> nat) list \<Rightarrow> (outcome \<times> nat) list \<times> node list \<Rightarrow> bool" where
  "follows txs exec' exec state nbr it nodes acc out r \<longleftrightarrow>
     (alike txs exec exec' \<longrightarrow> cells_from txs nodes \<longrightarrow> (\<forall>out'. map tagged out' = map tagged out \<longrightarrow>
       (\<exists>r'. tree_rows exec' state nbr it nodes acc out' = Some (r', snd r) \<and> map tagged r' = map tagged (fst r)
         \<and> cells_from txs (snd r))))"

lemma tree_rows_follows:
  assumes "tree_rows exec state nbr it nodes acc out = Some r"
  shows "follows txs exec' exec state nbr it nodes acc out r"
proof (rule tree_rows.raw_induct [OF _ assms, where P = "follows txs exec'"])
  fix loop exec state nbr it nodes acc out r
  assume IH: "\<And>exec state nbr it nodes acc out r. loop exec state nbr it nodes acc out = Some r
      \<Longrightarrow> follows txs exec' exec state nbr it nodes acc out r"
    and step: "(case bfs_next nbr it of
        None \<Rightarrow> None
      | Some (None, _) \<Rightarrow> Some (out, nodes)
      | Some (Some row, it) \<Rightarrow>
     (case take_row row nodes of
        None \<Rightarrow> None
      | Some (row_txs, nodes) \<Rightarrow>
     (case run_row exec (overlayed_get state (diff_get acc)) row_txs of
        None \<Rightarrow> None
      | Some results \<Rightarrow> loop exec state nbr it nodes (foldl accumulate acc results) (out @ results)))) = Some r"
  show "follows txs exec' exec state nbr it nodes acc out r"
    unfolding follows_def
  proof (intro impI allI)
    fix out'
    assume a: "alike txs exec exec'" and cells: "cells_from txs nodes" and out': "map tagged out' = map tagged out"
    from step consider it' where "bfs_next nbr it = Some (None, it')" "r = (out, nodes)"
      | row it' ts nodes' results where "bfs_next nbr it = Some (Some row, it')" "take_row row nodes = Some (ts, nodes')"
        "run_row exec (overlayed_get state (diff_get acc)) ts = Some results"
        "loop exec state nbr it' nodes' (foldl accumulate acc results) (out @ results) = Some r"
      by (auto split: option.splits prod.splits)
    then show "\<exists>r'. tree_rows exec' state nbr it nodes acc out' = Some (r', snd r) \<and> map tagged r' = map tagged (fst r)
        \<and> cells_from txs (snd r)"
    proof cases
      case 1
      then show ?thesis using out' cells by (subst tree_rows.simps) simp
    next
      case 2
      note row = take_row_cells [OF 2(2) cells]
      from run_row_alike [OF a _ 2(3)] row obtain res' where
        res': "run_row exec' (overlayed_get state (diff_get acc)) ts = Some res'" "map tagged res' = map tagged results" by blast
      have "map tagged (out' @ res') = map tagged (out @ results)" using out' res'(2) by simp
      with IH [OF 2(4)] a row obtain r' where
        "tree_rows exec' state nbr it' nodes' (foldl accumulate acc results) (out' @ res') = Some (r', snd r)"
        "map tagged r' = map tagged (fst r)" "cells_from txs (snd r)" unfolding follows_def by blast
      then show ?thesis using 2(1,2) res' accumulate_tagged [OF res'(2)] by (subst tree_rows.simps) simp
    qed
  qed
qed

lemma run_trees_alike:
  assumes "alike txs exec exec'"
  shows "run_trees pg exec state es rts nodes = Some out \<Longrightarrow> cells_from txs nodes
    \<Longrightarrow> \<exists>out'. run_trees pg exec' state es rts nodes = Some out' \<and> map tagged out' = map tagged out"
proof (induction rts arbitrary: nodes out)
  case (Cons rt rts)
  from Cons.prems(1) obtain it r more where it: "bfs_new (length nodes) rt = Some it"
    and r: "tree_rows exec state (pg_neighbors pg es) it nodes diff_default [] = Some r"
    and more: "run_trees pg exec state es rts (snd r) = Some more" and out: "out = fst r @ more"
    by (auto simp: tree_run_def split: option.splits prod.splits)
  from tree_rows_follows [OF r, of txs exec'] assms Cons.prems(2) obtain r' where
    "tree_rows exec' state (pg_neighbors pg es) it nodes diff_default [] = Some (r', snd r)" "map tagged r' = map tagged (fst r)"
    "cells_from txs (snd r)" unfolding follows_def by (metis (no_types, lifting) list.simps(8))
  with Cons.IH [OF more] it out show ?case by (auto simp: tree_run_def)
qed simp

lemma insort_tagged: "map tagged (insort_key snd x xs) = insort_key snd (tagged x) (map tagged xs)"
  by (induction xs) (auto simp: tagged_def)

lemma sort_tagged: "map tagged (sort_key snd xs) = sort_key snd (map tagged xs)"
  by (induction xs) (simp_all add: insort_tagged)

lemma schedule_cells: "schedule_new pg state txs = Some s \<Longrightarrow> cells_from txs (graph_nodes s)"
  by (auto simp: schedule_new_def cells_from_def list_all_iff syn_new_def Let_def dest!: set_zip_leftD split: option.splits)

lemma execute_many_alike:
  assumes "alike txs exec exec'" "execute_many pg exec state txs = Some results"
  shows "\<exists>results'. execute_many pg exec' state txs = Some results' \<and> map verdict results' = map verdict results"
proof -
  from assms(2) obtain s out where s: "schedule_new pg state txs = Some s"
    and out: "run_trees pg exec state (graph_edges s) (roots s) (graph_nodes s) = Some out" "results = map fst (sort_key snd out)"
    by (auto simp: execute_many_def schedule_run_def split: option.splits)
  have "cells_from txs (graph_nodes s)" using s by (rule schedule_cells)
  from run_trees_alike [OF assms(1) out(1) this] obtain out' where
    out': "run_trees pg exec' state (graph_edges s) (roots s) (graph_nodes s) = Some out'" "map tagged out' = map tagged out" by blast
  have "map tagged (sort_key snd out') = map tagged (sort_key snd out)" using out'(2) by (simp add: sort_tagged)
  then have "map fst (map tagged (sort_key snd out')) = map fst (map tagged (sort_key snd out))" by simp
  then have "map verdict (map fst (sort_key snd out')) = map verdict (map fst (sort_key snd out))"
    by (simp add: tagged_def comp_def)
  with s out out' show ?thesis by (simp add: execute_many_def schedule_run_def)
qed

lemma ok_diffs_verdict: "ok_diffs rs = List.map_filter verdict rs"
  by (induction rs rule: ok_diffs.induct) (simp_all add: List.map_filter_def verdict_def)

lemma verdicts_merge: "map verdict rs' = map verdict rs \<Longrightarrow> ok_diffs rs' = ok_diffs rs"
proof (induction rs arbitrary: rs')
  case (Cons r rs)
  then obtain r' rest where "rs' = r' # rest" "verdict r' = verdict r" "map verdict rest = map verdict rs" by auto
  with Cons.IH [of rest] show ?case by (simp add: ok_diffs_verdict List.map_filter_simps split: option.splits)
qed simp

section \<open>The watcher\<close>

text \<open>\<open>BlockchainWatcher::new\<close> and the task it spawns, which consumes the stream of blocks.  A rejected block is
  only logged; \<open>None\<close> is a panic of the task.\<close>

definition watcher_new :: "nat \<Rightarrow> memory_store \<Rightarrow> memory_store \<Rightarrow> block list \<Rightarrow> builder_error + watcher" where
  "watcher_new hl state cache blocks =
     bind_res (builder_new hl state cache blocks) (\<lambda>b. Inr \<lparr>watchlist = Map.empty, state_builder = b\<rparr>)"

fun watcher_run ::
  "('m, 'i, 'f, 's) wasm_env \<Rightarrow> ('m \<Rightarrow> bytes option) \<Rightarrow> hash_env \<Rightarrow> block_runner \<Rightarrow> block list \<Rightarrow> watcher
   \<Rightarrow> ((nat \<times> watchlist_value) list \<times> watcher) option"
where
  "watcher_run w ser env run [] x = Some ([], x)"
| "watcher_run w ser env run (blk # blks) x =
     (case watcher_block w ser env run blk x of
        None \<Rightarrow> None
      | Some (sent, x) \<Rightarrow> map_option (\<lambda>(more, x). (sent @ more, x)) (watcher_run w ser env run blks x))"

definition watcher_get :: "watcher \<Rightarrow> address \<Rightarrow> account option" where
  "watcher_get x a = builder_get (state_builder x) a"

definition most_recent_block :: "watcher \<Rightarrow> block option" where
  "most_recent_block x = builder_last (state_builder x)"

lemma watcher_block_builder:
  "watcher_block w ser env run blk x = Some (sent, x') \<Longrightarrow>
     \<exists>r. builder_consume w ser env run blk (state_builder x) = Some (r, state_builder x')"
  by (auto simp: watcher_block_def Let_def split: prod.splits)

lemma watcher_block_total:
  assumes "builder_consume w ser env run blk (state_builder x) = Some (r, b)"
  obtains sent x' where "watcher_block w ser env run blk x = Some (sent, x')" "state_builder x' = b"
  using assms that by (cases "fold (signal_tx env blk) (block_transactions blk) (watchlist x, [])") (auto simp: watcher_block_def)

section \<open>Builders in step\<close>

definition same_tip :: "hash_env \<Rightarrow> block_state_builder \<Rightarrow> block_state_builder \<Rightarrow> bool" where
  "same_tip env b b' =
     (case (builder_last b, builder_last b') of
        (Some x, Some y) \<Rightarrow> fst (block_hash env x) = fst (block_hash env y) \<and> height x = height y
      | _ \<Rightarrow> False)"

definition in_step :: "('m, 'i, 'f, 's) wasm_env \<Rightarrow> hash_env \<Rightarrow> block_state_builder \<Rightarrow> block_state_builder \<Rightarrow> bool" where
  "in_step w env b b' \<longleftrightarrow> memory_get (b_state b) = memory_get (b_state b') \<and> same_tip env b b'
     \<and> cache_coherent w (memory_get (codecache b)) \<and> cache_coherent w (memory_get (codecache b'))
     \<and> 0 < history_len b \<and> 0 < history_len b'"

lemma push_block_hd: "0 < hl \<Longrightarrow> \<exists>rest. push_block hl blk bs = blk # rest"
  by (cases bs) (auto simp: push_block_def Let_def)

text \<open>What a successful consumption did.\<close>

lemma consume_okE:
  assumes "builder_consume w ser env run blk b = Some (Inr u, b')" "0 < history_len b"
  obtains front results where "builder_last b = Some front" "parent blk = fst (block_hash env front)" "height blk = height front + 1"
    "run (memory_get (b_state b)) (memory_get (codecache b)) (block_transactions blk) = Some results"
    "b_state b' = memory_apply (b_state b) (merge_results results)" "builder_last b' = Some blk" "history_len b' = history_len b"
proof -
  obtain front older where r: "recent b = front # older"
    using assms(1) by (cases "recent b") (auto simp: builder_consume_def)
  obtain h f where hf: "block_hash env front = (h, f)" by (cases "block_hash env front")
  have f: "height f = height front" using block_hash_fields(1) [of env front] hf by simp
  obtain rest where "push_block (history_len b) blk (f # older) = blk # rest" using push_block_hd [OF assms(2)] by blast
  then show thesis using assms(1) r hf f that
    by (auto simp: builder_consume_def builder_last_def Let_def split: if_splits option.splits)
qed

lemma consume_okI:
  assumes "builder_last b = Some front" "parent blk = fst (block_hash env front)" "height blk = height front + 1"
    "run (memory_get (b_state b)) (memory_get (codecache b)) (block_transactions blk) = Some results" "bs58_alphanumeric w"
  shows "\<exists>b'. builder_consume w ser env run blk b = Some (Inr (), b')"
proof -
  obtain older where r: "recent b = front # older" using assms(1) by (auto simp: builder_last_def split: list.splits)
  obtain h f where hf: "block_hash env front = (h, f)" by (cases "block_hash env front")
  have f: "height f = height front" using block_hash_fields(1) [of env front] hf by simp
  obtain compiled where "try_precompile_predicates w ser (merge_results results) = Some compiled"
    using precompile_total [OF assms(5)] unfolding try_precompile_predicates_def by blast
  then show ?thesis using assms(2-4) r hf f by (simp add: builder_consume_def Let_def)
qed

definition reorders :: "(nat \<Rightarrow> collected \<Rightarrow> collected) \<Rightarrow> bool" where
  "reorders order \<longleftrightarrow> (\<forall>i out. mset (order i out) = mset out)"

lemma steady_alike:
  assumes "bs58_alphanumeric w" "list_all valid_proposals txs" "list_all (steady w env) txs"
    "reorders order" "cache_coherent w cache" "reorders order'" "cache_coherent w cache'"
  shows "alike txs (block_executor w env order sched split cache) (block_executor w env order' sched' split' cache')"
  using assms by (auto simp: alike_def block_executor_def list_all_iff reorders_def intro!: steady_verdict)

lemma in_step_tip:
  assumes "in_step w env b b'" "builder_last b = Some x"
  obtains y where "builder_last b' = Some y" "fst (block_hash env y) = fst (block_hash env x)" "height y = height x"
  using assms by (auto simp: in_step_def same_tip_def split: option.splits)

lemma consume_in_step:
  assumes "petgraph_laws pg" "bs58_alphanumeric w" "serializer_ok w ser"
    "builder_consume w ser env (vm_runner pg w env order sched split) blk b = Some (Inr u, b')" "in_step w env b rep"
    "list_all valid_proposals (block_transactions blk)" "list_all (steady w env) (block_transactions blk)"
    "reorders order" "reorders order'"
  shows "\<exists>rep'. builder_consume w ser env (vm_runner pg w env order' sched' split') blk rep = Some (Inr (), rep') \<and> in_step w env b' rep'"
proof -
  let ?txs = "block_transactions blk"
  have in0: "memory_get (b_state b) = memory_get (b_state rep)" "cache_coherent w (memory_get (codecache b))"
    "cache_coherent w (memory_get (codecache rep))" "0 < history_len b" "0 < history_len rep"
    using assms(5) by (simp_all add: in_step_def)
  from consume_okE [OF assms(4) in0(4)] obtain front results where
    f: "builder_last b = Some front" "parent blk = fst (block_hash env front)" "height blk = height front + 1"
    and run: "vm_runner pg w env order sched split (memory_get (b_state b)) (memory_get (codecache b)) ?txs = Some results"
    and b': "b_state b' = memory_apply (b_state b) (merge_results results)" "builder_last b' = Some blk" "history_len b' = history_len b" .
  have "alike ?txs (block_executor w env order sched split (memory_get (codecache b)))
      (block_executor w env order' sched' split' (memory_get (codecache rep)))"
    by (rule steady_alike [OF assms(2,6,7) assms(8) in0(2) assms(9) in0(3)])
  from execute_many_alike [OF this run [unfolded vm_runner_def]] obtain results' where
    run': "vm_runner pg w env order' sched' split' (memory_get (b_state rep)) (memory_get (codecache rep)) ?txs = Some results'"
    and same: "map verdict results' = map verdict results" unfolding vm_runner_def in0(1) by blast
  obtain y where y: "builder_last rep = Some y" "parent blk = fst (block_hash env y)" "height blk = height y + 1"
    using in_step_tip [OF assms(5) f(1)] f by metis
  obtain rep' where rep': "builder_consume w ser env (vm_runner pg w env order' sched' split') blk rep = Some (Inr (), rep')"
    using consume_okI [where run = "vm_runner pg w env order' sched' split'", OF y run' assms(2)] by blast
  from consume_okE [OF rep' in0(5)] run' have r: "b_state rep' = memory_apply (b_state rep) (merge_results results')"
    "builder_last rep' = Some blk" "history_len rep' = history_len rep" by auto
  have wf: "list_all diff_wf (ok_diffs results)"
    using vm_runner_ok [OF assms(1,2,6), of env order sched split "memory_get (b_state b)" "memory_get (codecache b)"] run by (metis option.inject)
  have "memory_get (b_state b') = memory_get (b_state rep')"
    using merge_results_effect(2) [OF wf, of "b_state b"] merge_results_effect(2) [of results' "b_state rep"] wf
      verdicts_merge [OF same] in0(1) b'(1) r(1) by simp
  moreover have "same_tip env b' rep'" using b'(2) r(2) by (simp add: same_tip_def)
  moreover have "cache_coherent w (memory_get (codecache b'))" "cache_coherent w (memory_get (codecache rep'))"
    using coherent_consume [OF assms(3) in0(2) assms(4)] coherent_consume [OF assms(3) in0(3) rep'] by auto
  ultimately show ?thesis using rep' in0(4,5) b'(3) r(3) by (auto simp: in_step_def)
qed

text \<open>A transaction as it comes out of the decoder: nothing is cached in it.\<close>

definition decoded :: "transaction \<Rightarrow> bool" where
  "decoded tx = (transaction_from_wire (transaction_to_wire tx) = tx)"

lemma block_over_wire:
  "list_all decoded txs \<Longrightarrow> block_from_wire (block_to_wire (block_new env par txs)) = block_new env par txs"
  by (induction txs) (auto simp: block_from_wire_def block_to_wire_def block_new_def decoded_def)

definition acceptable :: "('m, 'i, 'f, 's) wasm_env \<Rightarrow> hash_env \<Rightarrow> transaction \<Rightarrow> bool" where
  "acceptable w env tx = (valid_proposals tx \<and> steady w env tx \<and> decoded tx)"

lemma node_replica:
  assumes "petgraph_laws pg" "bs58_alphanumeric w" "serializer_ok w ser"
    "reorders order" "reorders order'"
  shows "node_run w ser env (vm_runner pg w env order sched split) es p = Some (blks, p') \<Longrightarrow>
    in_step w env (pool_blocks p) (state_builder x) \<Longrightarrow> list_all (acceptable w env) (pool_txs p @ event_txs es) \<Longrightarrow>
    \<exists>sent x'. watcher_run w ser env (vm_runner pg w env order' sched' split') (map (block_from_wire \<circ> block_to_wire) blks) x = Some (sent, x')
      \<and> in_step w env (pool_blocks p') (state_builder x')"
proof (induction es arbitrary: p blks x)
  case (Cons e es)
  let ?run = "vm_runner pg w env order sched split" and ?run' = "vm_runner pg w env order' sched' split'"
  from Cons.prems(1) obtain out p1 more where step: "node_step w ser env ?run e p = Some (out, p1)"
    and rest: "node_run w ser env ?run es p1 = Some (more, p')" "blks = out @ more" by (auto split: option.splits prod.splits)
  show ?case
  proof (cases e)
    case (TxBytes otx)
    then have "out = []" "pool_blocks p1 = pool_blocks p" "pool_txs p1 @ event_txs es = pool_txs p @ event_txs (e # es)"
      using step by (cases otx; auto simp: mempool_consume_def)+
    with Cons.IH [OF rest(1)] Cons.prems(2,3) rest(2) show ?thesis by auto
  next
    case Tick
    with step obtain par b where par: "builder_last (pool_blocks p) = Some par" and out: "out = [block_new env par (pool_txs p)]"
      and con: "builder_consume w ser env ?run (block_new env par (pool_txs p)) (pool_blocks p) = Some (Inr (), b)"
      and p1: "p1 = \<lparr>pool_txs = [], pool_blocks = b\<rparr>"
      by (auto simp: mempool_produce_def Let_def split: option.splits prod.splits sum.splits)
    let ?blk = "block_new env par (pool_txs p)"
    have acc: "list_all valid_proposals (block_transactions ?blk)" "list_all (steady w env) (block_transactions ?blk)" "list_all decoded (pool_txs p)"
      using Cons.prems(3) by (auto simp: acceptable_def list_all_iff block_new_def)
    from consume_in_step [OF assms(1-3) con Cons.prems(2) acc(1,2) assms(4,5)] obtain rep' where
      rep': "builder_consume w ser env ?run' ?blk (state_builder x) = Some (Inr (), rep')" "in_step w env b rep'" by blast
    obtain sent x1 where x1: "watcher_block w ser env ?run' ?blk x = Some (sent, x1)" "state_builder x1 = rep'"
      using watcher_block_total [OF rep'(1)] .
    have "in_step w env (pool_blocks p1) (state_builder x1)" "list_all (acceptable w env) (pool_txs p1 @ event_txs es)"
      using rep'(2) x1(2) p1 Cons.prems(3) Tick by simp_all
    from Cons.IH [OF rest(1) this] x1(1) out rest(2) block_over_wire [OF acc(3), of env par] show ?thesis by auto
  qed
qed auto

section \<open>Signals along a stream\<close>

definition stream_events :: "hash_env \<Rightarrow> block list \<Rightarrow> (watchlist_key \<times> watchlist_value) list" where
  "stream_events env blks = concat (map (block_events env) blks)"

lemma signal_cases:
  "wl k = None \<Longrightarrow> signal k v (wl, sent) = (wl, sent)"
  "wl k = Some n \<Longrightarrow> signal k v (wl, sent) = (wl(k := None), sent @ [(n, v)])"
  by (simp_all add: signal_def)

lemma fold_signal_append:
  "fold (\<lambda>(k, v). signal k v) kvs (wl, sent) =
     (fst (fold (\<lambda>(k, v). signal k v) kvs (wl, [])), sent @ snd (fold (\<lambda>(k, v). signal k v) kvs (wl, [])))"
proof (induction kvs arbitrary: wl sent)
  case (Cons kv kvs)
  obtain k v where kv: "kv = (k, v)" by (cases kv)
  show ?case
  proof (cases "wl k")
    case None
    then show ?thesis using Cons.IH [of wl sent] kv by (simp add: signal_cases)
  next
    case (Some n)
    let ?wl = "wl(k := None)"
    have "fold (\<lambda>(k, v). signal k v) (kv # kvs) (wl, s) = fold (\<lambda>(k, v). signal k v) kvs (?wl, s @ [(n, v)])" for s
      using Some kv by (simp add: signal_cases(2) del: fun_upd_apply)
    then show ?thesis using Cons.IH [of ?wl "sent @ [(n, v)]"] Cons.IH [of ?wl "[(n, v)]"] by (simp del: fun_upd_apply fold.simps)
  qed
qed simp

lemma watcher_run_signals:
  "watcher_run w ser env run blks x = Some (sent, x') \<Longrightarrow>
   fold (\<lambda>(k, v). signal k v) (stream_events env blks) (watchlist x, []) = (watchlist x', sent)"
proof (induction blks arbitrary: x sent)
  case (Cons blk blks)
  from Cons.prems obtain s1 x1 more where one: "watcher_block w ser env run blk x = Some (s1, x1)"
    and rest: "watcher_run w ser env run blks x1 = Some (more, x')" "sent = s1 @ more" by (auto split: option.splits prod.splits)
  have "fold (\<lambda>(k, v). signal k v) (block_events env blk) (watchlist x, []) = (watchlist x1, s1)"
    using one by (auto simp: watcher_block_def Let_def signal_block_events block_events_def split: prod.splits)
  with Cons.IH [OF rest(1)] rest(2) fold_signal_append [of "stream_events env blks" "watchlist x1" s1]
  show ?case by (simp add: stream_events_def)
qed (simp add: stream_events_def)

text \<open>A sender is used up by its first signal.\<close>

lemma signals_once:
  assumes "inj_on wl (dom wl)" "distinct (map fst sent)" "\<forall>k n. wl k = Some n \<longrightarrow> n \<notin> fst ` set sent"
  shows "distinct (map fst (snd (fold (\<lambda>(k, v). signal k v) kvs (wl, sent))))"
  using assms
proof (induction kvs arbitrary: wl sent)
  case (Cons kv kvs)
  obtain k v where kv: "kv = (k, v)" by (cases kv)
  show ?case
  proof (cases "wl k")
    case None
    then show ?thesis using Cons.IH [OF Cons.prems] kv by (simp add: signal_cases)
  next
    case (Some n)
    have "inj_on (wl(k := None)) (dom (wl(k := None)))" using Cons.prems(1) by (auto simp: inj_on_def)
    moreover have "wl j = Some n \<Longrightarrow> j = k" for j using Cons.prems(1) Some by (metis domI inj_onD)
    then have "\<forall>j m. (wl(k := None)) j = Some m \<longrightarrow> m \<notin> fst ` set (sent @ [(n, v)])" using Cons.prems(3) by auto
    moreover have "distinct (map fst (sent @ [(n, v)]))" using Cons.prems(2,3) Some by auto
    ultimately have "distinct (map fst (snd (fold (\<lambda>(k, v). signal k v) kvs (wl(k := None), sent @ [(n, v)]))))"
      by (intro Cons.IH)
    then show ?thesis using Some kv by (simp add: signal_cases(2) del: fun_upd_apply)
  qed
qed simp

section \<open>A replica that misses a block\<close>

lemma extends_chain_height:
  "extends_chain env par bs \<Longrightarrow> k < length bs \<Longrightarrow> height (bs ! k) = height par + 1 + of_nat k"
  by (induction bs arbitrary: par k) (auto simp: nth_Cons algebra_simps split: nat.splits)

lemma consume_rejects:
  assumes "builder_last b = Some tip" "height blk \<noteq> height tip + 1"
  shows "\<exists>e b'. builder_consume w ser env run blk b = Some (Inl e, b') \<and> b_state b' = b_state b \<and> codecache b' = codecache b
    \<and> map_option height (builder_last b') = Some (height tip)"
proof -
  obtain older where r: "recent b = tip # older" using assms(1) by (auto simp: builder_last_def split: list.splits)
  obtain h f where hf: "block_hash env tip = (h, f)" by (cases "block_hash env tip")
  have "height f = height tip" using block_hash_fields(1) [of env tip] hf by simp
  then show ?thesis using assms(2) r hf by (auto simp: builder_consume_def builder_last_def Let_def)
qed

lemma watcher_stalled:
  assumes "\<forall>blk \<in> set blks. height blk \<noteq> h + 1"
  shows "map_option height (most_recent_block x) = Some h \<Longrightarrow>
    \<exists>sent x'. watcher_run w ser env run blks x = Some (sent, x') \<and> b_state (state_builder x') = b_state (state_builder x)
      \<and> codecache (state_builder x') = codecache (state_builder x) \<and> map_option height (most_recent_block x') = Some h"
  using assms
proof (induction blks arbitrary: x)
  case (Cons blk blks)
  from Cons.prems(1) obtain tip where tip: "builder_last (state_builder x) = Some tip" "height tip = h"
    by (auto simp: most_recent_block_def)
  from consume_rejects [OF tip(1)] Cons.prems(2) tip(2) obtain e b where
    c: "builder_consume w ser env run blk (state_builder x) = Some (Inl e, b)" and b: "b_state b = b_state (state_builder x)"
    "codecache b = codecache (state_builder x)" "map_option height (builder_last b) = Some h" by fastforce
  obtain s1 x1 where x1: "watcher_block w ser env run blk x = Some (s1, x1)" "state_builder x1 = b" using watcher_block_total [OF c] .
  with Cons.IH [of x1] b Cons.prems(2) show ?case by (fastforce simp: most_recent_block_def)
qed auto

text \<open>A block that was skipped is never reached again: the heights of the later ones do not come back to it
  before the counter of 64 bits wraps.\<close>

lemma missed_heights:
  assumes "extends_chain env tip (missed # later)" "length later < 2 ^ 64 - 1" "blk \<in> set later"
  shows "height blk \<noteq> height tip + 1"
proof -
  from assms(3) obtain k where k: "k < length later" "blk = later ! k" by (auto simp: in_set_conv_nth)
  have "height blk = height tip + 1 + of_nat (Suc k)"
    using extends_chain_height [OF assms(1), of "Suc k"] k by simp
  moreover have "(of_nat (Suc k) :: u64) \<noteq> 0"
  proof
    assume "(of_nat (Suc k) :: u64) = 0"
    moreover have "unat (of_nat (Suc k) :: u64) = Suc k mod 2 ^ 64" by (simp add: unat_of_nat del: of_nat_Suc)
    moreover have "Suc k mod 2 ^ 64 = Suc k" using k(1) assms(2) by (intro mod_less) simp
    ultimately show False by (simp del: of_nat_Suc)
  qed
  ultimately show ?thesis by simp
qed

section \<open>Properties\<close>


definition lenient_wasm :: "(bytes, bytes, bytes, unit) wasm_env" where
  "lenient_wasm = sample_wasm\<lparr>module_from_binary := (\<lambda>_. Inr []), call_entrypoint := (\<lambda>_ _ _ s. Inr (1, s))\<rparr>"

lemma lenient_wasm_facts:
  "bs58_alphanumeric lenient_wasm" "serializer_ok lenient_wasm (\<lambda>_. None)" "cache_coherent lenient_wasm (\<lambda>_. None)"
  "invoke lenient_wasm c p (\<lambda>_. None) = Some (Inr True)" "steady lenient_wasm env tx"
proof -
  show ok: "bs58_alphanumeric lenient_wasm" using sample_wasm_ok by (simp add: bs58_alphanumeric_def lenient_wasm_def sample_wasm_def)
  have "load_module lenient_wasm p (\<lambda>_. None) k = Inr []" for p k
    by (simp add: load_module_def lenient_wasm_def sample_wasm_def map_err_def)
  then have "invoke lenient_wasm c p (\<lambda>_. None) = Some (run_module lenient_wasm c p [])" for c p
    by (simp add: invoke_def predcache_path_valid [OF ok])
  moreover have "run_module lenient_wasm c p [] = Inr True" for c p
    by (simp add: run_module_def deliver_data_def lenient_wasm_def sample_wasm_def map_err_def Let_def)
  ultimately show inv: "invoke lenient_wasm c p (\<lambda>_. None) = Some (Inr True)" for c p by simp
  then show "steady lenient_wasm env tx" by (simp add: steady_def steady_trees_def list_all_iff answered_def)
  show "cache_coherent lenient_wasm (\<lambda>_. None)" by (simp add: cache_coherent_def)
  show "serializer_ok lenient_wasm (\<lambda>_. None)" by (simp add: serializer_ok_def lenient_wasm_def)
qed


text \<open>C28. The watcher's signals along its whole stream of blocks: a waiter is signalled exactly if the key it
  waits for occurs in some block, with the value of the first occurrence, and at most once; the value has
  the variant the key calls for, so the panics on the awaiting side are unreachable; its entry is removed
  and every other entry stays.\<close>

theorem watcher_signals:
  assumes "watcher_run w ser env run blks x = Some (sent, x')" "inj_on (watchlist x) (dom (watchlist x))"
  shows "((n, v) \<in> set sent \<longleftrightarrow> (\<exists>k. watchlist x k = Some n \<and> map_of (stream_events env blks) k = Some v))
    \<and> distinct (map fst sent)
    \<and> watchlist x' k = (if k \<in> fst ` set (stream_events env blks) then None else watchlist x k)
    \<and> (map_of (stream_events env blks) k = Some v \<longrightarrow>
        (case k of KIntent _ \<Rightarrow> receive_intent v \<noteq> None | KTransaction _ \<Rightarrow> receive_transaction v \<noteq> None
         | KAccountChange _ \<Rightarrow> receive_account_change v \<noteq> None))"
proof -
  have "case k of KIntent _ \<Rightarrow> receive_intent v \<noteq> None | KTransaction _ \<Rightarrow> receive_transaction v \<noteq> None
         | KAccountChange _ \<Rightarrow> receive_account_change v \<noteq> None" if "map_of (stream_events env blks) k = Some v"
    using map_of_SomeD [OF that] by (auto simp: stream_events_def block_events_def tx_events_def)
  moreover note run = watcher_run_signals [OF assms(1)]
  moreover have "distinct (map fst sent)"
    using signals_once [OF assms(2), of "[]" "stream_events env blks"] run by simp
  ultimately show ?thesis using fold_signal [of "stream_events env blks" "watchlist x" "[]" k n v] by simp
qed

theorem watcher_signals_witness:
  "\<exists>sent x'. watcher_run sample_wasm (\<lambda>_. None) sample_env (\<lambda>_ _ _. Some [])
      [block_zero [], block_new sample_env (block_zero []) [write_tx ''/a'']]
      (await_account_change (Address ''/a'') 3 \<lparr>watchlist = Map.empty, state_builder = fresh_builder\<rparr>) = Some (sent, x')
    \<and> (3, VAccountChange (write_tx ''/a'')) \<in> set sent"
proof -
  let ?blks = "[block_zero [], block_new sample_env (block_zero []) [write_tx ''/a'']]"
  let ?x = "await_account_change (Address ''/a'') 3 \<lparr>watchlist = Map.empty, state_builder = fresh_builder\<rparr>"
  have "watcher_run sample_wasm (\<lambda>_. None) sample_env (\<lambda>_ _ _. Some []) ?blks ?x \<noteq> None"
    by (simp add: watcher_block_def await_account_change_def await_key_def builder_consume_def fresh_builder_def block_zero_def
        block_new_def block_hash_def merge_results_def try_precompile_predicates_def diff_iter_def diff_default_def Let_def
        split: prod.splits)
  then obtain sent x' where r: "watcher_run sample_wasm (\<lambda>_. None) sample_env (\<lambda>_ _ _. Some []) ?blks ?x = Some (sent, x')" by auto
  have "watchlist ?x (KAccountChange (Address ''/a'')) = Some 3" by (simp add: await_account_change_def await_key_def)
  moreover have "map_of (stream_events sample_env ?blks) (KAccountChange (Address ''/a'')) = Some (VAccountChange (write_tx ''/a''))"
    by (simp add: stream_events_def block_events_def tx_events_def block_new_def block_zero_def write_tx_def transaction_new_def)
  moreover have "inj_on (watchlist ?x) (dom (watchlist ?x))" by (auto simp: await_account_change_def await_key_def inj_on_def split: if_splits)
  ultimately show ?thesis using watcher_signals [OF r, of 3 "VAccountChange (write_tx ''/a'')"] r by blast
qed

end
