(* ===== verification/Loadtests.thy ===== *)
theory Loadtests
  imports Fixtures Replica
begin

text \<open>
  The load tests of \<open>vm/tests/many_transfers.rs\<close>: a mint followed by a thousand transfers that depend on
  it, and a thousand independent transfers, each run as one block.  Both fail: a block whose transactions
  are all rejected on the state before it leaves that state alone while it runs, whatever the schedule.
\<close>

section \<open>Blocks that are rejected throughout\<close>

definition rejects :: "transaction list \<Rightarrow> executor \<Rightarrow> state_view \<Rightarrow> bool" where
  "rejects txs exec state \<longleftrightarrow> (\<forall>ix. \<forall>tx \<in> set txs. \<exists>e. exec ix tx state = Some (Inl e))"

definition no_success :: "(outcome \<times> nat) list \<Rightarrow> bool" where
  "no_success = list_all (\<lambda>r. \<not> is_ok (fst r))"

lemma run_row_rejected:
  assumes "rejects txs exec state" "fst ` set ts \<subseteq> set txs" "run_row exec state ts = Some out"
  shows "no_success out"
  using assms(2,3)
proof (induction ts arbitrary: out)
  case (Cons t ts)
  obtain tx ix where t: "t = (tx, ix)" by (cases t)
  with Cons.prems(1) assms(1) obtain e where "exec ix tx state = Some (Inl e)" unfolding rejects_def by fastforce
  with Cons t show ?case by (auto simp: run_row_def no_success_def is_ok_iff split: option.splits)
qed (simp add: run_row_def no_success_def)

lemma accumulate_rejected: "no_success out \<Longrightarrow> foldl accumulate acc out = acc"
  by (induction out) (auto simp: no_success_def accumulate_def is_ok_iff split: sum.splits)

definition stays_rejected :: "transaction list \<Rightarrow> executor \<Rightarrow> state_view \<Rightarrow> (nat \<Rightarrow> nat list) \<Rightarrow> bfs_rows \<Rightarrow> node list
    \<Rightarrow> state_diff \<Rightarrow> (outcome \<times> nat) list \<Rightarrow> (outcome \<times> nat) list \<times> node list \<Rightarrow> bool" where
  "stays_rejected txs exec state nbr it nodes acc out r \<longleftrightarrow>
     (rejects txs exec state \<longrightarrow> cells_from txs nodes \<longrightarrow> overlayed_get state (diff_get acc) = state \<longrightarrow> no_success out
        \<longrightarrow> no_success (fst r) \<and> cells_from txs (snd r))"

lemma tree_rows_rejected:
  assumes "tree_rows exec state nbr it nodes acc out = Some r"
  shows "stays_rejected txs exec state nbr it nodes acc out r"
proof (rule tree_rows.raw_induct [OF _ assms, where P = "stays_rejected txs"])
  fix loop exec state nbr it nodes acc out r
  assume IH: "\<And>exec state nbr it nodes acc out r. loop exec state nbr it nodes acc out = Some r
      \<Longrightarrow> stays_rejected txs exec state nbr it nodes acc out r"
    and step: "(case bfs_next nbr it of
        None \<Rightarrow> None
      | Some (None, _) \<Rightarrow> Some (out, nodes)
      | Some (Some row, it) \<Rightarrow>
     (case take_row row nodes of
        None \<Rightarrow> None
      | Some (row_txs, nodes) \<Rightarrow>
     (case run_row exec (overlayed_get state (diff_get acc)) row_txs of
        None \<Rightarrow> None
      | Some results \<Rightarrow> loop exec state nbr it nodes (foldl accumulate acc results) (out @ results)))) = Some r"
  show "stays_rejected txs exec state nbr it nodes acc out r"
    unfolding stays_rejected_def
  proof (intro impI)
    assume rej: "rejects txs exec state" and cells: "cells_from txs nodes"
      and over: "overlayed_get state (diff_get acc) = state" and none: "no_success out"
    from step consider it' where "r = (out, nodes)"
      | row it' ts nodes' results where "take_row row nodes = Some (ts, nodes')" "run_row exec state ts = Some results"
        "loop exec state nbr it' nodes' (foldl accumulate acc results) (out @ results) = Some r"
      by (auto simp: over split: option.splits prod.splits)
    then show "no_success (fst r) \<and> cells_from txs (snd r)"
    proof cases
      case 2
      note row = take_row_cells [OF 2(1) cells]
      have res: "no_success results" using run_row_rejected [OF rej _ 2(2)] row by blast
      from IH [OF 2(3)] rej row over none res show ?thesis
        by (simp add: stays_rejected_def accumulate_rejected no_success_def)
    qed (use none cells in simp)
  qed
qed

lemma run_trees_rejected:
  assumes "rejects txs exec state"
  shows "run_trees pg exec state es rts nodes = Some out \<Longrightarrow> cells_from txs nodes \<Longrightarrow> no_success out"
proof (induction rts arbitrary: nodes out)
  case (Cons rt rts)
  from Cons.prems(1) obtain it r more where r: "tree_rows exec state (pg_neighbors pg es) it nodes diff_default [] = Some r"
    and more: "run_trees pg exec state es rts (snd r) = Some more" and out: "out = fst r @ more"
    by (auto simp: tree_run_def split: option.splits prod.splits)
  from tree_rows_rejected [OF r, of txs] assms Cons.prems(2) have "no_success (fst r)" "cells_from txs (snd r)"
    by (simp_all add: stays_rejected_def no_success_def)
  with Cons.IH [OF more] out show ?case by (simp add: no_success_def)
qed (simp add: no_success_def)

lemma execute_many_rejected:
  assumes "rejects txs exec state" "execute_many pg exec state txs = Some results" "r \<in> set results"
  shows "\<not> is_ok r"
proof -
  from assms(2) obtain s out where s: "schedule_new pg state txs = Some s"
    and out: "run_trees pg exec state (graph_edges s) (roots s) (graph_nodes s) = Some out" "results = map fst (sort_key snd out)"
    by (auto simp: execute_many_def schedule_run_def split: option.splits)
  have "cells_from txs (graph_nodes s)" using s by (rule schedule_cells)
  from run_trees_rejected [OF assms(1) out(1) this] assms(3) out(2) show ?thesis by (auto simp: no_success_def list_all_iff)
qed

section \<open>The tests\<close>

definition test_execute_many ::
  "petgraph \<Rightarrow> ('m, 'i, 'f, 's, 'sig) test_env \<Rightarrow> memory_store \<Rightarrow> memory_store \<Rightarrow> transaction list \<Rightarrow> outcome list option"
where
  "test_execute_many pg te store cache txs =
     vm_runner pg (te_wasm te) (te_hash te) (te_order te) (te_sched te) (te_split te) (memory_get store) (memory_get cache) txs"

text \<open>\<open>(0..n).map(|i| (Address::new(format!("/token/usdx/wallet-{i}.eth")).unwrap(), Keypair::generate(..)))\<close>\<close>

definition test_population :: "nat \<Rightarrow> (nat \<Rightarrow> keypair) \<Rightarrow> (address \<times> keypair) list option" where
  "test_population n keys =
     opt_list (\<lambda>i. map_option (\<lambda>a. (a, keys i)) (expect (address_new (''/token/usdx/wallet-'' @ decimal i @ ''.eth'')))) [0..<n]"

text \<open>
  The loop over the results, which applies each diff, and the balances everybody must have at the end.  The
  literals are \<open>i32\<close> there, but MessagePack writes a number that is not negative alike at every width.
\<close>

fun apply_results :: "outcome list \<Rightarrow> memory_store \<Rightarrow> memory_store option" where
  "apply_results [] store = Some store"
| "apply_results (Inl e # rs) store = None"
| "apply_results (Inr d # rs) store = apply_results rs (memory_apply store d)"

definition all_balances :: "client_env \<Rightarrow> memory_store \<Rightarrow> u64 \<Rightarrow> (address \<times> keypair) list \<Rightarrow> bool" where
  "all_balances env store n population =
     list_all (\<lambda>(a, _). unwrapped (memory_get store a) (\<lambda>acc. to_vec (enc_u64 env n) = Inr (acc_state acc))) population"

definition mint_then_transfers ::
  "petgraph \<Rightarrow> ('m, 'i, 'f, 's, 'sig) test_env \<Rightarrow> keypair \<Rightarrow> keypair \<Rightarrow> (nat \<Rightarrow> keypair) \<Rightarrow> multihash \<Rightarrow> bool"
where
  "mint_then_transfers pg te mint_keypair doner_keypair keys blockhash =
     test_setup te (public mint_keypair) (\<lambda>store cache.
     unwrapped (expect (address_new ''/token/usdx/rich_guy1.eth'')) (\<lambda>doner.
     unwrapped (test_population 1000 keys) (\<lambda>population.
       let half = length population div 2 in
     passed (mint (te_client te) (te_dec te) (te_hash te) 1000000 doner (public doner_keypair) mint_keypair blockhash (memory_get store)) (\<lambda>mint_tx.
     unwrapped (opt_list (\<lambda>i. expect (transfer_unchecked (te_client te) (te_hash te) doner doner_keypair (1000000 - 10 * of_nat (i + 1))
         (fst (population ! i)) (public (snd (population ! i))) 10 True blockhash)) [0..<half]) (\<lambda>from_doner.
     unwrapped (opt_list (\<lambda>i. expect (transfer_unchecked (te_client te) (te_hash te) (fst (population ! i)) (snd (population ! i)) 5
         (fst (population ! (half + i))) (public (snd (population ! (half + i)))) 5 True blockhash)) [0..<half]) (\<lambda>onwards.
     unwrapped (test_execute_many pg te store cache (mint_tx # from_doner @ onwards)) (\<lambda>results.
       length results = 1001
     \<and> unwrapped (apply_results results store) (\<lambda>store. all_balances (te_client te) store 5 population))))))))"

text \<open>The wallets of the second test are in the state from the start.\<close>

definition prepared_wallet :: "client_env \<Rightarrow> address \<times> keypair \<Rightarrow> state_diff \<Rightarrow> client_error + state_diff" where
  "prepared_wallet env w diff =
     bind_res (to_vec (enc_u64 env 500)) (\<lambda>balance.
     bind_res
       (either
         (leaf ''/stdpred/v1'' ''uint_greater_than_equal'' [proposal_ref (Inr (fst w)), account_ref (Inr (fst w))])
         (leaf ''/stdpred/v1'' ''require_ed25519_signature'' [inline (Inr (public (snd w)))]))
       (\<lambda>preds. Inr (snd (diff_set diff (fst w) \<lparr>acc_state = balance, acc_predicates = preds\<rparr>))))"

definition many_independent_transfers ::
  "petgraph \<Rightarrow> ('m, 'i, 'f, 's, 'sig) test_env \<Rightarrow> keypair \<Rightarrow> (nat \<Rightarrow> keypair) \<Rightarrow> multihash \<Rightarrow> bool"
where
  "many_independent_transfers pg te mint_keypair keys blockhash =
     test_setup te (public mint_keypair) (\<lambda>store cache.
     unwrapped (test_population 2000 keys) (\<lambda>population.
     unwrapped (expect (fold_res (prepared_wallet (te_client te)) (take 1000 population) diff_default)) (\<lambda>diff.
       let store = memory_apply store diff in
     unwrapped (opt_list (\<lambda>i. Option.bind
           (transfer (te_client te) (te_dec te) (te_hash te) 250 (fst (population ! i)) (snd (population ! i))
              (fst (population ! (i + 1000))) (public (snd (population ! (i + 1000)))) blockhash (memory_get store)) expect)
         [0..<1000]) (\<lambda>txs.
     unwrapped (test_execute_many pg te store cache txs) (\<lambda>results.
       length results = 1000
     \<and> unwrapped (apply_results results store) (\<lambda>store. all_balances (te_client te) store 250 population))))))"

section \<open>Both fail\<close>

lemma usdx_wallet_path:
  assumes "expect (address_new (''/token/usdx/'' @ s)) = Some a"
  shows "usdx_wallet a"
proof -
  from assms have a: "address_new (''/token/usdx/'' @ s) = Inr a" by simp
  then have "a = Address (''/token/usdx/'' @ s)" by (rule address_new_path)
  with a show ?thesis by (simp add: usdx_wallet_def valid_address_def is_ok_iff is_parent_of_def starts_with_def)
qed

lemma population_wallets:
  assumes "test_population n keys = Some population"
  shows "length population = n" "w \<in> set population \<Longrightarrow> usdx_wallet (fst w)"
proof -
  have *: "list_all2 (\<lambda>i w. map_option (\<lambda>a. (a, keys i)) (expect (address_new (''/token/usdx/wallet-'' @ decimal i @ ''.eth''))) = Some w)
      [0..<n] population"
    using assms unfolding test_population_def opt_list_Some_iff .
  then show "length population = n" by (auto dest: list_all2_lengthD)
  assume "w \<in> set population"
  then obtain k where k: "k < length population" "w = population ! k" by (auto simp: in_set_conv_nth)
  with list_all2_nthD2 [OF * k(1)] have
    "expect (address_new (''/token/usdx/'' @ ''wallet-'' @ decimal ([0..<n] ! k) @ ''.eth'')) = Some (fst w)" by auto (metis fst_conv)
  then show "usdx_wallet (fst w)" by (rule usdx_wallet_path)
qed

lemma opt_list_mem: "opt_list f xs = Some ys \<Longrightarrow> y \<in> set ys \<Longrightarrow> \<exists>x \<in> set xs. f x = Some y"
  by (auto simp: opt_list_Some_iff in_set_conv_nth list_all2_conv_all_nth) (metis nth_mem)

lemma prepared_one: "prepared_wallet env w d = Inr d1 \<Longrightarrow> \<exists>acc. d1 = snd (diff_set d (fst w) acc)"
  by (auto simp: prepared_wallet_def)

lemma prepared_keeps:
  "fold_res (prepared_wallet env) ws d = Inr d' \<Longrightarrow> diff_wf d \<Longrightarrow> a \<notin> fst ` set ws
   \<Longrightarrow> diff_wf d' \<and> diff_effect d' s a = diff_effect d s a"
proof (induction ws arbitrary: d)
  case (Cons w ws)
  from Cons.prems(1) obtain d1 where "prepared_wallet env w d = Inr d1" "fold_res (prepared_wallet env) ws d1 = Inr d'" by auto
  then obtain acc where d: "fold_res (prepared_wallet env) ws (snd (diff_set d (fst w) acc)) = Inr d'" using prepared_one by blast
  have "diff_effect (snd (diff_set d (fst w) acc)) s a = diff_effect d s a" using Cons.prems(3) by (simp add: diff_effect_def)
  with Cons.IH [OF d diff_wf_set [OF Cons.prems(2)]] Cons.prems(3) show ?case by simp
qed simp

lemma not_wallets: "\<not> usdx_wallet usdx_address" "\<not> usdx_wallet stdpred_v1"
  by code_simp+

lemma rejected_results:
  assumes "\<And>r. r \<in> set results \<Longrightarrow> \<not> is_ok r" "results \<noteq> []"
  shows "apply_results results store = None"
  using assms by (cases "(results, store)" rule: apply_results.cases) (auto simp: is_ok_iff)

lemma block_rejected:
  assumes "allocator_laws al" "codec_ok cd" "te_wasm te = guest_env al cd hash b58 deser binary" "serializer_ok (te_wasm te) (te_ser te)"
    "module_from_binary (te_wasm te) (te_std te) = Inr (stdpred_library (te_dec te))" "bs58_alphanumeric (te_wasm te)"
    "\<And>k out. mset (te_order te k out) = mset out" "enc_bool (te_client te) False = Inr f" "dec_bool (te_dec te) f = Some False"
    and init: "create_initial_blockchain_state (te_client te) (te_std te) (te_token te) (public mk) = Some d0" "store0 = memory_apply memory_default d0"
    and pre: "precache_predicates_bytecode (te_wasm te) (te_ser te) s1 a1 = Some c1" "precache_predicates_bytecode (te_wasm te) (te_ser te) s2 a2 = Some c2"
      "cache = memory_apply (memory_apply memory_default c1) c2"
    and keep: "\<And>a. a = usdx_address \<or> a = stdpred_v1 \<Longrightarrow> memory_get store a = memory_get store0 a"
    and op: "\<And>tx. tx \<in> set txs \<Longrightarrow> usdx_operation (te_client te) (te_dec te) (te_hash te) (memory_get store) tx"
    and many: "test_execute_many pg te store cache txs = Some results" "results \<noteq> []"
  shows "apply_results results any = None"
proof -
  have "cache_coherent (te_wasm te) (memory_get memory_default)" by (simp add: cache_coherent_def memory_get_def memory_default_def)
  then have cache: "cache_coherent (te_wasm te) (memory_get cache)"
    unfolding pre(3) using coherent_apply [OF assms(4)] precached_compiled pre(1,2) by blast
  have "\<exists>e. execute (te_wasm te) (te_hash te) (te_order te ix) (te_sched te ix) (te_split te ix) tx (memory_get store) (memory_get cache) = Some (Inl e)"
    if mem: "tx \<in> set txs" for ix tx
    using usdx_rejected [OF init(1) _ assms(8,9) op [OF mem] assms(1,2) cache assms(3,5,6), where order = "te_order te ix"
      and sched = "te_sched te ix" and split = "te_split te ix", OF _ assms(7)] keep init(2) by blast
  then have "rejects txs (block_executor (te_wasm te) (te_hash te) (te_order te) (te_sched te) (te_split te) (memory_get cache)) (memory_get store)"
    by (simp add: rejects_def block_executor_def)
  from execute_many_rejected [OF this] many show ?thesis
    unfolding test_execute_many_def vm_runner_def by (intro rejected_results) auto
qed

lemma rich_guy_wallet: "expect (address_new ''/token/usdx/rich_guy1.eth'') = Some a \<Longrightarrow> usdx_wallet a"
  using usdx_wallet_path [of "''rich_guy1.eth''" a] by simp

lemma mint_then_transfers_fails:
  assumes "allocator_laws al" "codec_ok cd" "te_wasm te = guest_env al cd hash b58 deser binary" "serializer_ok (te_wasm te) (te_ser te)"
    "module_from_binary (te_wasm te) (te_std te) = Inr (stdpred_library (te_dec te))" "bs58_alphanumeric (te_wasm te)"
    "\<And>k out. mset (te_order te k out) = mset out" "enc_bool (te_client te) False = Inr f" "dec_bool (te_dec te) f = Some False"
  shows "\<not> mint_then_transfers pg te mk dk keys bh"
  unfolding mint_then_transfers_def Let_def
proof (intro setup_fails fails_if notI; elim conjE)
  fix d0 c1 c2 store cache s1 s2 a1 a2 doner population mint_tx from_doner onwards results
  assume begun: "create_initial_blockchain_state (te_client te) (te_std te) (te_token te) (public mk) = Some d0" "store = memory_apply memory_default d0"
    "precache_predicates_bytecode (te_wasm te) (te_ser te) s1 a1 = Some c1" "precache_predicates_bytecode (te_wasm te) (te_ser te) s2 a2 = Some c2"
    "cache = memory_apply (memory_apply memory_default c1) c2"
    and d: "expect (address_new ''/token/usdx/rich_guy1.eth'') = Some doner" and pop: "test_population 1000 keys = Some population"
    and minted: "mint (te_client te) (te_dec te) (te_hash te) 1000000 doner (public dk) mk bh (memory_get store) = Some (Inr mint_tx)"
    and t1: "opt_list (\<lambda>i. expect (transfer_unchecked (te_client te) (te_hash te) doner dk (1000000 - 10 * of_nat (i + 1))
       (fst (population ! i)) (public (snd (population ! i))) 10 True bh)) [0..<length population div 2] = Some from_doner"
    and t2: "opt_list (\<lambda>i. expect (transfer_unchecked (te_client te) (te_hash te) (fst (population ! i)) (snd (population ! i)) 5
       (fst (population ! (length population div 2 + i))) (public (snd (population ! (length population div 2 + i)))) 5 True bh))
       [0..<length population div 2] = Some onwards"
    and run: "test_execute_many pg te store cache (mint_tx # from_doner @ onwards) = Some results"
    and len: "length results = 1001" and fin: "unwrapped (apply_results results store) (\<lambda>store. all_balances (te_client te) store 5 population)"
  note pops = population_wallets [OF pop]
  have wi: "usdx_wallet (fst (population ! i))" if "i < 1000" for i using pops(1) pops(2) [of "population ! i"] that by simp
  have "usdx_operation (te_client te) (te_dec te) (te_hash te) (memory_get store) tx" if mem: "tx \<in> set (mint_tx # from_doner @ onwards)" for tx
  proof -
    consider "tx = mint_tx" | "tx \<in> set from_doner" | "tx \<in> set onwards" using mem by auto
    then show ?thesis
    proof cases
      case 1
      with minted rich_guy_wallet [OF d] show ?thesis unfolding usdx_operation_def by blast
    next
      case 2
      from opt_list_mem [OF t1 this] obtain i where "i < 500" "transfer_unchecked (te_client te) (te_hash te) doner dk (1000000 - 10 * of_nat (i + 1))
       (fst (population ! i)) (public (snd (population ! i))) 10 True bh = Inr tx" using pops(1) by auto
      with rich_guy_wallet [OF d] wi [of i] show ?thesis unfolding usdx_operation_def by auto
    next
      case 3
      from opt_list_mem [OF t2 this] obtain i where "i < 500" "transfer_unchecked (te_client te) (te_hash te) (fst (population ! i)) (snd (population ! i)) 5
       (fst (population ! (500 + i))) (public (snd (population ! (500 + i)))) 5 True bh = Inr tx" using pops(1) by auto
      with wi [of i] wi [of "500 + i"] show ?thesis unfolding usdx_operation_def by auto
    qed
  qed
  moreover have "results \<noteq> []" using len by auto
  ultimately have "apply_results results store = None" using block_rejected [OF assms begun refl _ run] by blast
  with fin show False by (simp add: unwrapped_def)
qed

lemma many_independent_fails:
  assumes "allocator_laws al" "codec_ok cd" "te_wasm te = guest_env al cd hash b58 deser binary" "serializer_ok (te_wasm te) (te_ser te)"
    "module_from_binary (te_wasm te) (te_std te) = Inr (stdpred_library (te_dec te))" "bs58_alphanumeric (te_wasm te)"
    "\<And>k out. mset (te_order te k out) = mset out" "enc_bool (te_client te) False = Inr f" "dec_bool (te_dec te) f = Some False"
  shows "\<not> many_independent_transfers pg te mk keys bh"
  unfolding many_independent_transfers_def Let_def
proof (intro setup_fails fails_if notI; elim conjE)
  fix d0 c1 c2 store cache s1 s2 a1 a2 population diff txs results
  assume begun: "create_initial_blockchain_state (te_client te) (te_std te) (te_token te) (public mk) = Some d0" "store = memory_apply memory_default d0"
    "precache_predicates_bytecode (te_wasm te) (te_ser te) s1 a1 = Some c1" "precache_predicates_bytecode (te_wasm te) (te_ser te) s2 a2 = Some c2"
    "cache = memory_apply (memory_apply memory_default c1) c2"
    and pop: "test_population 2000 keys = Some population"
    and diff: "expect (fold_res (prepared_wallet (te_client te)) (take 1000 population) diff_default) = Some diff"
    and t: "opt_list (\<lambda>i. Option.bind
         (transfer (te_client te) (te_dec te) (te_hash te) 250 (fst (population ! i)) (snd (population ! i))
            (fst (population ! (i + 1000))) (public (snd (population ! (i + 1000)))) bh (memory_get (memory_apply store diff))) expect)
       [0..<1000] = Some txs"
    and run: "test_execute_many pg te (memory_apply store diff) cache txs = Some results"
    and len: "length results = 1000"
    and fin: "unwrapped (apply_results results (memory_apply store diff)) (\<lambda>store. all_balances (te_client te) store 250 population)"
  note pops = population_wallets [OF pop]
  have wi: "usdx_wallet (fst (population ! i))" if "i < 2000" for i using pops(1) pops(2) [of "population ! i"] that by simp
  have "memory_get (memory_apply store diff) a = memory_get store a" if "a = usdx_address \<or> a = stdpred_v1" for a
  proof -
    have "a \<notin> fst ` set (take 1000 population)" using that not_wallets pops(2) by (auto dest!: in_set_takeD)
    with prepared_keeps [of "te_client te" "take 1000 population" diff_default diff a "memory_get store"] diff
    show ?thesis by (simp add: mem_store.get_apply)
  qed
  moreover have "usdx_operation (te_client te) (te_dec te) (te_hash te) (memory_get (memory_apply store diff)) tx" if "tx \<in> set txs" for tx
  proof -
    from opt_list_mem [OF t that] obtain i where "i < 1000" "transfer (te_client te) (te_dec te) (te_hash te) 250 (fst (population ! i)) (snd (population ! i))
            (fst (population ! (i + 1000))) (public (snd (population ! (i + 1000)))) bh (memory_get (memory_apply store diff)) = Some (Inr tx)"
      by (auto simp: bind_eq_Some_conv)
    with wi [of i] wi [of "i + 1000"] show ?thesis unfolding usdx_operation_def by auto
  qed
  moreover have "results \<noteq> []" using len by auto
  ultimately have "apply_results results (memory_apply store diff) = None" using block_rejected [OF assms begun _ _ run] by blast
  with fin show False by (simp add: unwrapped_def)
qed

end
