(* ===== verification/Programs.thy ===== *)
theory Programs
  imports Replica Pgqf Overlay
begin

text \<open>
  The programs put together: \<open>main\<close> of the development node (\<open>sdk/devnode/src/main.rs\<close>), of the solver
  (\<open>sdk/examples/pgqf/src/solver.rs\<close>), and the parts of the client (\<open>client.rs\<close>) that talk to its watcher
  and send donations.  Topics are driven by the network in the background, so the topic a program finds
  when it gossips is part of the event.  The decoders of MessagePack are parameters.
\<close>

section \<open>The development node\<close>

text \<open>\<open>main\<close> up to its loop: an empty state and code cache, the zero block, a history of 64 blocks.\<close>

definition devnode_pool :: "multihash \<Rightarrow> builder_error + mempool" where
  "devnode_pool default_multihash =
     bind_res (builder_new 64 memory_default memory_default [block_zero default_multihash]) (\<lambda>b. Inr (mempool_new b))"

text \<open>The two branches of \<open>select!\<close>: bytes from the transactions topic, or a tick with the blocks topic as it
  is at that time.  A produced block is gossiped once; a failure is only logged.\<close>

datatype devnode_event =
    Received bytes
  | BlockTick world topic_inner

type_synonym publication = "block \<times> (topic_error + unit) \<times> topic_inner"

definition devnode_step ::
  "('m, 'i, 'f, 's) wasm_env \<Rightarrow> ('m \<Rightarrow> bytes option) \<Rightarrow> hash_env \<Rightarrow> block_runner \<Rightarrow> (bytes \<Rightarrow> transaction_wire option)
   \<Rightarrow> devnode_event \<Rightarrow> mempool \<Rightarrow> (publication list \<times> mempool) option"
where
  "devnode_step w ser env run dec e p =
     (case e of
        Received b \<Rightarrow>
          (case dec b of
             Some tx \<Rightarrow> Some ([], mempool_consume (transaction_from_wire tx) p)
           | None \<Rightarrow> Some ([], p))
      | BlockTick world t \<Rightarrow>
          map_option (\<lambda>(blk, p). ([(blk, gossip world (to_vec_block env (block_to_wire blk)) t)], p))
            (mempool_produce w ser env run p))"

fun devnode_run ::
  "('m, 'i, 'f, 's) wasm_env \<Rightarrow> ('m \<Rightarrow> bytes option) \<Rightarrow> hash_env \<Rightarrow> block_runner \<Rightarrow> (bytes \<Rightarrow> transaction_wire option)
   \<Rightarrow> devnode_event list \<Rightarrow> mempool \<Rightarrow> (publication list \<times> mempool) option"
where
  "devnode_run w ser env run dec [] p = Some ([], p)"
| "devnode_run w ser env run dec (e # es) p =
     (case devnode_step w ser env run dec e p of
        None \<Rightarrow> None
      | Some (out, p) \<Rightarrow> map_option (\<lambda>(more, p). (out @ more, p)) (devnode_run w ser env run dec es p))"

section \<open>Waiting for the first block\<close>

text \<open>\<open>filter_map(|bytes| ready(from_slice(&bytes).ok()))\<close>\<close>

definition decode_stream :: "(bytes \<Rightarrow> 'a option) \<Rightarrow> bytes list \<Rightarrow> 'a list" where
  "decode_stream dec bs = List.map_filter dec bs"

text \<open>Client and solver base their watcher on the first block they can decode; \<open>None\<close> is the panic on a
  closed stream.  The rest of the stream goes to the task of the watcher.\<close>

definition first_watcher :: "(bytes \<Rightarrow> block_wire option) \<Rightarrow> bytes list \<Rightarrow> ((builder_error + watcher) \<times> block list) option" where
  "first_watcher dec bs =
     (case map block_from_wire (decode_stream dec bs) of
        [] \<Rightarrow> None
      | blk # blks \<Rightarrow> Some (watcher_new 64 memory_default memory_default [blk], blks))"

section \<open>The solver\<close>

text \<open>The solver keeps its watcher running and sorts every intent it can decode.\<close>

definition solver_main ::
  "client_env \<Rightarrow> (bytes \<Rightarrow> block_wire option) \<Rightarrow> (bytes \<Rightarrow> intent_wire option) \<Rightarrow> bytes list \<Rightarrow> bytes list
   \<Rightarrow> (builder_error + solver_branch option list) option"
where
  "solver_main env dec_block dec_intent blocks intents =
     map_option (\<lambda>(r, _). bind_res r (\<lambda>_.
         Inr (map (\<lambda>i. try_match_and_fill_intent env (intent_from_wire i)) (decode_stream dec_intent intents))))
       (first_watcher dec_block blocks)"

section \<open>Donations of the client\<close>

text \<open>
  The rounds of random donations in \<open>main\<close> of the client, behind the call of \<open>await_block_height\<close>.  A draw is
  the chosen project, the amount, the hash of the most recent block and the intents topic at that time.
  A donation that could not be gossiped is dropped.  Sums of amounts wrap as in a release build.
\<close>

record donation_draw =
  draw_project :: string
  draw_amount :: u64
  draw_blockhash :: multihash
  draw_world :: world
  draw_topic :: topic_inner

type_synonym donations = "multihash list \<times> (string \<rightharpoonup> u64)"

definition donate_one :: "client_env \<Rightarrow> hash_env \<Rightarrow> nat \<times> donation_draw \<Rightarrow> donations \<Rightarrow> client_error + donations" where
  "donate_one env henv e acc =
     (case e of (i, dr) \<Rightarrow>
        bind_res (parse (''/token/usdc/little-wallet-'' @ decimal i @ ''.eth'')) (\<lambda>from_addr.
        bind_res (create_project_donation_intent env (draw_project dr) (draw_amount dr) from_addr (draw_blockhash dr)) (\<lambda>intent.
        case fst (gossip (draw_world dr) (to_vec_intent henv (intent_to_wire intent)) (draw_topic dr)) of
          Inl _ \<Rightarrow> Inr acc
        | Inr _ \<Rightarrow>
            Inr (fst acc @ [fst (intent_hash henv intent)],
                 (snd acc)(draw_project dr \<mapsto>
                   (case snd acc (draw_project dr) of Some e \<Rightarrow> e + draw_amount dr | None \<Rightarrow> draw_amount dr))))))"

definition donate_all :: "client_env \<Rightarrow> hash_env \<Rightarrow> donation_draw list \<Rightarrow> client_error + donations" where
  "donate_all env henv draws = fold_res (donate_one env henv) (zip [0..<length draws] draws) ([], Map.empty)"

text \<open>\<open>todo!()\<close>\<close>

definition await_block_height :: "u64 \<Rightarrow> watcher \<Rightarrow> (client_error + block) option" where
  "await_block_height h x = None"

definition watcher_stop :: "watcher \<Rightarrow> unit option" where
  "watcher_stop x = None"

text \<open>
  The rest of \<open>main\<close> after the donations to the matching pool: wait for the start of the campaign, donate, wait
  for the intents (the registered senders are \<open>snds\<close>) and for the end, redistribute, stop.
\<close>

definition client_campaign ::
  "client_env \<Rightarrow> hash_env \<Rightarrow> u64 \<Rightarrow> u64 \<Rightarrow> u64 \<Rightarrow> donation_draw list \<Rightarrow> (nat \<Rightarrow> nat) \<Rightarrow> multihash \<Rightarrow> watcher
   \<Rightarrow> (client_error + unit) option"
where
  "client_campaign env henv start_height end_height pool draws snds blockhash x =
     Option.bind (await_block_height start_height x) (\<lambda>started.
     case bind_res started (\<lambda>_. donate_all env henv draws) of
       Inl e \<Rightarrow> Some (Inl e)
     | Inr (hashes, amounts) \<Rightarrow>
         (let x = fold (\<lambda>j. await_intent (hashes ! j) (snds j)) [0..<length hashes] x in
          Option.bind (await_block_height end_height x) (\<lambda>ended.
          case ended of
            Inl e \<Rightarrow> Some (Inl e)
          | Inr _ \<Rightarrow>
              Option.bind (create_funding_redistribution_intent pool amounts blockhash) (\<lambda>intent.
              map_option Inr (watcher_stop x)))))"

lemma client_always_panics: "client_campaign env henv h h' pool draws snds bh x = None"
  by (simp add: client_campaign_def await_block_height_def)

text \<open>What the rounds of donations record, were they reached: one hash and one amount for each draw that
  could be gossiped, and for each project the wrapping sum of its amounts.\<close>

definition donated :: "donations \<Rightarrow> string \<Rightarrow> u64" where
  "donated acc project = (case snd acc project of Some e \<Rightarrow> e | None \<Rightarrow> 0)"

lemma donate_one_effect:
  assumes "donate_one env henv (i, dr) acc = Inr acc'"
  shows "acc' = acc \<or> length (fst acc') = Suc (length (fst acc))
    \<and> donated acc' p = donated acc p + (if p = draw_project dr then draw_amount dr else 0)"
proof -
  from assms obtain intent and r :: "topic_error + unit" where
    "(case r of Inl _ \<Rightarrow> Inr acc
      | Inr _ \<Rightarrow> Inr (fst acc @ [fst (intent_hash henv intent)], (snd acc)(draw_project dr \<mapsto>
          (case snd acc (draw_project dr) of Some e \<Rightarrow> e + draw_amount dr | None \<Rightarrow> draw_amount dr)))) = (Inr acc' :: client_error + donations)"
    unfolding donate_one_def prod.case bind_res_eq_Inr by (elim exE conjE) (rule that)
  then show ?thesis by (cases r) (auto simp: donated_def split: option.splits)
qed

lemma donate_fold:
  "fold_res (donate_one env henv) es acc = Inr acc' \<Longrightarrow>
   \<exists>sent. set sent \<subseteq> set es \<and> length (fst acc') = length (fst acc) + length sent
     \<and> donated acc' p = donated acc p + sum_list (map (\<lambda>e. draw_amount (snd e)) (filter (\<lambda>e. draw_project (snd e) = p) sent))"
proof (induction es arbitrary: acc)
  case (Cons e es)
  obtain i dr where e: "e = (i, dr)" by (cases e)
  from Cons.prems obtain acc1 where one: "donate_one env henv (i, dr) acc = Inr acc1"
    and rest: "fold_res (donate_one env henv) es acc1 = Inr acc'" by (auto simp: e)
  from Cons.IH [OF rest] obtain sent where sent: "set sent \<subseteq> set es" "length (fst acc') = length (fst acc1) + length sent"
    "donated acc' p = donated acc1 p + sum_list (map (\<lambda>e. draw_amount (snd e)) (filter (\<lambda>e. draw_project (snd e) = p) sent))" by blast
  from donate_one_effect [OF one, of p] show ?case
  proof
    assume "acc1 = acc"
    with sent show ?thesis by (intro exI [of _ sent]) auto
  next
    assume "length (fst acc1) = Suc (length (fst acc)) \<and> donated acc1 p = donated acc p + (if p = draw_project dr then draw_amount dr else 0)"
    with sent show ?thesis by (intro exI [of _ "(i, dr) # sent"]) (auto simp: e algebra_simps)
  qed
qed (intro exI [of _ "[]"], simp)

lemma donations_recorded:
  assumes "donate_all env henv draws = Inr acc"
  shows "\<exists>sent. set sent \<subseteq> set draws \<and> length (fst acc) = length sent
    \<and> donated acc p = sum_list (map draw_amount (filter (\<lambda>d. draw_project d = p) sent))"
proof -
  from donate_fold [OF assms [unfolded donate_all_def], of p] obtain sent where
    sent: "set sent \<subseteq> set (zip [0..<length draws] draws)" "length (fst acc) = length sent"
    "donated acc p = sum_list (map (\<lambda>e. draw_amount (snd e)) (filter (\<lambda>e. draw_project (snd e) = p) sent))"
    by (auto simp: donated_def)
  have "map draw_amount (filter (\<lambda>d. draw_project d = p) (map snd sent)) = map (\<lambda>e. draw_amount (snd e)) (filter (\<lambda>e. draw_project (snd e) = p) sent)"
    by (induction sent) auto
  with sent show ?thesis by (intro exI [of _ "map snd sent"]) (force dest: set_zip_rightD)
qed

section \<open>The node behind its topics\<close>

text \<open>Forgetting topics and encodings, the program is the node of \<open>Builder\<close>.\<close>

fun node_view :: "(bytes \<Rightarrow> transaction_wire option) \<Rightarrow> devnode_event \<Rightarrow> node_event" where
  "node_view dec (Received b) = TxBytes (map_option transaction_from_wire (dec b))"
| "node_view dec (BlockTick _ _) = Tick"

lemma devnode_refines_node:
  "map_option (\<lambda>(pub, p). (map fst pub, p)) (devnode_run w ser env run dec es p) = node_run w ser env run (map (node_view dec) es) p"
proof (induction es arbitrary: p)
  case (Cons e es)
  have step: "map_option (\<lambda>(pub, p). (map fst pub, p)) (devnode_step w ser env run dec e p) = node_step w ser env run (node_view dec e) p"
    by (cases e) (auto simp: devnode_step_def option.map_comp comp_def split: option.splits prod.splits intro!: option.map_cong)
  show ?case
  proof (cases "devnode_step w ser env run dec e p")
    case (Some r)
    obtain out p1 where r: "r = (out, p1)" by (cases r)
    from step Some r have "node_step w ser env run (node_view dec e) p = Some (map fst out, p1)" by simp
    with Some r show ?thesis by (simp add: Cons.IH [symmetric] option.map_comp comp_def case_prod_beta)
  qed (use step in simp)
qed simp

lemma node_run_length: "node_run w ser env run es p = Some (blks, p') \<Longrightarrow> length blks \<le> length es"
proof (induction es arbitrary: p blks)
  case (Cons e es)
  from Cons.prems obtain out p1 more where e: "node_step w ser env run e p = Some (out, p1)"
    and more: "node_run w ser env run es p1 = Some (more, p')" "blks = out @ more"
    by (auto split: option.splits)
  from e have "length out \<le> 1"
    by (cases "(w, ser, env, run, e, p)" rule: node_step.cases) (auto split: option.splits)
  with Cons.IH [OF more(1)] more(2) show ?case by simp
qed simp

lemma wire_height [simp]: "height (block_from_wire (block_to_wire b)) = height b"
  by (simp add: block_from_wire_def block_to_wire_def)

section \<open>Properties\<close>

text \<open>C17. A block that could not be published is lost.  A tick that finds no peers in the blocks topic
  produces its block all the same and drops it after the failed gossip.  A watcher that was level with the
  node rejects whatever it receives from the node from then on, in any order and with any repetition: its
  accounts, its code cache and its height stay as they are until the height of 64 bits wraps.\<close>

theorem lost_block_stalls:
  assumes "petgraph_laws pg" "bs58_alphanumeric w" and run: "run = vm_runner pg w env order sched split"
    and "builder_wf env (pool_blocks p)" "builder_last (pool_blocks p) = Some tip"
    "list_all valid_proposals (pool_txs p @ event_txs (map (node_view dec) es))"
    and "active_peers t = []" "length es < 2 ^ 64 - 1" "map_option height (most_recent_block x) = Some (height tip)"
  shows "\<exists>lost e pubs p'. devnode_run w ser env run dec (BlockTick world t # es) p = Some ((lost, Inl e, t) # pubs, p')
    \<and> block_transactions lost = pool_txs p
    \<and> (\<forall>blks. set blks \<subseteq> (block_from_wire \<circ> block_to_wire \<circ> fst) ` set pubs \<longrightarrow>
         (\<exists>sent x'. watcher_run w ser env run blks x = Some (sent, x') \<and> watcher_get x' = watcher_get x
           \<and> codecache (state_builder x') = codecache (state_builder x)
           \<and> map_option height (most_recent_block x') = Some (height tip)))"
proof -
  from node_run_spec [OF assms(1-4) _ assms(5), of "Tick # map (node_view dec) es" ser] assms(6) obtain blks p' where
    n: "node_run w ser env run (map (node_view dec) (BlockTick world t # es)) p = Some (blks, p')" "extends_chain env tip blks" by auto
  then obtain pub where pub: "devnode_run w ser env run dec (BlockTick world t # es) p = Some (pub, p')" "blks = map fst pub"
    using devnode_refines_node [of w ser env run dec "BlockTick world t # es" p] by auto
  from pub(1) obtain lost p1 pubs where l: "mempool_produce w ser env run p = Some (lost, p1)"
    and more: "devnode_run w ser env run dec es p1 = Some (pubs, p')"
    and pub': "pub = (lost, gossip world (to_vec_block env (block_to_wire lost)) t) # pubs"
    by (auto simp: devnode_step_def split: option.splits)
  obtain e where g: "gossip world (to_vec_block env (block_to_wire lost)) t = (Inl e, t)"
    using assms(7) by (simp add: gossip_def split: if_splits) metis
  have "length pubs < 2 ^ 64 - 1"
    using node_run_length [of w ser env run "map (node_view dec) es" p1 "map fst pubs" p']
      devnode_refines_node [of w ser env run dec es p1] more assms(8) by simp
  with missed_heights [of env tip lost "map fst pubs"] n(2) pub(2) pub'
  have far: "height b \<noteq> height tip + 1" if "b \<in> (block_from_wire \<circ> block_to_wire \<circ> fst) ` set pubs" for b
    using that by (force simp del: split_paired_All)
  have "block_transactions lost = pool_txs p" using l by (auto simp: mempool_produce_def block_new_def Let_def split: option.splits sum.splits)
  moreover have "\<exists>sent x'. watcher_run w ser env run blks x = Some (sent, x') \<and> watcher_get x' = watcher_get x
      \<and> codecache (state_builder x') = codecache (state_builder x) \<and> map_option height (most_recent_block x') = Some (height tip)"
    if "set blks \<subseteq> (block_from_wire \<circ> block_to_wire \<circ> fst) ` set pubs" for blks
    using watcher_stalled [of blks "height tip" x w ser env run] far that assms(9) by (fastforce simp: watcher_get_def builder_get_def)
  moreover have "devnode_run w ser env run dec (BlockTick world t # es) p = Some ((lost, Inl e, t) # pubs, p')"
    using pub(1) pub' g by simp
  ultimately show ?thesis by blast
qed

theorem lost_block_stalls_witness:
  "\<exists>lost e pubs p'.
     devnode_run sample_wasm (\<lambda>_. None) sample_env (vm_runner plain_petgraph sample_wasm sample_env (\<lambda>_ out. out) (\<lambda>_. []) (\<lambda>_ _ _. 0))
       (\<lambda>_. None) [BlockTick (sample_world 0) sample_topic, Received [1], BlockTick (sample_world 0) sample_topic] (mempool_new fresh_builder)
     = Some ((lost, Inl e, sample_topic) # pubs, p')
     \<and> (\<exists>sent x'. watcher_run sample_wasm (\<lambda>_. None) sample_env
         (vm_runner plain_petgraph sample_wasm sample_env (\<lambda>_ out. out) (\<lambda>_. []) (\<lambda>_ _ _. 0))
         (map (block_from_wire \<circ> block_to_wire \<circ> fst) pubs) \<lparr>watchlist = Map.empty, state_builder = fresh_builder\<rparr> = Some (sent, x')
       \<and> map_option height (most_recent_block x') = Some 0)"
proof -
  let ?p = "mempool_new fresh_builder" and ?es = "[Received [1], BlockTick (sample_world 0) sample_topic]"
  let ?x = "\<lparr>watchlist = Map.empty, state_builder = fresh_builder\<rparr>"
  have pre: "builder_wf sample_env (pool_blocks ?p)" "builder_last (pool_blocks ?p) = Some (block_zero [])"
    "list_all valid_proposals (pool_txs ?p @ event_txs (map (node_view (\<lambda>_. None)) ?es))"
    "active_peers sample_topic = []" "length ?es < 2 ^ 64 - 1"
    "map_option height (most_recent_block ?x) = Some (height (block_zero []))"
    by (simp_all add: mempool_new_def fresh_builder_wf sample_topic_def topic_new_def Let_def most_recent_block_def)
  obtain lost e pubs p' where
    run: "devnode_run sample_wasm (\<lambda>_. None) sample_env (vm_runner plain_petgraph sample_wasm sample_env (\<lambda>_ out. out) (\<lambda>_. []) (\<lambda>_ _ _. 0))
       (\<lambda>_. None) (BlockTick (sample_world 0) sample_topic # ?es) ?p = Some ((lost, Inl e, sample_topic) # pubs, p')"
    and later: "\<And>blks. set blks \<subseteq> (block_from_wire \<circ> block_to_wire \<circ> fst) ` set pubs \<Longrightarrow>
      \<exists>sent x'. watcher_run sample_wasm (\<lambda>_. None) sample_env
         (vm_runner plain_petgraph sample_wasm sample_env (\<lambda>_ out. out) (\<lambda>_. []) (\<lambda>_ _ _. 0)) blks ?x = Some (sent, x')
       \<and> map_option height (most_recent_block x') = Some (height (block_zero []))"
    using lost_block_stalls [OF plain_petgraph_laws sample_wasm_ok refl pre, of "\<lambda>_. None" "\<lambda>_ out. out" "\<lambda>_. []" "\<lambda>_ _ _. 0" "sample_world 0"]
    by (elim exE conjE) (rule that, assumption, blast)
  have "height (block_zero []) = 0" by (simp add: block_zero_def)
  with run later [of "map (block_from_wire \<circ> block_to_wire \<circ> fst) pubs"] show ?thesis by (auto simp del: devnode_run.simps)
qed

end
