(* ===== verification/Transport.thy ===== *)
theory Transport
  imports Wire
begin

text \<open>
  Below the network object: the substream handler of a connection (\<open>network/src/stream.rs\<close>), the
  behaviour that libp2p polls (\<open>behaviour.rs\<close>), the routing of the background thread (\<open>runloop.rs\<close>)
  and the message framing (\<open>codec.rs\<close>, \<open>upgrade.rs\<close>).

  The framed socket belongs to libraries and is a parameter: a type \<open>'s\<close> of its states and a record of
  the operations the handler polls, each of which returns a result and the next state.  A \<open>Channel\<close> is
  a list, oldest first (\<open>channel.rs\<close>).
\<close>

section \<open>Framing\<close>

datatype upgrade_error = MaxTransmissionSizeExceeded | IoError string | SerializationError | DeserializationError

datatype io_error = PermissionDenied | OtherIo string

text \<open>The serialisation of MessagePack and the length prefix of \<open>unsigned_varint\<close>.\<close>

record codec_env =
  to_vec :: "message \<Rightarrow> bytes option"
  from_slice :: "bytes \<Rightarrow> message option"
  uvi_encode :: "nat \<Rightarrow> bytes \<Rightarrow> bytes \<Rightarrow> io_error + bytes"
  uvi_decode :: "nat \<Rightarrow> bytes \<Rightarrow> io_error + bytes option \<times> bytes"

definition encode :: "codec_env \<Rightarrow> nat \<Rightarrow> message \<Rightarrow> bytes \<Rightarrow> upgrade_error + bytes" where
  "encode env max_len item dst =
     (case to_vec env item of
        None \<Rightarrow> Inl SerializationError
      | Some b \<Rightarrow>
          (case uvi_encode env max_len b dst of
             Inl _ \<Rightarrow> Inl MaxTransmissionSizeExceeded
           | Inr dst' \<Rightarrow> Inr dst'))"

definition decode :: "codec_env \<Rightarrow> nat \<Rightarrow> bytes \<Rightarrow> upgrade_error + message option \<times> bytes" where
  "decode env max_len src =
     (case uvi_decode env max_len src of
        Inl PermissionDenied \<Rightarrow> Inl MaxTransmissionSizeExceeded
      | Inl (OtherIo e) \<Rightarrow> Inl (IoError e)
      | Inr (None, src') \<Rightarrow> Inr (None, src')
      | Inr (Some packet, src') \<Rightarrow>
          (case from_slice env packet of
             None \<Rightarrow> Inl DeserializationError
           | Some msg \<Rightarrow> Inr (Some msg, src')))"

section \<open>The substream handler\<close>

datatype 'a poll = Ready 'a | Pending

datatype 's inbound_state = InAwaitingRead 's | InClosing 's | InPoisoned

datatype 's outbound_state =
    SubstreamRequested
  | AwaitingWrite 's
  | PendingWrite 's message
  | PendingFlush 's
  | OutClosing 's
  | OutPoisoned

record 's substream_io =
  io_next :: "'s \<Rightarrow> (upgrade_error + message) option poll \<times> 's"
  io_ready :: "'s \<Rightarrow> (upgrade_error + unit) poll \<times> 's"
  io_send :: "message \<Rightarrow> 's \<Rightarrow> (upgrade_error + unit) \<times> 's"
  io_flush :: "'s \<Rightarrow> (upgrade_error + unit) poll \<times> 's"
  io_close :: "'s \<Rightarrow> (upgrade_error + unit) poll \<times> 's"

record 's substream_handler =
  inbound_stream :: "'s inbound_state option"
  outbound_stream :: "'s outbound_state option"
  keep_alive :: bool
  outbound_messages :: "message list"

datatype handler_event = Custom message | CloseWith upgrade_error | OutboundSubstreamRequest

definition handler_new :: "'s substream_handler" where
  "handler_new = \<lparr>inbound_stream = None, outbound_stream = None, keep_alive = True, outbound_messages = []\<rparr>"

definition inject_fully_negotiated_inbound :: "'s \<Rightarrow> 's substream_handler \<Rightarrow> 's substream_handler" where
  "inject_fully_negotiated_inbound s h = h\<lparr>inbound_stream := Some (InAwaitingRead s)\<rparr>"

definition inject_fully_negotiated_outbound :: "'s \<Rightarrow> 's substream_handler \<Rightarrow> 's substream_handler" where
  "inject_fully_negotiated_outbound s h = h\<lparr>outbound_stream := Some (AwaitingWrite s)\<rparr>"

definition handler_inject_event :: "message \<Rightarrow> 's substream_handler \<Rightarrow> 's substream_handler" where
  "handler_inject_event m h = h\<lparr>outbound_messages := outbound_messages h @ [m]\<rparr>"

definition inject_dial_upgrade_error :: "'s substream_handler \<Rightarrow> 's substream_handler" where
  "inject_dial_upgrade_error h = h\<lparr>inbound_stream := Some InPoisoned, outbound_stream := Some OutPoisoned\<rparr>"

text \<open>One turn of a poll loop returns an event, leaves the loop, or goes round again.\<close>

datatype flow = Return handler_event | Break | Continue

definition inbound_turn :: "'s substream_io \<Rightarrow> 's substream_handler \<Rightarrow> flow \<times> 's substream_handler" where
  "inbound_turn io h =
     (case inbound_stream h of
        Some (InAwaitingRead s) \<Rightarrow>
          (case io_next io s of
             (Ready (Some (Inr m)), s) \<Rightarrow> (Return (Custom m), h\<lparr>inbound_stream := Some (InAwaitingRead s)\<rparr>)
           | (Ready (Some (Inl e)), s) \<Rightarrow> (Continue, h\<lparr>inbound_stream := Some InPoisoned\<rparr>)
           | (Ready None, s) \<Rightarrow> (Continue, h\<lparr>inbound_stream := Some (InClosing s)\<rparr>)
           | (Pending, s) \<Rightarrow> (Break, h\<lparr>inbound_stream := Some (InAwaitingRead s)\<rparr>))
      | Some (InClosing s) \<Rightarrow>
          (case io_close io s of
             (Ready res, s) \<Rightarrow>
               (Break, h\<lparr>inbound_stream := None,
                         keep_alive := (if outbound_stream h = None then False else keep_alive h)\<rparr>)
           | (Pending, s) \<Rightarrow> (Break, h\<lparr>inbound_stream := Some (InClosing s)\<rparr>))
      | Some InPoisoned \<Rightarrow> (Break, h\<lparr>inbound_stream := Some InPoisoned, keep_alive := False\<rparr>)
      | None \<Rightarrow> (Break, h\<lparr>inbound_stream := None\<rparr>))"

definition inbound_rank :: "'s substream_handler \<Rightarrow> nat" where
  "inbound_rank h = (case inbound_stream h of Some (InAwaitingRead _) \<Rightarrow> 1 | _ \<Rightarrow> 0)"

lemma inbound_turn_rank: "inbound_turn io h = (Continue, h') \<Longrightarrow> inbound_rank h' < inbound_rank h"
  by (auto simp: inbound_turn_def inbound_rank_def split: option.splits inbound_state.splits poll.splits prod.splits sum.splits)

function process_inbound_poll :: "'s substream_io \<Rightarrow> 's substream_handler \<Rightarrow> handler_event poll \<times> 's substream_handler" where
  "process_inbound_poll io h =
     (case inbound_turn io h of
        (Return ev, h') \<Rightarrow> (Ready ev, h')
      | (Break, h') \<Rightarrow> (Pending, h')
      | (Continue, h') \<Rightarrow> process_inbound_poll io h')"
  by pat_completeness auto
termination by (relation "measure (\<lambda>(io, h). inbound_rank h)") (auto dest: inbound_turn_rank [OF sym])

declare process_inbound_poll.simps [simp del]

definition outbound_turn :: "'s substream_io \<Rightarrow> 's substream_handler \<Rightarrow> flow \<times> 's substream_handler" where
  "outbound_turn io h =
     (case outbound_stream h of
        Some (AwaitingWrite s) \<Rightarrow>
          (case outbound_messages h of
             m # ms \<Rightarrow> (Continue, h\<lparr>outbound_messages := ms, outbound_stream := Some (PendingWrite s m)\<rparr>)
           | [] \<Rightarrow> (Break, h\<lparr>outbound_stream := Some (AwaitingWrite s)\<rparr>))
      | Some (PendingWrite s m) \<Rightarrow>
          (case io_ready io s of
             (Ready (Inr _), s) \<Rightarrow>
               (case io_send io m s of
                  (Inr _, s) \<Rightarrow> (Continue, h\<lparr>outbound_stream := Some (PendingFlush s)\<rparr>)
                | (Inl MaxTransmissionSizeExceeded, s) \<Rightarrow> (Continue, h\<lparr>outbound_stream := Some (AwaitingWrite s)\<rparr>)
                | (Inl e, s) \<Rightarrow> (Return (CloseWith e), h\<lparr>outbound_stream := Some (OutClosing s)\<rparr>))
           | (Ready (Inl e), s) \<Rightarrow> (Return (CloseWith e), h\<lparr>outbound_stream := Some (OutClosing s)\<rparr>)
           | (Pending, s) \<Rightarrow> (Break, h\<lparr>keep_alive := True, outbound_stream := Some (PendingWrite s m)\<rparr>))
      | Some (PendingFlush s) \<Rightarrow>
          (case io_flush io s of
             (Ready (Inr _), s) \<Rightarrow> (Continue, h\<lparr>outbound_stream := Some (AwaitingWrite s)\<rparr>)
           | (Ready (Inl e), s) \<Rightarrow> (Return (CloseWith e), h\<lparr>outbound_stream := Some (OutClosing s)\<rparr>)
           | (Pending, s) \<Rightarrow> (Break, h\<lparr>keep_alive := True, outbound_stream := Some (PendingFlush s)\<rparr>))
      | Some (OutClosing s) \<Rightarrow>
          (case io_close io s of
             (Ready (Inr _), s) \<Rightarrow>
               (Break, h\<lparr>outbound_stream := None,
                         keep_alive := (if inbound_stream h = None then False else keep_alive h)\<rparr>)
           | (Ready (Inl e), s) \<Rightarrow>
               (Return (CloseWith (IoError ''Failed to close outbound substream'')), h\<lparr>outbound_stream := Some OutPoisoned\<rparr>)
           | (Pending, s) \<Rightarrow> (Break, h\<lparr>keep_alive := False, outbound_stream := Some (OutClosing s)\<rparr>))
      | Some SubstreamRequested \<Rightarrow> (Break, h\<lparr>outbound_stream := Some SubstreamRequested\<rparr>)
      | Some OutPoisoned \<Rightarrow> (Break, h\<lparr>outbound_stream := Some OutPoisoned, keep_alive := False\<rparr>)
      | None \<Rightarrow> (Return OutboundSubstreamRequest, h\<lparr>outbound_stream := Some SubstreamRequested\<rparr>))"

definition outbound_rank :: "'s substream_handler \<Rightarrow> nat" where
  "outbound_rank h = 3 * length (outbound_messages h) +
     (case outbound_stream h of Some (PendingWrite _ _) \<Rightarrow> 2 | Some (PendingFlush _) \<Rightarrow> 1 | _ \<Rightarrow> 0)"

lemma outbound_turn_rank: "outbound_turn io h = (Continue, h') \<Longrightarrow> outbound_rank h' < outbound_rank h"
  by (auto simp: outbound_turn_def outbound_rank_def
      split: option.splits outbound_state.splits poll.splits prod.splits sum.splits list.splits upgrade_error.splits)

function process_outbound_poll :: "'s substream_io \<Rightarrow> 's substream_handler \<Rightarrow> handler_event poll \<times> 's substream_handler" where
  "process_outbound_poll io h =
     (case outbound_turn io h of
        (Return ev, h') \<Rightarrow> (Ready ev, h')
      | (Break, h') \<Rightarrow> (Pending, h')
      | (Continue, h') \<Rightarrow> process_outbound_poll io h')"
  by pat_completeness auto
termination by (relation "measure (\<lambda>(io, h). outbound_rank h)") (auto dest: outbound_turn_rank [OF sym])

declare process_outbound_poll.simps [simp del]

definition handler_poll :: "'s substream_io \<Rightarrow> 's substream_handler \<Rightarrow> handler_event poll \<times> 's substream_handler" where
  "handler_poll io h =
     (let (r, h) = process_inbound_poll io h in
      if r \<noteq> Pending then (r, h) else process_outbound_poll io h)"

section \<open>The behaviour and the background thread\<close>

datatype behaviour_action =
    GenerateEvent behaviour_event
  | CloseConnection peer_id connection_id
  | NotifyHandler peer_id connection_id message

record behaviour =
  events :: "behaviour_event list"
  disconnects :: "(peer_id \<times> connection_id) list"
  b_outmsgs :: "(peer_id \<times> connection_id \<times> message) list"

definition behaviour_new :: behaviour where
  "behaviour_new = \<lparr>events = [], disconnects = [], b_outmsgs = []\<rparr>"

definition send_to :: "peer_id \<Rightarrow> connection_id \<Rightarrow> message \<Rightarrow> behaviour \<Rightarrow> behaviour" where
  "send_to p c m b = b\<lparr>b_outmsgs := b_outmsgs b @ [(p, c, m)]\<rparr>"

definition disconnect_from :: "peer_id \<Rightarrow> connection_id \<Rightarrow> behaviour \<Rightarrow> behaviour" where
  "disconnect_from p c b = b\<lparr>disconnects := disconnects b @ [(p, c)]\<rparr>"

definition push_event :: "behaviour_event \<Rightarrow> behaviour \<Rightarrow> behaviour" where
  "push_event ev b = b\<lparr>events := events b @ [ev]\<rparr>"

definition behaviour_inject_event :: "peer_id \<Rightarrow> connection_id \<Rightarrow> message \<Rightarrow> behaviour \<Rightarrow> behaviour" where
  "behaviour_inject_event p c m = push_event (MessageReceived p c m)"

definition remote_address :: "connected_point \<Rightarrow> multiaddr" where
  "remote_address ep = (case ep of Dialer a \<Rightarrow> a | Listener a \<Rightarrow> a)"

definition inject_connection_established :: "peer_id \<Rightarrow> connection_id \<Rightarrow> connected_point \<Rightarrow> behaviour \<Rightarrow> behaviour" where
  "inject_connection_established p c ep =
     push_event (ConnectionEstablished \<lparr>peer_id = p, addresses = [remote_address ep]\<rparr> ep c)"

definition inject_connection_closed :: "peer_id \<Rightarrow> connection_id \<Rightarrow> behaviour \<Rightarrow> behaviour" where
  "inject_connection_closed p c = push_event (ConnectionClosed p c)"

definition is_local_address :: "multiaddr \<Rightarrow> bool" where
  "is_local_address addr =
     list_ex (\<lambda>p. case p of
        Ip4 a \<Rightarrow> a = 0x7F000001 \<or> a = 0
      | Ip6 a \<Rightarrow> a = 1 \<or> a = 0
      | _ \<Rightarrow> False) addr"

definition inject_new_listen_addr :: "multiaddr \<Rightarrow> behaviour \<Rightarrow> behaviour" where
  "inject_new_listen_addr addr b =
     (if \<not> is_local_address addr then push_event (LocalAddressDiscovered addr) b else b)"

definition behaviour_poll :: "behaviour \<Rightarrow> behaviour_action poll \<times> behaviour" where
  "behaviour_poll b =
     (case events b of
        ev # evs \<Rightarrow> (Ready (GenerateEvent ev), b\<lparr>events := evs\<rparr>)
      | [] \<Rightarrow>
          (case disconnects b of
             (p, c) # ds \<Rightarrow> (Ready (CloseConnection p c), b\<lparr>disconnects := ds\<rparr>)
           | [] \<Rightarrow>
               (case b_outmsgs b of
                  (p, c, m) # ms \<Rightarrow> (Ready (NotifyHandler p c m), b\<lparr>b_outmsgs := ms\<rparr>)
                | [] \<Rightarrow> (Pending, b))))"

text \<open>The background thread: the behaviour it polls, and what it has asked the swarm to dial and to ban.\<close>

record swarm =
  sw_behaviour :: behaviour
  dialed :: "multiaddr list"
  banned :: "peer_id list"

definition runloop_step :: "runloop_command \<Rightarrow> swarm \<Rightarrow> swarm" where
  "runloop_step cmd s =
     (case cmd of
        RConnect addr \<Rightarrow> s\<lparr>dialed := dialed s @ [addr]\<rparr>
      | RDisconnect p c \<Rightarrow> s\<lparr>sw_behaviour := disconnect_from p c (sw_behaviour s)\<rparr>
      | RSendMessage p c m \<Rightarrow> s\<lparr>sw_behaviour := send_to p c m (sw_behaviour s)\<rparr>
      | RBanPeer p \<Rightarrow> s\<lparr>banned := banned s @ [p]\<rparr>)"

text \<open>A poll of the swarm: an event of the behaviour becomes a command to the network object.\<close>

definition swarm_next :: "swarm \<Rightarrow> command option \<times> swarm" where
  "swarm_next s =
     (case behaviour_poll (sw_behaviour s) of
        (Ready (GenerateEvent ev), b) \<Rightarrow> (Some (InjectEvent ev), s\<lparr>sw_behaviour := b\<rparr>)
      | (_, b) \<Rightarrow> (None, s\<lparr>sw_behaviour := b\<rparr>))"

section \<open>Framing round trip\<close>

definition codec_laws :: "codec_env \<Rightarrow> (bytes \<Rightarrow> bytes) \<Rightarrow> bool" where
  "codec_laws env frame \<longleftrightarrow>
     (\<forall>m b. to_vec env m = Some b \<longrightarrow> from_slice env b = Some (m\<lparr>hash_cache := None\<rparr>))
     \<and> (\<forall>n b dst. uvi_encode env n b dst = (if length b \<le> n then Inr (dst @ frame b) else Inl PermissionDenied))
     \<and> (\<forall>n b rest. uvi_decode env n (frame b @ rest) = (if length b \<le> n then Inr (Some b, rest) else Inl PermissionDenied))
     \<and> (\<forall>n. uvi_decode env n [] = Inr (None, []))"

fun encode_all :: "codec_env \<Rightarrow> nat \<Rightarrow> message list \<Rightarrow> bytes \<Rightarrow> upgrade_error + bytes" where
  "encode_all env n [] dst = Inr dst"
| "encode_all env n (m # ms) dst = (case encode env n m dst of Inl e \<Rightarrow> Inl e | Inr dst \<Rightarrow> encode_all env n ms dst)"

text \<open>Reading a stream until it yields nothing more; as every frame that is read is removed from the buffer, the
  number of reads is bounded by the argument.\<close>

fun decode_all :: "codec_env \<Rightarrow> nat \<Rightarrow> nat \<Rightarrow> bytes \<Rightarrow> upgrade_error + message list" where
  "decode_all env n 0 src = Inr []"
| "decode_all env n (Suc fuel) src =
     (case decode env n src of
        Inl e \<Rightarrow> Inl e
      | Inr (None, _) \<Rightarrow> Inr []
      | Inr (Some m, src) \<Rightarrow> map_sum id (Cons m) (decode_all env n fuel src))"

lemma decode_frame:
  assumes "codec_laws env frame" "to_vec env m = Some b" "length b \<le> n"
  shows "decode env n (frame b @ rest) = Inr (Some (m\<lparr>hash_cache := None\<rparr>), rest)"
  using assms by (simp add: codec_laws_def decode_def)

lemma encode_all_frames:
  assumes "codec_laws env frame" "\<forall>m \<in> set ms. \<exists>b. to_vec env m = Some b \<and> length b \<le> n"
  shows "encode_all env n ms dst = Inr (dst @ concat (map (\<lambda>m. frame (the (to_vec env m))) ms))"
  using assms by (induction ms arbitrary: dst) (auto simp: codec_laws_def encode_def)

lemma decode_all_frames:
  assumes "codec_laws env frame" "\<forall>m \<in> set ms. \<exists>b. to_vec env m = Some b \<and> length b \<le> n" "length ms < fuel"
  shows "decode_all env n fuel (concat (map (\<lambda>m. frame (the (to_vec env m))) ms)) = Inr (map (\<lambda>m. m\<lparr>hash_cache := None\<rparr>) ms)"
  using assms(2,3)
proof (induction ms arbitrary: fuel)
  case Nil
  then obtain f where "fuel = Suc f" by (cases fuel) auto
  then show ?case using assms(1) by (simp add: decode_def codec_laws_def)
next
  case (Cons m ms)
  then obtain f b where f: "fuel = Suc f" "length ms < f" "to_vec env m = Some b" "length b \<le> n" by (cases fuel) auto
  then show ?case using Cons decode_frame [OF assms(1) f(3,4)] by simp
qed

section \<open>Properties\<close>

text \<open>C31. Framing round trip: messages whose serialised form is within the transmission limit are encoded
  without error, and decoding the resulting stream, whatever its boundaries, gives exactly these
  messages in order, with the memoised hash gone; a message beyond the limit is refused by the encoder.\<close>

theorem codec_roundtrip:
  assumes "codec_laws env frame" "\<forall>m \<in> set ms. \<exists>b. to_vec env m = Some b \<and> length b \<le> n" "length ms < fuel"
  shows "(\<exists>src. encode_all env n ms [] = Inr src \<and> decode_all env n fuel src = Inr (map (\<lambda>m. m\<lparr>hash_cache := None\<rparr>) ms))
    \<and> (\<forall>m b dst. to_vec env m = Some b \<longrightarrow> n < length b \<longrightarrow> encode env n m dst = Inl MaxTransmissionSizeExceeded)"
  using encode_all_frames [OF assms(1,2), of "[]"] decode_all_frames [OF assms] assms(1)
  by (simp add: codec_laws_def encode_def)

definition sample_codec :: codec_env where
  "sample_codec = \<lparr>
     to_vec = (\<lambda>m. case (msg_topic m, msg_action m) of ([], Gossip b) \<Rightarrow> Some b | _ \<Rightarrow> None),
     from_slice = (\<lambda>b. Some (message_new [] (Gossip b))),
     uvi_encode = (\<lambda>n b dst. if length b \<le> n then Inr (dst @ replicate (length b) 1 @ [0] @ b) else Inl PermissionDenied),
     uvi_decode = (\<lambda>n src. let k = length (takeWhile (\<lambda>x. x = 1) src); rest = drop (Suc k) src in
       if src = [] then Inr (None, []) else if k \<le> n then Inr (Some (take k rest), drop k rest) else Inl PermissionDenied)\<rparr>"

lemma sample_codec_laws: "codec_laws sample_codec (\<lambda>b. replicate (length b) 1 @ [0] @ b)"
proof -
  have "takeWhile (\<lambda>x. x = 1) (replicate k (1 :: byte) @ 0 # rest) = replicate k 1" for k rest
    by (induction k) auto
  then show ?thesis
    by (auto simp: codec_laws_def sample_codec_def message_new_def Let_def split: list.splits action.splits)
qed

theorem codec_roundtrip_witness:
  "\<exists>src. encode_all sample_codec 5 [message_new [] (Gossip [7]), message_new [] (Gossip [])] [] = Inr src
    \<and> decode_all sample_codec 5 3 src = Inr [message_new [] (Gossip [7]), message_new [] (Gossip [])]"
proof -
  let ?ms = "[message_new [] (Gossip [7]), message_new [] (Gossip [])]"
  have "\<forall>m \<in> set ?ms. \<exists>b. to_vec sample_codec m = Some b \<and> length b \<le> 5" by (simp add: sample_codec_def message_new_def)
  from codec_roundtrip [OF sample_codec_laws this, of 3] show ?thesis by (simp add: message_new_def)
qed

section \<open>Order of the messages of a connection\<close>

text \<open>The socket with a record of the messages handed to \<open>start_send\<close>, and the interface through which the
  proofs see such a record.\<close>

definition logged :: "'s substream_io \<Rightarrow> ('s \<times> message list) substream_io" where
  "logged io = \<lparr>
     io_next = (\<lambda>(s, l). let (r, s) = io_next io s in (r, s, l)),
     io_ready = (\<lambda>(s, l). let (r, s) = io_ready io s in (r, s, l)),
     io_send = (\<lambda>m (s, l). let (r, s) = io_send io m s in (r, s, l @ [m])),
     io_flush = (\<lambda>(s, l). let (r, s) = io_flush io s in (r, s, l)),
     io_close = (\<lambda>(s, l). let (r, s) = io_close io s in (r, s, l))\<rparr>"

fun writing :: "'s substream_handler \<Rightarrow> 's option" where
  "writing h =
     (case outbound_stream h of
        Some (AwaitingWrite s) \<Rightarrow> Some s
      | Some (PendingWrite s _) \<Rightarrow> Some s
      | Some (PendingFlush s) \<Rightarrow> Some s
      | _ \<Rightarrow> None)"

definition in_flight :: "'s substream_handler \<Rightarrow> message list" where
  "in_flight h = (case outbound_stream h of Some (PendingWrite _ m) \<Rightarrow> [m] | _ \<Rightarrow> []) @ outbound_messages h"

locale write_log =
  fixes io :: "'s substream_io" and log :: "'s \<Rightarrow> message list"
  assumes log_ready: "log (snd (io_ready io s)) = log s"
    and log_flush: "log (snd (io_flush io s)) = log s"
    and log_send: "log (snd (io_send io m s)) = log s @ [m]"
begin

lemma turn_fifo:
  assumes "outbound_turn io h = (f, h')" "writing h = Some s"
  shows "(\<exists>e. f = Return (CloseWith e)) \<or> (\<exists>s'. writing h' = Some s' \<and> log s' @ in_flight h' = log s @ in_flight h)"
  using assms log_ready [of s] log_flush [of s] log_send
  by (auto simp: outbound_turn_def in_flight_def
      split: option.splits outbound_state.splits poll.splits prod.splits sum.splits list.splits upgrade_error.splits)
    (metis snd_conv)+

lemma poll_fifo:
  assumes "process_outbound_poll io h = (r, h')" "writing h = Some s"
  shows "(\<exists>e. r = Ready (CloseWith e)) \<or> r = Pending \<and> (\<exists>s'. writing h' = Some s' \<and> log s' @ in_flight h' = log s @ in_flight h)"
  using assms
proof (induction "outbound_rank h" arbitrary: h s rule: less_induct)
  case less
  obtain f h1 where f: "outbound_turn io h = (f, h1)" by fastforce
  note turn = turn_fifo [OF f less.prems(2)]
  show ?case
  proof (cases f)
    case (Return ev)
    then have "r = Ready ev" using f less.prems(1) by (simp add: process_outbound_poll.simps [of io h])
    moreover have "outbound_turn io h = (Return ev, h1) \<Longrightarrow> writing h = Some s \<Longrightarrow> \<exists>e. ev = CloseWith e"
      by (auto simp: outbound_turn_def split: option.splits outbound_state.splits poll.splits prod.splits sum.splits list.splits upgrade_error.splits)
    ultimately show ?thesis using f Return less.prems(2) by auto
  next
    case Break
    then show ?thesis using f turn less.prems(1) by (simp add: process_outbound_poll.simps [of io h])
  next
    case Continue
    then obtain s1 where s1: "writing h1 = Some s1" "log s1 @ in_flight h1 = log s @ in_flight h" using turn by auto
    have "process_outbound_poll io h1 = (r, h')"
      using f Continue less.prems(1) by (simp add: process_outbound_poll.simps [of io h])
    from less.hyps [OF outbound_turn_rank [OF f [unfolded Continue]] this s1(1)] s1(2) show ?thesis by simp
  qed
qed

end

interpretation lw: write_log "logged io" snd for io
  by unfold_locales (auto simp: logged_def Let_def split: prod.splits)


definition sample_io :: "nat substream_io" where
  "sample_io = \<lparr>io_next = (\<lambda>s. (Pending, s)), io_ready = (\<lambda>s. if s = 0 then (Pending, s) else (Ready (Inr ()), s - 1)),
     io_send = (\<lambda>m s. (Inr (), s)), io_flush = (\<lambda>s. (Ready (Inr ()), s)), io_close = (\<lambda>s. (Ready (Inr ()), s))\<rparr>"


section \<open>Order of the actions of the behaviour\<close>

text \<open>All the polls of a behaviour to which nothing is added.\<close>

function drain :: "behaviour \<Rightarrow> behaviour_action list" where
  "drain b = (case behaviour_poll b of (Pending, _) \<Rightarrow> [] | (Ready a, b') \<Rightarrow> a # drain b')"
  by pat_completeness auto
termination
  by (relation "measure (\<lambda>b. length (events b) + length (disconnects b) + length (b_outmsgs b))")
    (auto simp: behaviour_poll_def split: list.splits prod.splits)

declare drain.simps [simp del]

lemma drain_outmsgs: "drain \<lparr>events = [], disconnects = [], b_outmsgs = ms\<rparr> = map (\<lambda>(p, c, m). NotifyHandler p c m) ms"
  by (induction ms) (auto simp: drain.simps [of "\<lparr>events = _, disconnects = _, b_outmsgs = _\<rparr>"] behaviour_poll_def)

lemma drain_disconnects:
  "drain \<lparr>events = [], disconnects = ds, b_outmsgs = ms\<rparr> = map (\<lambda>(p, c). CloseConnection p c) ds @ map (\<lambda>(p, c, m). NotifyHandler p c m) ms"
proof (induction ds)
  case Nil
  then show ?case by (simp add: drain_outmsgs)
next
  case (Cons d ds)
  then show ?case by (cases d) (simp add: drain.simps [of "\<lparr>events = _, disconnects = _ # _, b_outmsgs = _\<rparr>"] behaviour_poll_def)
qed

lemma drain_all:
  "drain b = map GenerateEvent (events b) @ map (\<lambda>(p, c). CloseConnection p c) (disconnects b) @ map (\<lambda>(p, c, m). NotifyHandler p c m) (b_outmsgs b)"
proof (induction "events b" arbitrary: b)
  case Nil
  then show ?case using drain_disconnects [of "disconnects b" "b_outmsgs b"] by (cases b) simp
next
  case (Cons ev evs)
  from Cons.hyps(1) [of "b\<lparr>events := evs\<rparr>"] Cons.hyps(2) [symmetric] show ?case
    by (simp add: drain.simps [of b] behaviour_poll_def)
qed

text \<open>A message is overtaken by the disconnect that follows it.  When the background thread takes the
  command to send a message on a connection and then the command to disconnect it, as a topic issues
  them for the reply to a shuffle, and nothing else is queued, the behaviour first closes the
  connection and only then hands the message to its handler.\<close>

lemma disconnect_overtakes_message:
  assumes "events (sw_behaviour s) = []" "disconnects (sw_behaviour s) = []" "b_outmsgs (sw_behaviour s) = []"
  shows "drain (sw_behaviour (runloop_step (RDisconnect p c) (runloop_step (RSendMessage p c m) s)))
    = [CloseConnection p c, NotifyHandler p c m]"
  using assms by (simp add: drain_all runloop_step_def send_to_def disconnect_from_def)

lemma disconnect_overtakes_message_example:
  "drain (sw_behaviour (runloop_step (RDisconnect [1] 7) (runloop_step (RSendMessage [1] 7 (message_new ''t'' (ShuffleReply [])))
      \<lparr>sw_behaviour = behaviour_new, dialed = [], banned = []\<rparr>)))
    = [CloseConnection [1] 7, NotifyHandler [1] 7 (message_new ''t'' (ShuffleReply []))]"
  by (rule disconnect_overtakes_message) (simp_all add: behaviour_new_def)

text \<open>A failed protocol upgrade is final: whatever the socket does, every later poll finds nothing and asks for
  the connection to be closed.\<close>

lemma upgrade_error_final:
  "handler_poll io (inject_dial_upgrade_error h) = (Pending, (inject_dial_upgrade_error h)\<lparr>keep_alive := False\<rparr>)"
  by (simp add: handler_poll_def inject_dial_upgrade_error_def process_inbound_poll.simps process_outbound_poll.simps
      inbound_turn_def outbound_turn_def)

lemma read_error_poisons:
  assumes "inbound_stream h = Some (InAwaitingRead s)" "io_next io s = (Ready (Some (Inl e)), s')"
  shows "process_inbound_poll io h = (Pending, h\<lparr>inbound_stream := Some InPoisoned, keep_alive := False\<rparr>)"
  using assms by (simp add: process_inbound_poll.simps inbound_turn_def)

end
