(* ===== verification/Background.thy ===== *)
theory Background
  imports Network Transport
begin

text \<open>
  The background thread of the network layer and what connects it to the network object:
  \<open>network/src/channel.rs\<close>, \<open>runloop.rs\<close>, \<open>upgrade.rs\<close>, the constructors of \<open>codec.rs\<close> and \<open>network.rs\<close>.

  The constructors of libp2p may fail and are the parameters of \<open>transport_env\<close>.  The two ends of a
  channel share one state: the queue, the number of senders, and whether the receiver still exists.
\<close>

section \<open>Channels\<close>

text \<open>\<open>tokio::sync::mpsc::unbounded_channel\<close>\<close>

record 'a mpsc =
  queued :: "'a list"
  senders :: nat
  receiver :: bool

definition mpsc_send :: "'a \<Rightarrow> 'a mpsc \<Rightarrow> 'a mpsc option" where
  "mpsc_send x c = (if receiver c then Some (c\<lparr>queued := queued c @ [x]\<rparr>) else None)"

definition mpsc_poll_recv :: "'a mpsc \<Rightarrow> 'a option poll \<times> 'a mpsc" where
  "mpsc_poll_recv c =
     (case queued c of
        x # xs \<Rightarrow> (Ready (Some x), c\<lparr>queued := xs\<rparr>)
      | [] \<Rightarrow> (if senders c = 0 then Ready None else Pending, c))"

definition drop_receiver :: "'a mpsc \<Rightarrow> 'a mpsc" where
  "drop_receiver c = c\<lparr>queued := [], receiver := False\<rparr>"

text \<open>A \<open>Channel\<close> owns both ends; the panic of \<open>send\<close> is \<open>None\<close>.\<close>

definition channel_new :: "'a mpsc" where
  "channel_new = \<lparr>queued = [], senders = 1, receiver = True\<rparr>"

definition channel_send :: "'a \<Rightarrow> 'a mpsc \<Rightarrow> 'a mpsc option" where
  "channel_send message c = mpsc_send message c"

definition channel_poll_recv :: "'a mpsc \<Rightarrow> 'a option poll \<times> 'a mpsc" where
  "channel_poll_recv c = mpsc_poll_recv c"

definition channel_sender :: "'a mpsc \<Rightarrow> 'a mpsc" where
  "channel_sender c = c\<lparr>senders := senders c + 1\<rparr>"

text \<open>\<open>split\<close> gives the two ends away and leaves the shared state alone.\<close>

definition channel_split :: "'a mpsc \<Rightarrow> 'a mpsc" where
  "channel_split c = c"

text \<open>
  A queue between two tasks: whatever sends succeed and whatever receives are tried in between, what was
  received and what is still queued is what was sent, in order.
\<close>

locale fifo =
  fixes contents :: "'q \<Rightarrow> 'a list"
    and push :: "'a \<Rightarrow> 'q \<Rightarrow> 'q option"
    and pop :: "'q \<Rightarrow> 'a option \<times> 'q"
  assumes push_contents: "push x q = Some q' \<Longrightarrow> contents q' = contents q @ [x]"
    and pop_empty: "contents q = [] \<Longrightarrow> fst (pop q) = None \<and> contents (snd (pop q)) = []"
    and pop_front: "contents q = x # xs \<Longrightarrow> fst (pop q) = Some x \<and> contents (snd (pop q)) = xs"
begin

text \<open>\<open>Some x\<close> sends \<open>x\<close>, \<open>None\<close> receives.\<close>

fun transfers :: "'a option list \<Rightarrow> 'q \<Rightarrow> ('a list \<times> 'q) option" where
  "transfers [] q = Some ([], q)"
| "transfers (Some x # ops) q = (case push x q of None \<Rightarrow> None | Some q \<Rightarrow> transfers ops q)"
| "transfers (None # ops) q =
     map_option (\<lambda>(got, q'). ((case fst (pop q) of None \<Rightarrow> got | Some x \<Rightarrow> x # got), q')) (transfers ops (snd (pop q)))"

lemma in_order: "transfers ops q = Some (got, q') \<Longrightarrow> got @ contents q' = contents q @ List.map_filter (\<lambda>x. x) ops"
proof (induction ops q arbitrary: got rule: transfers.induct)
  case (2 x ops q)
  then show ?case by (auto simp: push_contents List.map_filter_def split: option.splits)
next
  case (3 ops q)
  then show ?case using pop_empty [of q] pop_front [of q]
    by (cases "contents q") (auto simp: List.map_filter_def)
qed (simp add: List.map_filter_def)

end

interpretation chan: fifo "queued :: 'a mpsc \<Rightarrow> 'a list" channel_send
  "\<lambda>c. case channel_poll_recv c of (Ready r, c) \<Rightarrow> (r, c) | (Pending, c) \<Rightarrow> (None, c)"
  by unfold_locales
    (auto simp: channel_send_def channel_poll_recv_def mpsc_send_def mpsc_poll_recv_def split: if_splits)

text \<open>While a \<open>Channel\<close> exists its sender is alive, so a receive waits instead of ending the stream, and \<open>send\<close>
  does not panic.\<close>

lemma channel_open:
  "senders c \<noteq> 0 \<Longrightarrow> fst (channel_poll_recv c) \<noteq> Ready None"
  "receiver c \<Longrightarrow> channel_send x c \<noteq> None"
  "receiver channel_new \<and> senders channel_new = 1"
  by (auto simp: channel_send_def channel_poll_recv_def mpsc_send_def mpsc_poll_recv_def channel_new_def split: list.splits)

section \<open>Protocol upgrade\<close>

text \<open>\<open>Codec::new\<close>: the largest length \<open>UviBytes\<close> lets pass.\<close>

record codec = codec_max_len :: nat

definition codec_new :: "nat \<Rightarrow> codec" where
  "codec_new max_message_len = \<lparr>codec_max_len = max_message_len\<rparr>"

record protocol_upgrade = upgrade_max_transmit :: nat

definition protocol_upgrade_new :: "nat \<Rightarrow> protocol_upgrade" where
  "protocol_upgrade_new max_transmit = \<lparr>upgrade_max_transmit = max_transmit\<rparr>"

definition protocol_info :: "protocol_upgrade \<Rightarrow> string list" where
  "protocol_info u = [''/anoma/gossip/1.0'']"

text \<open>A negotiated substream is the socket with a codec around it; the upgrade itself cannot fail.\<close>

definition upgrade_inbound :: "protocol_upgrade \<Rightarrow> 's \<Rightarrow> upgrade_error + 's \<times> codec" where
  "upgrade_inbound u socket = Inr (socket, codec_new (upgrade_max_transmit u))"

definition upgrade_outbound :: "protocol_upgrade \<Rightarrow> 's \<Rightarrow> upgrade_error + 's \<times> codec" where
  "upgrade_outbound u socket = Inr (socket, codec_new (upgrade_max_transmit u))"

section \<open>Starting the network\<close>

datatype start_error = StartIo string | TlsError string | TransportError string

record transport_env =
  dns_system :: "string + unit"
  into_authentic :: "bytes \<Rightarrow> string + unit"
  swarm_listen_on :: "multiaddr \<Rightarrow> string + unit"
  public_id :: "bytes \<Rightarrow> peer_id"

definition build_swarm :: "transport_env \<Rightarrow> config \<Rightarrow> bytes \<Rightarrow> start_error + swarm" where
  "build_swarm env cfg keypair =
     bind_res (map_sum StartIo id (dns_system env)) (\<lambda>_.
     bind_res (map_sum TlsError id (into_authentic env keypair)) (\<lambda>_.
     Inr \<lparr>sw_behaviour = behaviour_new, dialed = [], banned = []\<rparr>))"

text \<open>
  What the thread owns: the swarm, the command queue whose sender the network object holds, and whether
  the loop is still running.  \<open>listening\<close> records the addresses given to the swarm.
\<close>

record background =
  bg_swarm :: swarm
  listening :: "multiaddr list"
  cmds :: "runloop_command mpsc"
  running :: bool

definition listen_on_all :: "transport_env \<Rightarrow> multiaddr list \<Rightarrow> start_error + unit" where
  "listen_on_all env addrs = fold_res (\<lambda>addr _. map_sum TransportError id (swarm_listen_on env addr)) addrs ()"

definition start_network_runloop :: "transport_env \<Rightarrow> config \<Rightarrow> bytes \<Rightarrow> runloop_command mpsc \<Rightarrow> start_error + background" where
  "start_network_runloop env cfg keypair cmdrx =
     bind_res (build_swarm env cfg keypair) (\<lambda>sw.
     bind_res (listen_on_all env (listen_addrs cfg)) (\<lambda>_.
     Inr \<lparr>bg_swarm = sw, listening = listen_addrs cfg, cmds = cmdrx, running = True\<rparr>))"

definition runloop_new :: "transport_env \<Rightarrow> config \<Rightarrow> bytes \<Rightarrow> start_error + background" where
  "runloop_new env cfg keypair = start_network_runloop env cfg keypair (channel_split channel_new)"

definition runloop_send_command :: "runloop_command \<Rightarrow> background \<Rightarrow> background option" where
  "runloop_send_command command b = map_option (\<lambda>c. b\<lparr>cmds := c\<rparr>) (mpsc_send command (cmds b))"

text \<open>\<open>Network::new\<close> as a whole: the state of the object and the thread it starts.\<close>

definition network_open :: "transport_env \<Rightarrow> config \<Rightarrow> bytes \<Rightarrow> start_error + network \<times> background" where
  "network_open env cfg keypair =
     bind_res (runloop_new env cfg keypair) (\<lambda>b. Inr (network_new cfg (public_id env keypair), b))"

section \<open>The loop of the thread\<close>

text \<open>What libp2p reports to the behaviour while the swarm is polled.\<close>

datatype transport_event =
    SwConnected peer_id connection_id connected_point
  | SwClosed peer_id connection_id
  | SwListening multiaddr
  | SwReceived peer_id connection_id message

fun transport_inject :: "transport_event \<Rightarrow> behaviour \<Rightarrow> behaviour" where
  "transport_inject (SwConnected p c ep) = inject_connection_established p c ep"
| "transport_inject (SwClosed p c) = inject_connection_closed p c"
| "transport_inject (SwListening addr) = inject_new_listen_addr addr"
| "transport_inject (SwReceived p c m) = behaviour_inject_event p c m"

text \<open>
  The two branches of \<open>select!\<close>.  An event of the behaviour is sent to the network object; if that no longer
  exists the loop ends and takes the command queue with it.  Other events of the swarm are ignored.
\<close>

definition select_swarm :: "bool \<Rightarrow> transport_event list \<Rightarrow> background \<Rightarrow> command option \<times> background" where
  "select_swarm alive evs b =
     (let sw = bg_swarm b;
          (r, sw) = swarm_next (sw\<lparr>sw_behaviour := fold transport_inject evs (sw_behaviour sw)\<rparr>);
          b = b\<lparr>bg_swarm := sw\<rparr> in
      case r of
        None \<Rightarrow> (None, b)
      | Some cmd \<Rightarrow>
          if alive then (Some cmd, b)
          else (None, b\<lparr>running := False, cmds := drop_receiver (cmds b)\<rparr>))"

definition select_command :: "background \<Rightarrow> runloop_command option \<times> background" where
  "select_command b =
     (case mpsc_poll_recv (cmds b) of
        (Ready (Some cmd), c) \<Rightarrow> (Some cmd, b\<lparr>cmds := c, bg_swarm := runloop_step cmd (bg_swarm b)\<rparr>)
      | _ \<Rightarrow> (None, b))"

section \<open>Foreground and background together\<close>

text \<open>
  The network object lives in a task of its own, whose queue \<open>commands\<close> is the receiver of the thread's
  events.  What it hands to \<open>send_command\<close> during a poll collects in \<open>runloop_out\<close> and goes to the queue of
  the thread.  A step is a join, a poll of the object, the end of its task, or a turn of the thread;
  \<open>None\<close> is a panic of the network object.
\<close>

record net_node =
  fg :: network
  fg_alive :: bool
  bg :: background

datatype net_step =
    JoinTopic net_env topic_config
  | PollNetwork net_env bool
  | EndNetwork
  | SwarmBranch "transport_event list"
  | CommandBranch

datatype net_trace = Issued runloop_command | Handled runloop_command | Forwarded command

fun send_commands :: "runloop_command list \<Rightarrow> background \<Rightarrow> background option" where
  "send_commands [] b = Some b"
| "send_commands (c # cs) b = Option.bind (runloop_send_command c b) (send_commands cs)"

fun net_node_step :: "net_step \<Rightarrow> net_node \<Rightarrow> (net_trace list \<times> net_node) option" where
  "net_node_step (JoinTopic e tc) s = Some ([], if fg_alive s then s\<lparr>fg := snd (join e tc (fg s))\<rparr> else s)"
| "net_node_step (PollNetwork e tick) s =
     (if \<not> fg_alive s then Some ([], s)
      else case poll_next e tick (fg s) of
             None \<Rightarrow> None
           | Some n \<Rightarrow>
               map_option (\<lambda>b. (map Issued (runloop_out n), s\<lparr>fg := n\<lparr>runloop_out := []\<rparr>, bg := b\<rparr>))
                 (send_commands (runloop_out n) (bg s)))"
| "net_node_step EndNetwork s = Some ([], s\<lparr>fg_alive := False\<rparr>)"
| "net_node_step (SwarmBranch evs) s =
     (if \<not> running (bg s) then Some ([], s)
      else case select_swarm (fg_alive s) evs (bg s) of
             (None, b) \<Rightarrow> Some ([], s\<lparr>bg := b\<rparr>)
           | (Some cmd, b) \<Rightarrow> Some ([Forwarded cmd], s\<lparr>bg := b, fg := (fg s)\<lparr>commands := commands (fg s) @ [cmd]\<rparr>\<rparr>))"
| "net_node_step CommandBranch s =
     (if \<not> running (bg s) then Some ([], s)
      else case select_command (bg s) of
             (None, b) \<Rightarrow> Some ([], s\<lparr>bg := b\<rparr>)
           | (Some cmd, b) \<Rightarrow> Some ([Handled cmd], s\<lparr>bg := b\<rparr>))"

fun net_node_run :: "net_step list \<Rightarrow> net_node \<Rightarrow> (net_trace list \<times> net_node) option" where
  "net_node_run [] s = Some ([], s)"
| "net_node_run (x # xs) s =
     (case net_node_step x s of
        None \<Rightarrow> None
      | Some (out, s) \<Rightarrow> map_option (\<lambda>(more, s). (out @ more, s)) (net_node_run xs s))"

section \<open>Order of commands and events\<close>

fun issued_of :: "net_trace \<Rightarrow> runloop_command option" where
  "issued_of (Issued c) = Some c" | "issued_of _ = None"

fun handled_of :: "net_trace \<Rightarrow> runloop_command option" where
  "handled_of (Handled c) = Some c" | "handled_of _ = None"

fun event_of :: "net_trace \<Rightarrow> behaviour_event option" where
  "event_of (Forwarded (InjectEvent ev)) = Some ev" | "event_of _ = None"

fun reported :: "net_step \<Rightarrow> behaviour_event list" where
  "reported (SwarmBranch evs) = events (fold transport_inject evs behaviour_new)" | "reported _ = []"

definition linked :: "net_node \<Rightarrow> bool" where
  "linked s \<longleftrightarrow> (fg_alive s \<longrightarrow> running (bg s) \<and> receiver (cmds (bg s)) \<and> runloop_out (fg s) = [])"

lemma map_filter_append [simp]: "List.map_filter f (xs @ ys) = List.map_filter f xs @ List.map_filter f ys"
  by (simp add: List.map_filter_def)

lemma issued_map [simp]:
  "List.map_filter issued_of (map Issued cs) = cs" "List.map_filter handled_of (map Issued cs) = []" "List.map_filter event_of (map Issued cs) = []"
  by (induction cs) (simp_all add: List.map_filter_def)

lemma transport_inject_events: "events (transport_inject ev b) = events b @ events (transport_inject ev behaviour_new)"
  by (cases ev) (simp_all add: inject_connection_established_def inject_connection_closed_def inject_new_listen_addr_def
      behaviour_inject_event_def push_event_def behaviour_new_def)

lemma transport_injects_events: "events (fold transport_inject evs b) = events b @ events (fold transport_inject evs behaviour_new)"
proof (induction evs arbitrary: b)
  case (Cons ev evs)
  show ?case
    unfolding fold_Cons comp_apply
    by (subst (1 2) Cons.IH) (simp add: transport_inject_events [of ev b])
qed (simp add: behaviour_new_def)

lemma send_commands_alive:
  "receiver (cmds b) \<Longrightarrow> send_commands cs b = Some (b\<lparr>cmds := (cmds b)\<lparr>queued := queued (cmds b) @ cs\<rparr>\<rparr>)"
  by (induction cs arbitrary: b) (simp_all add: runloop_send_command_def mpsc_send_def)

abbreviation pending_events :: "net_node \<Rightarrow> behaviour_event list" where
  "pending_events s \<equiv> events (sw_behaviour (bg_swarm (bg s)))"

abbreviation pending_commands :: "net_node \<Rightarrow> runloop_command list" where
  "pending_commands s \<equiv> queued (cmds (bg s))"

lemma join_runloop [simp]: "runloop_out (snd (join e tc n)) = runloop_out n"
  by (simp add: join_def store_topic_def)

lemma runloop_step_events [simp]: "events (sw_behaviour (runloop_step c sw)) = events (sw_behaviour sw)"
  by (cases c) (simp_all add: runloop_step_def disconnect_from_def send_to_def)

lemma swarm_next_events:
  "swarm_next sw = (r, sw') \<Longrightarrow>
   (case events (sw_behaviour sw) of
      [] \<Rightarrow> r = None \<and> events (sw_behaviour sw') = []
    | ev # evs \<Rightarrow> r = Some (InjectEvent ev) \<and> events (sw_behaviour sw') = evs)"
  by (auto simp: swarm_next_def behaviour_poll_def split: list.splits prod.splits)

text \<open>The events of the behaviour are a queue from the transport to the swarm.\<close>

interpretation swarm_events: fifo "\<lambda>s. events (sw_behaviour s)" "\<lambda>ev s. Some (s\<lparr>sw_behaviour := push_event ev (sw_behaviour s)\<rparr>)"
  "\<lambda>s. case swarm_next s of (Some (InjectEvent ev), s) \<Rightarrow> (Some ev, s) | (_, s) \<Rightarrow> (None, s)"
  by unfold_locales (auto simp: swarm_next_def behaviour_poll_def push_event_def split: list.splits prod.splits)

lemma swarm_branch:
  assumes "fg_alive s" "linked s" "net_node_step (SwarmBranch evs) s = Some (out, s')"
  shows "fg_alive s' \<and> linked s' \<and> List.map_filter handled_of out = [] \<and> List.map_filter issued_of out = []
    \<and> pending_commands s' = pending_commands s
    \<and> List.map_filter event_of out @ pending_events s' = pending_events s @ reported (SwarmBranch evs)"
proof -
  let ?sw = "bg_swarm (bg s)"
  let ?b = "fold transport_inject evs (sw_behaviour ?sw)"
  obtain r sw where n: "swarm_next (?sw\<lparr>sw_behaviour := ?b\<rparr>) = (r, sw)" by fastforce
  have ev: "pending_events s @ reported (SwarmBranch evs) = events ?b" using transport_injects_events [of evs "sw_behaviour ?sw"] by simp
  show ?thesis
    unfolding ev using assms swarm_next_events [OF n] n
    by (cases "events ?b") (auto simp: select_swarm_def linked_def List.map_filter_def Let_def)
qed

text \<open>One step while the network object exists.\<close>

lemma net_node_step_order:
  assumes "fg_alive s" "linked s" "x \<noteq> EndNetwork" "net_node_step x s = Some (out, s')"
  shows "fg_alive s' \<and> linked s' \<and> List.map_filter handled_of out @ pending_commands s' = pending_commands s @ List.map_filter issued_of out
    \<and> List.map_filter event_of out @ pending_events s' = pending_events s @ reported x"
proof (cases x)
  case (PollNetwork e tick)
  with assms show ?thesis by (auto simp: linked_def send_commands_alive split: option.splits)
next
  case (SwarmBranch evs)
  with swarm_branch [OF assms(1,2)] assms(4) show ?thesis by simp
next
  case CommandBranch
  with assms show ?thesis
    by (cases "queued (cmds (bg s))") (auto simp: linked_def select_command_def mpsc_poll_recv_def List.map_filter_def split: if_splits)
qed (use assms in \<open>auto simp: linked_def List.map_filter_def\<close>)

lemma net_node_run_order:
  "fg_alive s \<Longrightarrow> linked s \<Longrightarrow> EndNetwork \<notin> set xs \<Longrightarrow> net_node_run xs s = Some (out, s') \<Longrightarrow>
   fg_alive s' \<and> linked s' \<and> List.map_filter handled_of out @ pending_commands s' = pending_commands s @ List.map_filter issued_of out
    \<and> List.map_filter event_of out @ pending_events s' = pending_events s @ concat (map reported xs)"
proof (induction xs arbitrary: s out)
  case (Cons x xs)
  then obtain o1 s1 o2 where s1: "net_node_step x s = Some (o1, s1)" "net_node_run xs s1 = Some (o2, s')" "out = o1 @ o2"
    by (auto split: option.splits)
  from Cons.prems(3) have "x \<noteq> EndNetwork" "EndNetwork \<notin> set xs" by auto
  with net_node_step_order [OF Cons.prems(1,2) _ s1(1)] Cons.IH [OF _ _ _ s1(2)] s1(3) show ?case
    by simp
qed (simp add: List.map_filter_def)

text \<open>With the network object gone, the first event ends the thread, and its command queue with it.\<close>

lemma thread_ends:
  assumes "\<not> fg_alive s" "running (bg s)" "pending_events s @ reported (SwarmBranch evs) \<noteq> []"
  shows "\<exists>s'. net_node_step (SwarmBranch evs) s = Some ([], s') \<and> \<not> running (bg s') \<and> runloop_send_command c (bg s') = None"
proof -
  let ?sw = "bg_swarm (bg s)"
  let ?b = "fold transport_inject evs (sw_behaviour ?sw)"
  obtain r sw where n: "swarm_next (?sw\<lparr>sw_behaviour := ?b\<rparr>) = (r, sw)" by fastforce
  have "events ?b \<noteq> []" using transport_injects_events [of evs "sw_behaviour ?sw"] assms(3) by simp
  with swarm_next_events [OF n] n assms(1,2) show ?thesis
    by (cases "events ?b") (auto simp: select_swarm_def Let_def runloop_send_command_def mpsc_send_def drop_receiver_def)
qed

section \<open>Properties\<close>


definition quiet_transport :: transport_env where
  "quiet_transport = \<lparr>dns_system = Inr (), into_authentic = (\<lambda>_. Inr ()), swarm_listen_on = (\<lambda>_. Inr ()), public_id = (\<lambda>k. k)\<rparr>"


end
