(* ===== verification/Encodings.thy ===== *)
theory Encodings
  imports Guest
begin

text \<open>
  Textual forms and the debug channel: the printing and parsing of addresses (\<open>primitives/src/address.rs\<close>),
  the base58 wrappers (\<open>primitives/src/b58.rs\<close>), and the two ends of the guest's debug log
  (\<open>sdk/predicates/src/lib.rs\<close> and \<open>debug_log\<close> in \<open>vm/src/execution.rs\<close>).  The base58 encoder and
  MessagePack are parameters.
\<close>

section \<open>Addresses as text\<close>

definition address_display :: "address \<Rightarrow> string" where
  "address_display a = path a"

definition address_debug :: "address \<Rightarrow> string" where
  "address_debug a = ''address('' @ path a @ '')''"

definition address_from_str :: "string \<Rightarrow> address_error + address" where
  "address_from_str s = address_new s"

text \<open>The bytes of a string, for characters up to U+00FF.\<close>

definition utf8_bytes :: "string \<Rightarrow> bytes" where
  "utf8_bytes s = concat (map (\<lambda>c. let n = of_char c :: nat in
     if n < 128 then [of_nat n] else [0xC0 + of_nat (n div 64), 0x80 + of_nat (n mod 64)]) s)"

definition string_of_address :: "(bytes \<Rightarrow> string) \<Rightarrow> address \<Rightarrow> string" where
  "string_of_address b58_encode pk = b58_encode (utf8_bytes (path pk))"

text \<open>\<open>ToBase58String\<close>: every implementation encodes the bytes of the value.\<close>

definition to_b58 :: "(bytes \<Rightarrow> string) \<Rightarrow> ('a \<Rightarrow> bytes) \<Rightarrow> 'a \<Rightarrow> string" where
  "to_b58 b58_encode to_bytes x = b58_encode (to_bytes x)"

lemma utf8_bytes_length: "length (utf8_bytes s) = utf8_len s"
  by (induction s) (simp_all add: utf8_bytes_def utf8_len_def utf8_width_def Let_def)

text \<open>Printing and parsing are inverse on constructed addresses.\<close>

lemma address_new_text: "address_new s = Inr a \<Longrightarrow> path a = s"
  by (auto simp: address_new_def split: list.splits if_splits)

lemma address_text_roundtrip:
  "valid_address a \<Longrightarrow> address_from_str (address_display a) = Inr a"
  "address_from_str s = Inr a \<Longrightarrow> address_display a = s \<and> valid_address a"
proof -
  show "address_from_str (address_display a) = Inr a" if "valid_address a"
    using that address_new_text [of "path a"]
    by (auto simp: valid_address_def is_ok_iff address_from_str_def address_display_def address.expand)
  show "address_display a = s \<and> valid_address a" if "address_from_str s = Inr a"
    using that address_new_text [OF that [unfolded address_from_str_def]]
    by (simp add: address_from_str_def address_display_def valid_address_def is_ok_iff)
qed

text \<open>The conversion into a string is no inverse of parsing: the letters of base58 do not include the slash.\<close>

lemma string_of_address_not_parsed:
  assumes "\<And>b. slash \<notin> set (b58_encode b)"
  shows "is_ok (address_from_str (string_of_address b58_encode a)) = False"
proof -
  have "slash \<notin> set (string_of_address b58_encode a)" using assms by (simp add: string_of_address_def)
  then show ?thesis
    by (cases "string_of_address b58_encode a") (auto simp: address_from_str_def address_new_def is_ok_iff)
qed

section \<open>The debug log of the guest\<close>

text \<open>
  The guest serialises the message into its memory and passes pointer and length as 32-bit values.  The
  host reads the range back and prints it; in a build without debug assertions it does nothing.  \<open>None\<close>
  is a panic, of \<open>unwrap\<close> in the guest or of \<open>expect\<close> in the host.
\<close>

definition guest_debug_log ::
  "(string \<Rightarrow> bytes option) \<Rightarrow> (bytes \<Rightarrow> u32 \<times> (nat \<Rightarrow> byte option)) \<Rightarrow> string \<Rightarrow> (u32 \<times> u32 \<times> (nat \<Rightarrow> byte option)) option"
where
  "guest_debug_log to_vec place msg =
     map_option (\<lambda>serialized. let (ptr, mem) = place serialized in (ptr, of_nat (length serialized), mem)) (to_vec msg)"

definition view_read :: "(nat \<Rightarrow> byte option) \<Rightarrow> u32 \<Rightarrow> u32 \<Rightarrow> bytes option" where
  "view_read mem ptr len = those (map (\<lambda>i. mem (unat ptr + i)) [0..<unat len])"

definition host_debug_log ::
  "bool \<Rightarrow> (bytes \<Rightarrow> string option) \<Rightarrow> (nat \<Rightarrow> byte option) \<Rightarrow> u32 \<Rightarrow> u32 \<Rightarrow> string list option"
where
  "host_debug_log debug_assertions from_slice mem ptr len =
     (if debug_assertions then
        case view_read mem ptr len of
          None \<Rightarrow> None
        | Some buffer \<Rightarrow> map_option (\<lambda>message. [''VM debug log: '' @ message]) (from_slice buffer)
      else Some [])"

lemma those_map_Some: "(\<And>x. x \<in> set xs \<Longrightarrow> f x = Some (g x)) \<Longrightarrow> those (map f xs) = Some (map g xs)"
  by (induction xs) simp_all

lemma debug_log_delivered:
  assumes "to_vec msg = Some b" "from_slice b = Some msg" "length b < 2 ^ 32"
    "place b = (ptr, mem)" "\<And>i. i < length b \<Longrightarrow> mem (unat ptr + i) = Some (b ! i)"
    "guest_debug_log to_vec place msg = Some (p, len, m)"
  shows "host_debug_log debug from_slice m p len = Some (if debug then [''VM debug log: '' @ msg] else [])"
proof -
  have len: "unat (of_nat (length b) :: u32) = length b" using assms(3) by (simp add: unat_of_nat)
  have "view_read mem ptr (of_nat (length b)) = Some (map (\<lambda>i. b ! i) [0..<length b])"
    unfolding view_read_def len by (rule those_map_Some) (use assms(5) in simp)
  then have "view_read mem ptr (of_nat (length b)) = Some b" by (simp add: map_nth)
  then show ?thesis using assms(1,2,4,6) by (auto simp: guest_debug_log_def host_debug_log_def)
qed

text \<open>A guest that passes a range outside its memory makes a debug build of the host panic; a release build
  does not look at the range.\<close>

lemma debug_log_out_of_range:
  assumes "i < unat len" "mem (unat ptr + i) = None"
  shows "host_debug_log True from_slice mem ptr len = None" "host_debug_log False from_slice mem ptr len = Some []"
proof -
  have "those (map f xs) = None" if "x \<in> set xs" "f x = None" for f :: "nat \<Rightarrow> byte option" and x xs
    using that by (induction xs) (auto split: option.splits)
  from this [of i "[0..<unat len]"] assms show "host_debug_log True from_slice mem ptr len = None"
    by (simp add: host_debug_log_def view_read_def)
qed (simp add: host_debug_log_def)

end
