(* ===== verification/Tests.thy ===== *)
theory Tests
  imports Query VmState Encodings
begin

text \<open>
  The unit tests of the repository, run on the model: \<open>primitives/src/address.rs\<close>, \<open>predicate.rs\<close>,
  \<open>vm/src/state.rs\<close> and \<open>sdk/offchain/src/query.rs\<close>.  Each test is a definition of the same name with the
  conjunction of its assertions; a failing \<open>?\<close> or \<open>unwrap\<close> fails the test.  The lemmas show that every
  test passes, so on these inputs the model agrees with what the authors expect of the code.
\<close>

definition parsed :: "string \<Rightarrow> (address \<Rightarrow> bool) \<Rightarrow> bool" where
  "parsed s k = (case address_new s of Inr a \<Rightarrow> k a | Inl _ \<Rightarrow> False)"

lemma parsed_ok: "is_ok (address_new s) \<Longrightarrow> parsed s k = k (Address s)"
  using address_new_text by (fastforce simp: parsed_def is_ok_iff address.expand)

section \<open>Addresses\<close>

definition test_construction :: bool where
  "test_construction \<longleftrightarrow>
     is_ok (address_new ''/token'')
   \<and> is_ok (address_new ''/token/usda'')
   \<and> is_ok (address_new ''/token/usda/walletaddr1'')
   \<and> address_new '''' = Inl EmptyPath
   \<and> address_new ''token'' = Inl MissingStartingSlash
   \<and> address_new ''/token/'' = Inl InvalidEndingSlash
   \<and> address_new ''//token'' = Inl EmptyPathSegment
   \<and> address_new ''/inval$id'' = Inl (InvalidCharacter (CHR ''$''))"

definition test_ancestors :: bool where
  "test_ancestors \<longleftrightarrow>
     parsed ''/token/usda/walletaddr1'' (\<lambda>addr.
     parsed ''/token'' (\<lambda>token.
     parsed ''/token/usda'' (\<lambda>usda.
       case ancestors addr of
         None \<Rightarrow> False
       | Some ancs \<Rightarrow> length ancs = 2 \<and> token = ancs ! 1 \<and> usda = ancs ! 0)))"

definition test_combine :: bool where
  "test_combine \<longleftrightarrow>
     parsed ''/token'' (\<lambda>token.
     case combine token ''usda'' of Inl _ \<Rightarrow> False | Inr token_usda \<Rightarrow>
     case combine token_usda ''walletaddr1'' of Inl _ \<Rightarrow> False | Inr token_usda_wallet \<Rightarrow>
       map_option length (ancestors token) = Some 0
     \<and> map_option length (ancestors token_usda) = Some 1
     \<and> map_option length (ancestors token_usda_wallet) = Some 2
     \<and> address_display token = ''/token''
     \<and> address_display token_usda = ''/token/usda''
     \<and> address_display token_usda_wallet = ''/token/usda/walletaddr1'')"

lemma construction_passes: test_construction
  by code_simp

lemma sample_ancestors_of:
  "ancestors (Address ''/token'') = Some []"
  "ancestors (Address ''/token/usda'') = Some [Address ''/token'']"
  "ancestors (Address ''/token/usda/walletaddr1'') = Some [Address ''/token/usda'', Address ''/token'']"
proof -
  have ok: "valid_segments [''token'']" "valid_segments [''token'', ''usda'']" "valid_segments [''token'', ''usda'', ''walletaddr1'']"
    by code_simp+
  show "ancestors (Address ''/token'') = Some []" using ancestors_join [OF ok(1)] by (simp add: join_path_def)
  show "ancestors (Address ''/token/usda'') = Some [Address ''/token'']" using ancestors_join [OF ok(2)] by (simp add: join_path_def)
  show "ancestors (Address ''/token/usda/walletaddr1'') = Some [Address ''/token/usda'', Address ''/token'']"
    using ancestors_join [OF ok(3)] by (simp add: join_path_def upt_rec)
qed

lemma ancestors_passes: test_ancestors
proof -
  have "is_ok (address_new ''/token/usda/walletaddr1'')" "is_ok (address_new ''/token'')" "is_ok (address_new ''/token/usda'')"
    by code_simp+
  then show ?thesis by (simp add: test_ancestors_def parsed_ok sample_ancestors_of)
qed

lemma combine_passes: test_combine
proof -
  have c: "combine (Address ''/token'') ''usda'' = Inr (Address ''/token/usda'')"
    "combine (Address ''/token/usda'') ''walletaddr1'' = Inr (Address ''/token/usda/walletaddr1'')" by code_simp+
  have "is_ok (address_new ''/token'')" by code_simp
  then show ?thesis by (simp add: test_combine_def parsed_ok c sample_ancestors_of address_display_def)
qed

section \<open>State diffs\<close>

definition byte_string :: "string \<Rightarrow> bytes" where
  "byte_string s = utf8_bytes s"

definition account_with_state :: "bytes \<Rightarrow> account" where
  "account_with_state st =
     \<lparr>acc_state = st, acc_predicates = TId \<lparr>pred_code = CodeInline (byte_string ''some-code''), pred_params = []\<rparr>\<rparr>"

text \<open>\<open>store.iter().count()\<close>\<close>

definition memory_iter_count :: "memory_store \<Rightarrow> nat" where
  "memory_iter_count s = card (dom (data s))"

definition test_statediff_smoke :: bool where
  "test_statediff_smoke \<longleftrightarrow>
     parsed ''/test/addr1'' (\<lambda>a1. parsed ''/test/addr2'' (\<lambda>a2. parsed ''/test/addr3'' (\<lambda>a3.
       let store = memory_default;
           diff1 = snd (diff_set diff_default a1 (account_with_state [0, 1]));
           diff1 = snd (diff_set diff1 a2 (account_with_state [2, 3]));
           store1 = memory_apply store diff1;
           diff2 = snd (diff_remove diff_default a1);
           store2 = memory_apply store1 diff2 in
       memory_iter_count store = 0
     \<and> memory_iter_count store1 = 2
     \<and> memory_get store1 a3 = None
     \<and> map_option acc_state (memory_get store1 a1) = Some [0, 1]
     \<and> map_option acc_state (memory_get store1 a2) = Some [2, 3]
     \<and> memory_iter_count store2 = 1
     \<and> memory_get store2 a1 = None
     \<and> memory_get store2 a2 \<noteq> None)))"

definition test_statediff_merge :: bool where
  "test_statediff_merge \<longleftrightarrow>
     parsed ''/addr1'' (\<lambda>a1. parsed ''/addr2'' (\<lambda>a2. parsed ''/addr3'' (\<lambda>a3. parsed ''/addr4'' (\<lambda>a4. parsed ''/addr5'' (\<lambda>a5.
       let diff1 = snd (diff_set diff_default a1 (account_with_state [0, 1]));
           diff1 = snd (diff_set diff1 a2 (account_with_state [2, 3]));
           diff2 = snd (diff_set diff_default a3 (account_with_state [4, 5]));
           diff2 = snd (diff_set diff2 a4 (account_with_state [6, 7]));
           diff3 = diff_merge diff2 diff1;
           diff3' = diff_apply diff3 diff2;
           diff5 = snd (diff_remove diff_default a3);
           diff5 = snd (diff_set diff5 a5 (account_with_state [7, 8]));
           diff3'' = diff_apply diff3' diff5;
           all = diff_iter diff3'' in
       diff_iter diff_default = []
     \<and> length (diff_iter diff1) = 2
     \<and> length (diff_iter diff2) = 2
     \<and> length (diff_iter diff3) = 4
     \<and> map_option acc_state (diff_get diff3 a1) = Some [0, 1]
     \<and> map_option acc_state (diff_get diff3 a2) = Some [2, 3]
     \<and> map_option acc_state (diff_get diff3 a3) = Some [4, 5]
     \<and> map_option acc_state (diff_get diff3 a4) = Some [6, 7]
     \<and> length (diff_iter diff3') = 4
     \<and> diff_get diff3'' a3 = None
     \<and> diff_get diff3'' a5 \<noteq> None
     \<and> map fst all = [a1, a2, a4, a5, a3]
     \<and> snd (all ! 4) = None)))))"

lemma statediff_smoke_passes: test_statediff_smoke
proof -
  have "is_ok (address_new ''/test/addr1'')" "is_ok (address_new ''/test/addr2'')" "is_ok (address_new ''/test/addr3'')"
    by code_simp+
  moreover have "upserts (snd (diff_set (snd (diff_set diff_default (Address ''/test/addr1'') x)) (Address ''/test/addr2'') y))
      = [(Address ''/test/addr1'', x), (Address ''/test/addr2'', y)]"
    "deletes (snd (diff_set (snd (diff_set diff_default (Address ''/test/addr1'') x)) (Address ''/test/addr2'') y)) = []" for x y
    by code_simp+
  moreover have "upserts (snd (diff_remove diff_default (Address ''/test/addr1''))) = []"
    "deletes (snd (diff_remove diff_default (Address ''/test/addr1''))) = [(Address ''/test/addr1'', ())]" by code_simp+
  ultimately show ?thesis
    by (simp add: test_statediff_smoke_def parsed_ok memory_apply_def memory_default_def memory_get_def memory_iter_count_def
        account_with_state_def Let_def)
qed

lemma statediff_merge_passes: test_statediff_merge
  by code_simp

section \<open>Mapping a predicate tree\<close>

text \<open>\<open>to_uppercase\<close> on the ASCII letters, the only ones the test uses, and \<open>String::from_utf8\<close> on ASCII bytes.\<close>

definition to_uppercase :: "string \<Rightarrow> string" where
  "to_uppercase s = map (\<lambda>c. let n = of_char c :: nat in if 97 \<le> n \<and> n \<le> 122 then char_of (n - 32) else c) s"

definition from_utf8 :: "bytes \<Rightarrow> string option" where
  "from_utf8 b = (if list_all (\<lambda>x. x < 128) b then Some (map (\<lambda>x. char_of (unat x)) b) else None)"

definition shout_code :: "code \<Rightarrow> expanded_code option" where
  "shout_code c =
     (case c of
        CodeInline b \<Rightarrow>
          map_option (\<lambda>s. \<lparr>xcode = byte_string (to_uppercase s), entrypoint = ''DEFAULT_ENTRYPOINT''\<rparr>) (from_utf8 b)
      | CodeAccountRef a e \<Rightarrow>
          Some \<lparr>xcode = byte_string (to_uppercase (address_display a)), entrypoint = to_uppercase e\<rparr>)"

definition shout_param :: "param \<Rightarrow> expanded_param" where
  "shout_param p =
     (case p of
        ParamInline v \<Rightarrow> XInline v
      | ParamAccountRef a \<Rightarrow> XAccountRef a (byte_string (to_uppercase (address_display a)))
      | ParamProposalRef a \<Rightarrow> XProposalRef a (XReplaceState [] (byte_string (to_uppercase (address_display a))))
      | ParamCalldataRef c \<Rightarrow> XCalldataRef c (byte_string (to_uppercase c)))"

definition shout :: "basic_predicate \<Rightarrow> expanded_predicate option" where
  "shout pr = map_option (\<lambda>c. \<lparr>pred_code = c, pred_params = map shout_param (pred_params pr)\<rparr>) (shout_code (pred_code pr))"

definition test_predicate_tree_map :: bool where
  "test_predicate_tree_map \<longleftrightarrow>
     parsed ''/address/one'' (\<lambda>one. parsed ''/address/two'' (\<lambda>two. parsed ''/address/three'' (\<lambda>three.
     parsed ''/address/four'' (\<lambda>four. parsed ''/address/five'' (\<lambda>five.
       let input_tree =
             TNot (TAnd
               (TOr
                 (TId \<lparr>pred_code = CodeInline (byte_string ''code-1''), pred_params = [ParamInline (byte_string ''param-1'')]\<rparr>)
                 (TId \<lparr>pred_code = CodeAccountRef one ''entrypoint-1'',
                       pred_params = [ParamAccountRef two, ParamAccountRef three, ParamProposalRef five]\<rparr>))
               (TAnd
                 (TNot (TId \<lparr>pred_code = CodeInline (byte_string ''code-2''), pred_params = [ParamCalldataRef ''calldata-1'']\<rparr>))
                 (TId \<lparr>pred_code = CodeAccountRef four ''entrypoint-2'', pred_params = []\<rparr>)));
           expected_output_tree =
             TNot (TAnd
               (TOr
                 (TId \<lparr>pred_code = \<lparr>xcode = byte_string ''CODE-1'', entrypoint = ''DEFAULT_ENTRYPOINT''\<rparr>,
                       pred_params = [XInline (byte_string ''param-1'')]\<rparr>)
                 (TId \<lparr>pred_code = \<lparr>xcode = byte_string ''/ADDRESS/ONE'', entrypoint = ''ENTRYPOINT-1''\<rparr>,
                       pred_params = [XAccountRef two (byte_string ''/ADDRESS/TWO''), XAccountRef three (byte_string ''/ADDRESS/THREE''),
                                      XProposalRef five (XReplaceState [] (byte_string ''/ADDRESS/FIVE''))]\<rparr>))
               (TAnd
                 (TNot (TId \<lparr>pred_code = \<lparr>xcode = byte_string ''CODE-2'', entrypoint = ''DEFAULT_ENTRYPOINT''\<rparr>,
                             pred_params = [XCalldataRef ''calldata-1'' (byte_string ''CALLDATA-1'')]\<rparr>))
                 (TId \<lparr>pred_code = \<lparr>xcode = byte_string ''/ADDRESS/FOUR'', entrypoint = ''ENTRYPOINT-2''\<rparr>, pred_params = []\<rparr>))) in
       tree_map shout input_tree = tree_map Some expected_output_tree)))))"

lemma predicate_tree_map_passes: test_predicate_tree_map
  by code_simp

section \<open>Matching intents\<close>

text \<open>The predicates and patterns the tests are built from.\<close>

definition pred_of :: "address \<Rightarrow> string \<Rightarrow> 'p list \<Rightarrow> (code, 'p) predicate expression_tree" where
  "pred_of std ep ps = TId \<lparr>pred_code = CodeAccountRef std ep, pred_params = ps\<rparr>"

definition some_leaf :: "address \<Rightarrow> string \<Rightarrow> address \<Rightarrow> string \<Rightarrow> predicate_tree" where
  "some_leaf std ep a v = pred_of std ep [ParamAccountRef a, ParamInline (byte_string v)]"

definition captured :: "predicate_tree \<Rightarrow> query_tree \<Rightarrow> (string \<times> match_value) list \<Rightarrow> bool" where
  "captured t q expected =
     (case matches t q of
        None \<Rightarrow> False
      | Some m \<Rightarrow> list_all (\<lambda>(k, v). m k = Some v) expected)"

definition test_matching_single_predicate :: bool where
  "test_matching_single_predicate \<longleftrightarrow>
     parsed ''/stdpred'' (\<lambda>std. parsed ''/address1'' (\<lambda>a1.
       captured (some_leaf std ''pred1'' a1 ''someval'')
         (pred_of std ''pred1'' [PAccountRef ''param1'', PInline ''param2''])
         [(''param1'', MAddress a1), (''param2'', MBytes (byte_string ''someval''))]))"

definition test_matching_single_predicate_any :: bool where
  "test_matching_single_predicate_any \<longleftrightarrow>
     parsed ''/stdpred'' (\<lambda>std. parsed ''/address1'' (\<lambda>a1.
       captured (some_leaf std ''pred1'' a1 ''someval'')
         (pred_of std ''pred1'' [PAny, PInline ''param2''])
         [(''param2'', MBytes (byte_string ''someval''))]))"

definition test_matching_single_predicate_negative :: bool where
  "test_matching_single_predicate_negative \<longleftrightarrow>
     parsed ''/stdpred'' (\<lambda>std. parsed ''/address1'' (\<lambda>a1.
       matches (some_leaf std ''pred1'' a1 ''someval'')
         (pred_of std ''pred2'' [PAny, PInline ''param2'']) = None))"

definition test_matching_predicate_tree :: bool where
  "test_matching_predicate_tree \<longleftrightarrow>
     parsed ''/stdpred'' (\<lambda>std. parsed ''/address1'' (\<lambda>a1. parsed ''/address2'' (\<lambda>a2.
       captured (TAnd (some_leaf std ''pred1'' a1 ''someval'') (some_leaf std ''pred2'' a2 ''someval2''))
         (TAnd (pred_of std ''pred1'' [PAccountRef ''param1'', PInline ''param2''])
               (pred_of std ''pred2'' [PAccountRef ''param3'', PInline ''param4'']))
         [(''param1'', MAddress a1), (''param3'', MAddress a2),
          (''param2'', MBytes (byte_string ''someval'')), (''param4'', MBytes (byte_string ''someval2''))])))"

definition test_matching_predicate_tree_any :: bool where
  "test_matching_predicate_tree_any \<longleftrightarrow>
     parsed ''/stdpred'' (\<lambda>std. parsed ''/address1'' (\<lambda>a1. parsed ''/address2'' (\<lambda>a2.
       captured (TAnd (some_leaf std ''pred1'' a1 ''someval'') (some_leaf std ''pred2'' a2 ''someval2''))
         (TAnd (pred_of std ''pred1'' [PAccountRef ''param1'', PAny])
               (pred_of std ''pred2'' [PAccountRef ''param3'', PInline ''param4'']))
         [(''param1'', MAddress a1), (''param3'', MAddress a2), (''param4'', MBytes (byte_string ''someval2''))])))"

definition test_matching_predicate_tree_negative :: bool where
  "test_matching_predicate_tree_negative \<longleftrightarrow>
     parsed ''/stdpred'' (\<lambda>std. parsed ''/address1'' (\<lambda>a1. parsed ''/address2'' (\<lambda>a2.
       matches (TAnd (some_leaf std ''pred1'' a1 ''someval'') (some_leaf std ''pred2'' a2 ''someval2''))
         (TAnd (pred_of std ''pred1'' [PAccountRef ''param1''])
               (pred_of std ''pred2'' [PAccountRef ''param3'', PInline ''param4''])) = None
     \<and> matches (TAnd (some_leaf std ''pred1'' a1 ''someval'') (some_leaf std ''pred2'' a2 ''someval2''))
         (TOr (pred_of std ''pred1'' [PAccountRef ''param1'', PAny])
              (pred_of std ''pred2'' [PAccountRef ''param3'', PInline ''param4''])) = None)))"

lemmas test_matching_defs =
  test_matching_single_predicate_def
  test_matching_single_predicate_any_def
  test_matching_single_predicate_negative_def
  test_matching_predicate_tree_def
  test_matching_predicate_tree_any_def
  test_matching_predicate_tree_negative_def

lemma matching_passes:
  test_matching_single_predicate
  test_matching_single_predicate_any
  test_matching_single_predicate_negative
  test_matching_predicate_tree
  test_matching_predicate_tree_any
  test_matching_predicate_tree_negative
proof -
  have ok: "is_ok (address_new ''/stdpred'')" "is_ok (address_new ''/address1'')" "is_ok (address_new ''/address2'')" by code_simp+
  note run = test_matching_defs parsed_ok [OF ok(1)] parsed_ok [OF ok(2)] parsed_ok [OF ok(3)] captured_def matches_def some_leaf_def pred_of_def
  show test_matching_single_predicate test_matching_single_predicate_any test_matching_single_predicate_negative test_matching_predicate_tree test_matching_predicate_tree_any test_matching_predicate_tree_negative
    by (simp_all add: run)
qed

end
