(* ===== verification/Spec2Isabelle.thy ===== *)
theory Spec2Isabelle
  imports Loadtests Programs Background Tests
begin

text \<open>
  \<^bold>\<open>A verification library for an intent-centric blockchain prototype\<close>

  The program is a Rust workspace.  Accounts live at slash-separated addresses and carry a state and a
  tree of predicates.  A transaction combines intents and proposes changes of accounts; it is valid when
  every predicate tree of the accounts it touches, of their ancestors, and of its intents evaluates to
  true.  Blocks of transactions are executed in parallel where they do not depend on each other, and
  travel, like transactions and intents, over a peer-to-peer overlay.

  \<^bold>\<open>Parts of the program and their theories\<close>

  \<^item> \<open>Prelude\<close>, \<open>BTree\<close>: results, loops with early return, byte strings; the ordered maps and sets of
    the standard library as sorted association lists behind the locale \<open>ordered_map\<close>.
  \<^item> \<open>Addresses\<close> (\<open>primitives/src/address.rs\<close>): construction, ancestors, \<open>combine\<close>, \<open>is_parent_of\<close>,
    related to the list of segments of a path.
  \<^item> \<open>Predicates\<close>, \<open>Transactions\<close> (\<open>predicate.rs\<close>, \<open>account.rs\<close>, \<open>intent.rs\<close>, \<open>transaction.rs\<close>,
    \<open>block.rs\<close>): the data types, the traversals of expression trees, the memoised hashes.
  \<^item> \<open>VmState\<close> (\<open>vm/src/state.rs\<close>): state diffs, overlays and the in-memory store.  Merging two diffs
    refines applying them in sequence.
  \<^item> \<open>Collect\<close> (\<open>vm/src/collect.rs\<close>): what a transaction would change and which predicates it triggers.
  \<^item> \<open>Execution\<close> (\<open>vm/src/execution.rs\<close>): the algebra of outcomes, the invocation of a predicate, and the
    parallel evaluation with cancellation as a machine that interleaves tasks.  The WebAssembly runtime is
    the record \<open>wasm_env\<close>.  Acceptance is characterised for every interleaving.
  \<^item> \<open>Verdict\<close> (\<open>vm/src/execution.rs\<close>): what an acceptance is worth when predicates crash.
  \<^item> \<open>Syncell\<close> (\<open>vm/src/syncell.rs\<close>): the exclusive cell on its 64-bit state word.
  \<^item> \<open>Schedule\<close> (\<open>vm/src/schedule.rs\<close>): read and write sets, the dependency forest, rows in breadth-first
    order and \<open>execute_many\<close>.  The graph library is the record \<open>petgraph\<close> with the laws it documents.
  \<^item> \<open>Stdpred\<close>, \<open>Token\<close> (\<open>stdpred/src\<close>, \<open>sdk/predicates/examples/token.rs\<close>): the standard predicates and
    the token predicate over parametric decoders and signatures.
  \<^item> \<open>Guest\<close> (\<open>sdk/predicates/src/builtins.rs\<close>, \<open>sdk/predicates/derive/src/lib.rs\<close>, \<open>stdpred/src/lib.rs\<close>):
    the side of a predicate call inside WebAssembly, with its linear memory and heap, and the attribute that
    exports predicates.  \<open>guest_env\<close> is the runtime of \<open>Execution\<close> with this guest in it.
  \<^item> \<open>Query\<close> (\<open>sdk/offchain/src/query.rs\<close>): matching of intents against templates.
  \<^item> \<open>Builder\<close> (\<open>sdk/offchain/src/builder.rs\<close>, \<open>watcher.rs\<close>, \<open>sdk/devnode/src/mempool.rs\<close>, the loop of
    \<open>main.rs\<close>): consuming blocks, producing them, and signalling waiters.  It composes \<open>Schedule\<close>,
    \<open>Execution\<close>, \<open>Collect\<close> and \<open>VmState\<close> through \<open>vm_runner\<close>.
  \<^item> \<open>Replica\<close> (\<open>watcher.rs\<close> as a whole): a watcher along its stream of blocks, compared with the node that
    produces them.
  \<^item> \<open>Codecache\<close>: the cache of compiled predicates that \<open>Builder\<close> writes and \<open>Execution\<close> reads.
  \<^item> \<open>Cache\<close> (\<open>network/src/cache.rs\<close>): collections whose entries expire, behind the locale
    \<open>expiring_store\<close>.
  \<^item> \<open>Wire\<close> (\<open>wire.rs\<close>, \<open>config.rs\<close>, and the command and event types): messages, peers and settings.
  \<^item> \<open>Topic\<close>, \<open>Overlay\<close> (\<open>topic.rs\<close>): every handler of the HyParView overlay, the invariant of its state,
    and the properties of dissemination and maintenance.  The locale \<open>state_preorder\<close> carries what a
    handler may change over its loops; it is interpreted on the relations \<open>quiet\<close>, \<open>evolves\<close> and \<open>calm\<close>,
    and in \<open>Network\<close> on \<open>queues\<close>, \<open>same_routing\<close> and \<open>routes\<close>.
  \<^item> \<open>Muxer\<close> (\<open>muxer.rs\<close>): which topic a connection belongs to, and dials in progress.
  \<^item> \<open>Network\<close> (\<open>network.rs\<close>): the object that owns topics and muxer and works off a queue of commands.
    Its reachable states are the inductive relation \<open>net_reach\<close>.
  \<^item> \<open>Transport\<close> (\<open>stream.rs\<close>, \<open>behaviour.rs\<close>, \<open>runloop.rs\<close>, \<open>codec.rs\<close>, \<open>upgrade.rs\<close>): the substream
    state machines, the queues libp2p polls, and the framing.
  \<^item> \<open>Background\<close> (\<open>runloop.rs\<close>, \<open>channel.rs\<close>, \<open>upgrade.rs\<close>, the constructors of \<open>network.rs\<close> and \<open>codec.rs\<close>):
    the thread behind the network object, the channels between the two, and their joint steps.
  \<^item> \<open>Settings\<close> (\<open>settings.rs\<close> of \<open>sdk/devnode\<close> and \<open>sdk/examples/pgqf\<close>, and their \<open>start_network\<close>):
    defaults, listening addresses and the topics the programs join.
  \<^item> \<open>Pgqf\<close> (\<open>sdk/examples/pgqf/src\<close>): the client, with every transaction and intent it builds, its sending
    loops and its script, the matching of the solver, and the guest library.
  \<^item> \<open>Ledger\<close>: how the trees of standard predicates on the accounts and in the intents of the client
    constrain accepted transactions.  It joins \<open>Collect\<close>, \<open>Verdict\<close>, \<open>Guest\<close>, \<open>Stdpred\<close>, \<open>Codecache\<close>
    and \<open>Pgqf\<close>; runs of accepted transactions are the inductive relation \<open>unsigned_run\<close>.
  \<^item> \<open>Programs\<close> (\<open>main\<close> of the development node, of the solver and of the client): the programs put together
    from their components, with the topics they find when they gossip as part of their events.
  \<^item> \<open>Encodings\<close> (\<open>address.rs\<close>, \<open>b58.rs\<close>, \<open>sdk/predicates/src/lib.rs\<close>, \<open>debug_log\<close> of \<open>execution.rs\<close>): addresses as
    text, base58, and both ends of the debug log.
  \<^item> \<open>Tests\<close> (the test modules of \<open>address.rs\<close>, \<open>predicate.rs\<close>, \<open>state.rs\<close>, \<open>query.rs\<close>): the unit tests, which the
    model passes.  \<open>Fixtures\<close> (\<open>vm/tests\<close>): the initial state and the token operations of the integration
    tests, and two of these tests; \<open>Loadtests\<close>: the two load tests, run as blocks.  All four fail on the fixture.

  \<^bold>\<open>Conventions\<close>

  A Rust \<open>Result\<close> is a sum with \<open>Inl\<close> for the error; \<open>None\<close> around a result is a panic.  Machine integers
  keep their width where arithmetic on them matters: heights, balances and supplies are 64-bit words,
  hop counts 16-bit words, the cell state a 64-bit word.  Hash maps are association lists with distinct
  keys; the order in which the program iterates over them, the draws of its random generators, the time,
  and the scheduling of tasks are parameters, so every theorem holds for all of them.  Code that is not in
  the repository (MessagePack, hash functions, signatures, the WebAssembly runtime, petgraph, libp2p) is a
  parameter too; what is assumed of it is a named hypothesis such as \<open>petgraph_laws\<close>, \<open>world_ok\<close>,
  \<open>codec_laws\<close>, \<open>allocator_laws\<close>, \<open>codec_ok\<close>, \<open>serializer_ok\<close> or the side condition of \<open>net_reach.delivered\<close>, and the witnesses instantiate it.

  \<^bold>\<open>What the theorems show\<close>

  \<^item> Validity: \<open>execute\<close> accepts a transaction exactly when its changes apply and every triggered tree holds;
    it returns for all constructed addresses; conjunctive failures report a real reason; trees without
    negation hold after acceptance even if predicates crash.
  \<^item> Predicate calls: host and guest together return what the predicate returns on the given parameters and
    context; the code cache never changes the result.
  \<^item> Blocks: \<open>execute_many\<close> returns one result per transaction in order, each computed on a state that
    contains the result of its nearest dependency; without dependencies it equals sequential execution.
  \<^item> State: merging diffs is sequential application; diffs stay well formed; outputs and predicate contexts
    agree.
  \<^item> Node: consumed blocks extend the chain and apply the merged diffs; no received transaction is lost or
    included twice; waiters are signalled exactly for what occurs in a block.  A watcher that receives every
    block holds the accounts of the node, although the two interleave their tasks, iterate and cache code
    differently, as long as no crash can hide below a disjunction or a negation.
  \<^item> Predicates: conservation of tokens and authorisation of minting; immutable accounts; a wallet of the
    example keeps its balance along every run of transactions its owner has not signed.
  \<^item> Example: the sending loop returns exactly when the topic gets a peer.
  \<^item> Network: a topic never panics and keeps its views bounded; content reaches exactly the other active
    peers; a starved node recovers; the network object panics in exactly one situation; duplicates are
    dropped; messages of a connection stay in order; framing round-trips; the background thread carries out
    commands and forwards events once and in order for as long as the network object exists.
  \<^item> Defects of the code, proved as theorems: a verdict that depends on the schedule, a dropped dependency, a
    transaction that stops the node, a block that is lost and cuts off every watcher, inflation by overflow,
    libraries anybody can replace, pool donations that pay the donor, integration tests that cannot pass.
    Further ones are lemmas of the component theories: a token that is frozen, signed intents and
    confirmations that are awaited in vain, projects no solver recognises, a crash hidden by a disjunction, a shuffle reply
    that teaches nothing, a slot that is not freed, an active view that is never trimmed, a message
    overtaken by its disconnect.

  \<^bold>\<open>Bounds and termination\<close>

  The loops of the substream handler and the ancestor iterator terminate by measures.  The breadth-first
  rows are a partial function whose termination on forests is part of \<open>execute_many_complete\<close>.  The task
  machine takes a schedule of any length and is completed in task order afterwards.  \<open>decode_all\<close> takes
  a number of reads, and one more than the number of messages is enough.  Floating point settings are real
  numbers, without the rounding of \<open>f64\<close>.  The sending loop of the client is a partial function, and
  \<open>send_loop_returns\<close> says exactly when it returns.  One time is used for all clock readings of one handler call.

  \<^bold>\<open>Not modelled\<close>

  Logging and metrics; the derived \<open>Debug\<close> output; parsing the command line; what libp2p does with the
  transport it is given, whose failures and reports are parameters; module declarations and build scripts.  \<open>await_block_height\<close>
  and \<open>stop\<close> of the watcher and \<open>create_funding_redistribution_intent\<close> of the client are \<open>todo!()\<close> in the source
  and panics here, so what the client does after them is modelled but never reached.
\<close>

end
